(* ===== verification/Net_Prelude.thy ===== *)
theory Net_Prelude
  imports Main "HOL-Library.Word" "HOL-Library.Signed_Division"
begin

text \<open>
  Shared vocabulary of the development. It holds the error values that stand for the ways the
  C++ code can fail (a failed \<open>assert\<close>, an access outside an object, an exception of the
  standard library, \<open>LOG_FATAL\<close>), the result type the fallible operations return, the
  conversions between \<open>size_t\<close> and \<open>int\<close> that the sources perform implicitly, the
  list functions that model the algorithms of the C++ library the sources call
  (\<open>std::copy\<close>, \<open>std::search\<close>, \<open>std::find\<close>, \<open>std::vector::resize\<close>), the decimal
  conversions of \<open>snprintf\<close>, and the lemmas about them that the component theories share.

  The collection \<open>net_simps\<close> holds the rewrite rules that unfold one layer of such a
  function under its side condition.
\<close>

named_theorems net_simps "rewrite rules of the shared C++ vocabulary"

section \<open>Errors and results\<close>

datatype cpp_error =
    Assert_failed      \<comment> \<open>\<open>assert\<close> of \<open><cassert>\<close>\<close>
  | Out_of_bounds      \<comment> \<open>a read or write outside the object: undefined behaviour\<close>
  | Length_error       \<comment> \<open>\<open>std::length_error\<close> of a container\<close>
  | Null_pointer       \<comment> \<open>a null pointer or an empty \<open>std::function\<close> is used\<close>
  | Overlapping_copy   \<comment> \<open>\<open>std::copy\<close> into its own source range: undefined behaviour\<close>
  | Use_after_free     \<comment> \<open>an object is used after its release: undefined behaviour\<close>
  | Missing_return     \<comment> \<open>control leaves a non-void function without a value: undefined behaviour\<close>
  | Bad_any_cast       \<comment> \<open>\<open>std::bad_any_cast\<close>: the context does not hold the type asked for\<close>
  | Fatal              \<comment> \<open>\<open>LOG_FATAL\<close>: the process aborts\<close>

type_synonym 'a result = "cpp_error + 'a"

fun bindr :: "'a result \<Rightarrow> ('a \<Rightarrow> 'b result) \<Rightarrow> 'b result" where
  "bindr (Inl e) f = Inl e"
| "bindr (Inr x) f = f x"

definition assertr :: "bool \<Rightarrow> 'a result \<Rightarrow> 'a result" where
  "assertr b r = (if b then r else Inl Assert_failed)"

fun foldr_result :: "('s \<Rightarrow> 'a \<Rightarrow> 's result) \<Rightarrow> 's \<Rightarrow> 'a list \<Rightarrow> 's result" where
  "foldr_result f s [] = Inr s"
| "foldr_result f s (x # xs) = bindr (f s x) (\<lambda>s'. foldr_result f s' xs)"

section \<open>Machine integers\<close>

text \<open>
  \<open>size_t\<close> values are natural numbers below \<open>2 ^ 64\<close>; \<open>int\<close> values are integers between
  \<open>- 2 ^ 31\<close> and \<open>2 ^ 31 - 1\<close>. The three functions are the unsigned subtraction, the
  implicit conversion of an \<open>int\<close> operand to \<open>size_t\<close>, and the narrowing of a \<open>size_t\<close>
  argument to an \<open>int\<close> parameter.
\<close>

definition size_sub :: "nat \<Rightarrow> nat \<Rightarrow> nat" where
  "size_sub a b = (a + 2 ^ 64 - b) mod 2 ^ 64"

definition size_add :: "nat \<Rightarrow> nat \<Rightarrow> nat" where
  "size_add a b = (a + b) mod 2 ^ 64"

definition size_of_int :: "int \<Rightarrow> nat" where
  "size_of_int i = nat (i mod 2 ^ 64)"

definition int_of_size :: "nat \<Rightarrow> int" where
  "int_of_size n = (int n + 2 ^ 31) mod 2 ^ 32 - 2 ^ 31"

section \<open>Algorithms of the C++ library on lists\<close>

text \<open>\<open>std::copy(src, src + len, base + i)\<close>, when the target range lies inside the object.\<close>

definition overwrite :: "'a list \<Rightarrow> nat \<Rightarrow> 'a list \<Rightarrow> 'a list" where
  "overwrite xs i ys = take i xs @ ys @ drop (i + length ys) xs"

definition slice :: "'a list \<Rightarrow> nat \<Rightarrow> nat \<Rightarrow> 'a list" where
  "slice xs i j = take (j - i) (drop i xs)"

text \<open>\<open>std::vector<char>::resize(n)\<close>: new elements are value-initialised.\<close>

definition vec_resize :: "nat \<Rightarrow> 'a \<Rightarrow> 'a list \<Rightarrow> 'a list" where
  "vec_resize n z xs = take n xs @ replicate (n - length xs) z"

text \<open>\<open>std::search\<close>: the offset of the first occurrence of \<open>pat\<close>, \<open>None\<close> for the end.\<close>

fun std_search :: "'a list \<Rightarrow> 'a list \<Rightarrow> nat option" where
  "std_search pat [] = (if pat = [] then Some 0 else None)"
| "std_search pat (x # xs) =
     (if take (length pat) (x # xs) = pat then Some 0
      else map_option Suc (std_search pat xs))"

text \<open>\<open>std::find\<close>: the offset of the first occurrence of \<open>c\<close>, the length for the end.\<close>

definition std_find :: "'a \<Rightarrow> 'a list \<Rightarrow> nat" where
  "std_find c xs = length (takeWhile (\<lambda>x. x \<noteq> c) xs)"

text \<open>\<open>memchr\<close>: the offset of the first occurrence of \<open>c\<close>, \<open>None\<close> for a null pointer.\<close>

definition mem_chr :: "'a \<Rightarrow> 'a list \<Rightarrow> nat option" where
  "mem_chr c xs = (if std_find c xs < length xs then Some (std_find c xs) else None)"

section \<open>Decimal conversion of \<open>snprintf\<close>\<close>

definition digit_char :: "nat \<Rightarrow> char" where
  "digit_char d = char_of (48 + d)"

fun show_nat :: "nat \<Rightarrow> string" where
  "show_nat n = (if n < 10 then [digit_char n] else show_nat (n div 10) @ [digit_char (n mod 10)])"

declare show_nat.simps [simp del]

definition show_int :: "int \<Rightarrow> string" where
  "show_int i = (if i < 0 then CHR ''-'' # show_nat (nat (- i)) else show_nat (nat i))"

definition pad_left :: "nat \<Rightarrow> char \<Rightarrow> string \<Rightarrow> string" where
  "pad_left k c s = replicate (k - length s) c @ s"

text \<open>\<open>snprintf(buf, n, ...)\<close> keeps at most \<open>n - 1\<close> characters of the formatted text.\<close>

definition snprintf_buf :: "nat \<Rightarrow> string \<Rightarrow> string" where
  "snprintf_buf n s = take (n - 1) s"

fun read_digits :: "nat \<Rightarrow> string \<Rightarrow> nat" where
  "read_digits acc [] = acc"
| "read_digits acc (c # cs) = read_digits (10 * acc + (of_char c - 48)) cs"

definition read_int :: "string \<Rightarrow> int" where
  "read_int s = (case s of [] \<Rightarrow> 0
     | c # cs \<Rightarrow> if c = CHR ''-'' then - int (read_digits 0 cs) else int (read_digits 0 (c # cs)))"

section \<open>Lemmas: results\<close>

lemma bindr_eq_Inr [simp]: "bindr r f = Inr y \<longleftrightarrow> (\<exists>x. r = Inr x \<and> f x = Inr y)"
  by (cases r) auto

lemma assertr_eq_Inr [simp]: "assertr b r = Inr y \<longleftrightarrow> b \<and> r = Inr y"
  by (simp add: assertr_def)

lemma assertr_True [simp]: "assertr True r = r" and assertr_False [simp]: "assertr False r = Inl Assert_failed"
  by (simp_all add: assertr_def)

lemma bindr_assoc: "bindr (bindr r f) g = bindr r (\<lambda>x. bindr (f x) g)"
  by (cases r) auto

lemma foldr_result_append:
  "foldr_result f s (xs @ ys) = bindr (foldr_result f s xs) (\<lambda>s'. foldr_result f s' ys)"
  by (induction xs arbitrary: s) (simp_all add: bindr_assoc)

text \<open>An invariant kept by every step is kept by the whole run.\<close>

lemma foldr_result_invariant:
  assumes "foldr_result f s xs = Inr s'" and "P s"
    and "\<And>s x t. x \<in> set xs \<Longrightarrow> P s \<Longrightarrow> f s x = Inr t \<Longrightarrow> P t"
  shows "P s'"
  using assms by (induction xs arbitrary: s) auto

section \<open>Lemmas: machine integers\<close>

lemma size_sub_eq [net_simps]: "b \<le> a \<Longrightarrow> a < 2 ^ 64 \<Longrightarrow> size_sub a b = a - b"
  by (simp add: size_sub_def mod_if)

lemma size_add_eq [net_simps]: "a + b < 2 ^ 64 \<Longrightarrow> size_add a b = a + b"
  by (simp add: size_add_def)

lemma size_of_int_eq [net_simps]: "0 \<le> i \<Longrightarrow> i < 2 ^ 64 \<Longrightarrow> size_of_int i = nat i"
  by (simp add: size_of_int_def)

lemma int_of_size_eq [net_simps]: "n < 2 ^ 31 \<Longrightarrow> int_of_size n = int n"
  by (simp add: int_of_size_def)

lemma size_of_int_neg: "i < 0 \<Longrightarrow> - (2 ^ 64) \<le> i \<Longrightarrow> size_of_int i = nat (i + 2 ^ 64)"
proof -
  assume i: "i < 0" "- (2 ^ 64) \<le> i"
  then have "(i + 2 ^ 64) mod 2 ^ 64 = i + 2 ^ 64"
    by (intro mod_pos_pos_trivial) auto
  then show ?thesis by (simp add: size_of_int_def)
qed

lemma int_of_size_wrap: "2 ^ 31 \<le> n \<Longrightarrow> n < 2 ^ 32 + 2 ^ 31 \<Longrightarrow> int_of_size n = int n - 2 ^ 32"
proof -
  assume n: "2 ^ 31 \<le> n" "n < 2 ^ 32 + 2 ^ 31"
  then have "(int n - 2 ^ 31) mod 2 ^ 32 = int n - 2 ^ 31"
    by (intro mod_pos_pos_trivial) auto
  moreover have "(int n + 2 ^ 31) mod 2 ^ 32 = (int n - 2 ^ 31) mod 2 ^ 32"
    using mod_add_self2 [of "int n - 2 ^ 31" "2 ^ 32"] by (simp add: add.commute)
  ultimately show ?thesis by (simp add: int_of_size_def)
qed

lemma int_of_size_bounds: "- (2 ^ 31) \<le> int_of_size n \<and> int_of_size n < 2 ^ 31"
proof -
  have "0 \<le> (int n + 2 ^ 31) mod 2 ^ 32" and "(int n + 2 ^ 31) mod 2 ^ 32 < 2 ^ 32"
    by simp_all
  then show ?thesis by (simp add: int_of_size_def)
qed

section \<open>Lemmas: lists\<close>

lemma length_overwrite [simp]:
  "i + length ys \<le> length xs \<Longrightarrow> length (overwrite xs i ys) = length xs"
  by (simp add: overwrite_def)

lemma length_slice [simp]: "j \<le> length xs \<Longrightarrow> length (slice xs i j) = j - i"
  by (simp add: slice_def)

lemma slice_empty [simp]: "slice xs i i = []"
  by (simp add: slice_def)

lemma length_vec_resize [simp]: "length (vec_resize n z xs) = n"
  by (simp add: vec_resize_def)

text \<open>Writing behind a slice extends it; writing in front of it does not change it.\<close>

lemma slice_overwrite_extend:
  assumes "i \<le> j" and "j + length ys \<le> length xs"
  shows "slice (overwrite xs j ys) i (j + length ys) = slice xs i j @ ys"
proof -
  have "drop i (take j xs @ ys @ drop (j + length ys) xs)
      = drop i (take j xs) @ ys @ drop (j + length ys) xs"
    using assms by simp
  moreover have "length (drop i (take j xs)) = j - i"
    using assms by simp
  ultimately show ?thesis
    using assms by (simp add: slice_def overwrite_def take_drop)
qed

lemma slice_overwrite_before:
  assumes "i + length ys \<le> j" and "j \<le> k" and "k \<le> length xs"
  shows "slice (overwrite xs i ys) j k = slice xs j k"
  using assms by (simp add: slice_def overwrite_def)

lemma slice_overwrite_at:
  assumes "i + length ys \<le> length xs"
  shows "slice (overwrite xs i ys) i (i + length ys) = ys"
  using assms by (simp add: slice_def overwrite_def)

lemma slice_append_slice:
  assumes "i \<le> j" and "j \<le> k"
  shows "slice xs i j @ slice xs j k = slice xs i k"
proof -
  have "drop j xs = drop (j - i) (drop i xs)" using assms by simp
  then have "slice xs j k = take (k - j) (drop (j - i) (drop i xs))"
    by (simp add: slice_def)
  moreover have "k - i = (j - i) + (k - j)" using assms by simp
  ultimately show ?thesis by (simp only: slice_def take_add)
qed

lemma slice_vec_resize:
  assumes "k \<le> length xs" and "length xs \<le> n"
  shows "slice (vec_resize n z xs) i k = slice xs i k"
  using assms by (simp add: slice_def vec_resize_def drop_take)

lemma drop_slice: "drop n (slice xs i j) = slice xs (i + n) j"
  by (simp add: slice_def drop_take add.commute diff_diff_left)

lemma take_slice: "i + n \<le> j \<Longrightarrow> take n (slice xs i j) = slice xs i (i + n)"
  by (simp add: slice_def min_def)

text \<open>\<open>std::search\<close> finds the first occurrence, and fails exactly when there is none.\<close>

lemma std_search_Some_occurs:
  "std_search pat xs = Some i \<Longrightarrow> i + length pat \<le> length xs \<and> take (length pat) (drop i xs) = pat"
proof (induction xs arbitrary: i)
  case Nil
  then show ?case by (simp split: if_splits)
next
  case (Cons x xs)
  show ?case
  proof (cases "take (length pat) (x # xs) = pat")
    case True
    then have "length pat \<le> length (x # xs)"
      by (metis length_take min.cobounded1)
    with True Cons.prems show ?thesis by simp
  next
    case False
    with Cons.prems obtain k where "std_search pat xs = Some k" and "i = Suc k"
      by auto
    with Cons.IH show ?thesis by auto
  qed
qed

lemma std_search_Some_first:
  "std_search pat xs = Some i \<Longrightarrow> j < i \<Longrightarrow> take (length pat) (drop j xs) \<noteq> pat"
proof (induction xs arbitrary: i j)
  case Nil
  then show ?case by (simp split: if_splits)
next
  case (Cons x xs)
  then show ?case by (cases j) (auto split: if_splits)
qed

lemma std_search_None:
  "std_search pat xs = None \<Longrightarrow> j \<le> length xs \<Longrightarrow> take (length pat) (drop j xs) \<noteq> pat"
proof (induction xs arbitrary: j)
  case Nil
  then show ?case by (auto split: if_splits)
next
  case (Cons x xs)
  then show ?case by (cases j) (auto split: if_splits)
qed

lemma std_find_le [simp]: "std_find c xs \<le> length xs"
  by (simp add: std_find_def length_takeWhile_le)

lemma std_find_append [simp]: "c \<notin> set xs \<Longrightarrow> std_find c (xs @ c # ys) = length xs"
  by (induction xs) (auto simp: std_find_def)

lemma std_find_absent [simp]: "c \<notin> set xs \<Longrightarrow> std_find c xs = length xs"
  by (induction xs) (auto simp: std_find_def)

lemma std_find_eq_length: "std_find c xs = length xs \<longleftrightarrow> c \<notin> set xs"
  by (induction xs) (auto simp: std_find_def)

lemma std_find_nth: "std_find c xs < length xs \<Longrightarrow> xs ! std_find c xs = c"
  by (induction xs) (auto simp: std_find_def)

lemma mem_chr_None: "mem_chr c xs = None \<longleftrightarrow> c \<notin> set xs"
  by (metis le_neq_implies_less mem_chr_def nat_neq_iff option.distinct(1) std_find_eq_length std_find_le)

section \<open>Lemmas: decimal text\<close>

lemma show_nat_less_10: "n < 10 \<Longrightarrow> show_nat n = [digit_char n]"
  by (simp add: show_nat.simps)

lemma show_nat_ge_10: "10 \<le> n \<Longrightarrow> show_nat n = show_nat (n div 10) @ [digit_char (n mod 10)]"
  by (simp add: show_nat.simps [of n])

lemma show_nat_not_Nil [simp]: "show_nat n \<noteq> []"
  by (subst show_nat.simps) simp

lemma of_digit_char [simp]: "d < 10 \<Longrightarrow> (of_char (digit_char d) :: nat) = 48 + d"
  by (simp add: digit_char_def)

lemma digit_char_literals:
  "digit_char 0 = CHR ''0''" "digit_char (Suc 0) = CHR ''1''" "digit_char 2 = CHR ''2''" "digit_char 3 = CHR ''3''" "digit_char 4 = CHR ''4''"
  "digit_char 5 = CHR ''5''" "digit_char 6 = CHR ''6''" "digit_char 7 = CHR ''7''" "digit_char 8 = CHR ''8''" "digit_char 9 = CHR ''9''"
  by code_simp+

lemma read_digits_append: "read_digits a (xs @ ys) = read_digits (read_digits a xs) ys"
  by (induction xs arbitrary: a) auto

lemma read_digits_show_nat: "read_digits 0 (show_nat n) = n"
proof (induction n rule: show_nat.induct)
  case (1 n)
  show ?case
  proof (cases "n < 10")
    case True
    then show ?thesis by (simp add: show_nat_less_10)
  next
    case False
    with 1 show ?thesis by (simp add: show_nat_ge_10 read_digits_append)
  qed
qed

lemma show_nat_chars: "c \<in> set (show_nat n) \<Longrightarrow> 48 \<le> (of_char c :: nat) \<and> (of_char c :: nat) < 58"
proof (induction n rule: show_nat.induct)
  case (1 n)
  show ?case
  proof (cases "n < 10")
    case True
    with 1 show ?thesis by (simp add: show_nat_less_10)
  next
    case False
    have "n mod 10 < 10" by simp
    with False 1 show ?thesis by (auto simp: show_nat_ge_10)
  qed
qed

text \<open>Characters outside the digits do not occur in decimal text.\<close>

lemma show_nat_notin: "(of_char c :: nat) < 48 \<or> 58 \<le> (of_char c :: nat) \<Longrightarrow> c \<notin> set (show_nat n)"
  using show_nat_chars [of c n] by auto

lemma show_nat_hd: "hd (show_nat n) \<noteq> CHR ''-''"
  using show_nat_notin [of "CHR ''-''" n] hd_in_set [OF show_nat_not_Nil [of n]] by fastforce

lemma read_int_show_int: "read_int (show_int i) = i"
proof (cases "i < 0")
  case True
  then show ?thesis by (simp add: read_int_def show_int_def read_digits_show_nat)
next
  case False
  obtain c cs where s: "show_nat (nat i) = c # cs"
    by (cases "show_nat (nat i)") auto
  with show_nat_hd [of "nat i"] have "c \<noteq> CHR ''-''" by simp
  moreover have "read_digits 0 (c # cs) = nat i"
    using s read_digits_show_nat by metis
  ultimately show ?thesis
    using False s by (simp add: read_int_def show_int_def)
qed

lemma length_show_nat: "n < 10 ^ k \<Longrightarrow> 0 < k \<Longrightarrow> length (show_nat n) \<le> k"
proof (induction n arbitrary: k rule: show_nat.induct)
  case (1 n)
  show ?case
  proof (cases "n < 10")
    case True
    with 1 show ?thesis by (simp add: show_nat_less_10)
  next
    case False
    with "1.prems" obtain m where k: "k = Suc m" by (cases k) auto
    with False "1.prems" have "0 < m" by (cases m) auto
    moreover from k "1.prems" have "n div 10 < 10 ^ m"
      by (simp add: less_mult_imp_div_less mult.commute)
    ultimately show ?thesis
      using "1.IH" [of m] False k by (simp add: show_nat_ge_10)
  qed
qed

end
