(* ===== verification/Timestamp.thy ===== *)
theory Timestamp
  imports Complex_Main Net_Prelude
begin

text \<open>
  \<open>base/timestamp.h\<close> and \<open>base/timestamp.cc\<close>: points in time as microseconds since the epoch.
  The order on timestamps is the source's \<open>operator<\<close>; it makes them an instance of the
  library's linear orders, which the timer queue uses. A \<open>double\<close> is its rational value; the
  rounding of a floating-point operation is the parameter \<open>rnd\<close>. \<open>gettimeofday\<close> and
  \<open>localtime\<close> are parameters too. The 64-bit microsecond count is an unbounded integer: it does
  not overflow before the year 294247.
\<close>

section \<open>Timestamps and their order\<close>

datatype timestamp = Timestamp (micro_seconds_since_epoch: int)

text \<open>\<open>operator<\<close> and \<open>operator==\<close>\<close>

definition Timestamp_less :: "timestamp \<Rightarrow> timestamp \<Rightarrow> bool" where
  "Timestamp_less lhs rhs \<longleftrightarrow> micro_seconds_since_epoch lhs < micro_seconds_since_epoch rhs"

definition Timestamp_equal :: "timestamp \<Rightarrow> timestamp \<Rightarrow> bool" where
  "Timestamp_equal lhs rhs \<longleftrightarrow> micro_seconds_since_epoch lhs = micro_seconds_since_epoch rhs"

instantiation timestamp :: linorder
begin

definition timestamp_le: "(lhs :: timestamp) \<le> rhs \<longleftrightarrow> Timestamp_less lhs rhs \<or> Timestamp_equal lhs rhs"

definition timestamp_less: "(lhs :: timestamp) < rhs \<longleftrightarrow> Timestamp_less lhs rhs"

instance
  by standard (auto simp: timestamp_le timestamp_less Timestamp_less_def Timestamp_equal_def timestamp.expand)

end

lemma less_eq_timestamp_def: "(lhs :: timestamp) \<le> rhs \<longleftrightarrow> micro_seconds_since_epoch lhs \<le> micro_seconds_since_epoch rhs"
  by (auto simp: timestamp_le Timestamp_less_def Timestamp_equal_def)

lemma less_timestamp_def: "(lhs :: timestamp) < rhs \<longleftrightarrow> micro_seconds_since_epoch lhs < micro_seconds_since_epoch rhs"
  by (simp add: timestamp_less Timestamp_less_def)

definition kMicroSecondsPerSecond :: int where "kMicroSecondsPerSecond = 1000 * 1000"

definition Timestamp_default :: timestamp where "Timestamp_default = Timestamp 0"

definition Timestamp_Invalid :: timestamp where "Timestamp_Invalid = Timestamp_default"

record timeval =
  tv_sec :: int
  tv_usec :: int

definition Timestamp_Now :: "timeval \<Rightarrow> timestamp" where
  "Timestamp_Now tv = Timestamp (tv_sec tv * kMicroSecondsPerSecond + tv_usec tv)"

definition seconds_since_epoch :: "timestamp \<Rightarrow> int" where
  "seconds_since_epoch t = micro_seconds_since_epoch t sdiv kMicroSecondsPerSecond"

section \<open>Arithmetic\<close>

text \<open>\<open>static_cast<int64_t>\<close> of a \<open>double\<close> truncates towards zero.\<close>

definition trunc_rat :: "rat \<Rightarrow> int" where
  "trunc_rat x = (if 0 \<le> x then \<lfloor>x\<rfloor> else \<lceil>x\<rceil>)"

definition AddTime :: "(rat \<Rightarrow> rat) \<Rightarrow> timestamp \<Rightarrow> rat \<Rightarrow> timestamp" where
  "AddTime rnd t seconds =
     (let delta = trunc_rat (rnd (seconds * of_int kMicroSecondsPerSecond))
      in Timestamp (micro_seconds_since_epoch t + delta))"

definition TimeDifference :: "(rat \<Rightarrow> rat) \<Rightarrow> timestamp \<Rightarrow> timestamp \<Rightarrow> rat" where
  "TimeDifference rnd high low =
     (let diff = micro_seconds_since_epoch high - micro_seconds_since_epoch low
      in rnd (rnd (of_int diff) / of_int kMicroSecondsPerSecond))"

section \<open>Text\<close>

text \<open>The conversion \<open>%0<w>ld\<close>: the sign counts towards the width, the zeros follow it.\<close>

definition fmt_zero :: "nat \<Rightarrow> int \<Rightarrow> string" where
  "fmt_zero w i = (if i < 0 then CHR ''-'' # pad_left (w - 1) CHR ''0'' (show_nat (nat (- i)))
                   else pad_left w CHR ''0'' (show_nat (nat i)))"

definition Timestamp_ToString :: "timestamp \<Rightarrow> string" where
  "Timestamp_ToString t =
     (let seconds = micro_seconds_since_epoch t sdiv kMicroSecondsPerSecond;
          microseconds = micro_seconds_since_epoch t smod kMicroSecondsPerSecond
      in snprintf_buf 32 (show_int seconds @ ''.'' @ fmt_zero 6 microseconds))"

record tm =
  tm_year :: int
  tm_mon :: int
  tm_mday :: int
  tm_hour :: int
  tm_min :: int
  tm_sec :: int

definition calendar_text :: "nat \<Rightarrow> tm \<Rightarrow> string" where
  "calendar_text year_width d =
     fmt_zero year_width (tm_year d + 1900) @ ''/'' @ fmt_zero 2 (tm_mon d + 1) @ ''/'' @ fmt_zero 2 (tm_mday d)
     @ '' '' @ fmt_zero 2 (tm_hour d) @ '':'' @ fmt_zero 2 (tm_min d) @ '':'' @ fmt_zero 2 (tm_sec d)"

definition Timestamp_ToFormattedString :: "(int \<Rightarrow> tm) \<Rightarrow> bool \<Rightarrow> timestamp \<Rightarrow> string" where
  "Timestamp_ToFormattedString localtime show_micro_seconds t =
     (let seconds = micro_seconds_since_epoch t sdiv kMicroSecondsPerSecond;
          tm_time = localtime seconds
      in if show_micro_seconds
         then (let micro_seconds = micro_seconds_since_epoch t smod kMicroSecondsPerSecond
               in snprintf_buf 64 (calendar_text 4 tm_time @ ''.'' @ fmt_zero 6 micro_seconds))
         else snprintf_buf 64 (calendar_text 4 tm_time))"

text \<open>Reading the printed form back: the digits before and after the point.\<close>

definition parse_timestamp :: "string \<Rightarrow> timestamp" where
  "parse_timestamp s =
     Timestamp (int (read_digits 0 (takeWhile (\<lambda>c. c \<noteq> CHR ''.'') s)) * kMicroSecondsPerSecond
       + int (read_digits 0 (tl (dropWhile (\<lambda>c. c \<noteq> CHR ''.'') s))))"

section \<open>Lemmas\<close>

lemma micro_less [simp]: "Timestamp a < Timestamp b \<longleftrightarrow> a < b"
  and micro_less_eq [simp]: "Timestamp a \<le> Timestamp b \<longleftrightarrow> a \<le> b"
  by (simp_all add: less_timestamp_def less_eq_timestamp_def)

lemma trunc_rat_nonneg: "0 \<le> x \<Longrightarrow> 0 \<le> trunc_rat x"
  by (simp add: trunc_rat_def)

lemma read_digits_zeros: "read_digits 0 (replicate k CHR ''0'' @ s) = read_digits 0 s"
  by (induction k) simp_all

lemma read_digits_pad: "read_digits 0 (pad_left k CHR ''0'' (show_nat n)) = n"
  by (simp add: pad_left_def read_digits_zeros read_digits_show_nat)

lemma sdiv_smod_nonneg: "0 \<le> (a::int) \<Longrightarrow> 0 < b \<Longrightarrow> a sdiv b = a div b \<and> a smod b = a mod b"
  by (cases "a = 0") (simp_all add: signed_divide_int_def signed_modulo_int_def)

lemma show_nat_no_dot: "CHR ''.'' \<notin> set (show_nat n)"
  by (rule show_nat_notin) simp

lemma length_show_nat_64: "n < 2 ^ 63 \<Longrightarrow> length (show_nat n) \<le> 19"
  by (rule length_show_nat) simp_all

section \<open>Properties\<close>

text \<open>
  The printed form of a timestamp determines it: for every timestamp the 64-bit
  member can hold from the epoch on, \<open>ToString\<close> is not truncated by its 32-byte buffer and reading
  its digits back gives the same timestamp.
\<close>
theorem Timestamp_ToString_roundtrip:
  assumes "0 \<le> m" and "m < 2 ^ 63"
  shows "parse_timestamp (Timestamp_ToString (Timestamp m)) = Timestamp m"
proof -
  let ?s = "nat (m div 1000000)" and ?u = "nat (m mod 1000000)"
  have u: "?u < 10 ^ 6" using nat_less_iff by force
  have "?s < 2 ^ 63" using assms by (simp add: nat_less_iff div_less_iff_less_mult)
  then have ls: "length (show_nat ?s) \<le> 19" by (rule length_show_nat_64)
  have lu: "length (pad_left 6 CHR ''0'' (show_nat ?u)) = 6"
    using length_show_nat [OF u] by (simp add: pad_left_def)
  have "Timestamp_ToString (Timestamp m) = show_nat ?s @ ''.'' @ pad_left 6 CHR ''0'' (show_nat ?u)"
    using assms ls lu
    by (simp add: Timestamp_ToString_def kMicroSecondsPerSecond_def sdiv_smod_nonneg show_int_def fmt_zero_def
        snprintf_buf_def pos_imp_zdiv_neg_iff Let_def)
  moreover have "takeWhile (\<lambda>c. c \<noteq> CHR ''.'') (show_nat ?s @ ''.'' @ t) = show_nat ?s"
    and "dropWhile (\<lambda>c. c \<noteq> CHR ''.'') (show_nat ?s @ ''.'' @ t) = CHR ''.'' # t" for t
    using show_nat_no_dot [of ?s] by (simp_all add: takeWhile_append dropWhile_append)
  ultimately show ?thesis
    using assms by (simp add: parse_timestamp_def read_digits_show_nat read_digits_pad kMicroSecondsPerSecond_def
        pos_imp_zdiv_nonneg_iff)
qed

theorem Timestamp_ToString_roundtrip_witness:
  "parse_timestamp (Timestamp_ToString (Timestamp 1686570268952562)) = Timestamp 1686570268952562"
  by (rule Timestamp_ToString_roundtrip) simp_all

end
