(* ===== verification/Http_Request.thy ===== *)
theory Http_Request
  imports Timestamp
begin

text \<open>
  \<open>http/http_request.h\<close>: a parsed request. The record has the six members of \<open>HttpRequest\<close>;
  the header map is a partial function from field names to values. A pointer range of the source
  is the string between the two pointers.
\<close>

datatype http_method = kInvalid | kGet | kPost | kHead | kPut | kDelete

datatype http_version = kUnknown | kHttp10 | kHttp11

record http_request =
  req_method :: http_method
  req_version :: http_version
  req_path :: string
  req_query :: string
  req_receive_time :: timestamp
  req_headers :: "string \<rightharpoonup> string"

definition HttpRequest_new :: http_request where
  "HttpRequest_new = \<lparr>req_method = kInvalid, req_version = kUnknown, req_path = [], req_query = [],
     req_receive_time = Timestamp_default, req_headers = Map.empty\<rparr>"

definition SetVersion :: "http_version \<Rightarrow> http_request \<Rightarrow> http_request" where
  "SetVersion v r = r\<lparr>req_version := v\<rparr>"

definition method_of :: "string \<Rightarrow> http_method" where
  "method_of m = (if m = ''GET'' then kGet else if m = ''POST'' then kPost else if m = ''HEAD'' then kHead
     else if m = ''PUT'' then kPut else if m = ''DELETE'' then kDelete else kInvalid)"

definition SetMethod :: "string \<Rightarrow> http_request \<Rightarrow> bool \<times> http_request" where
  "SetMethod m r = (method_of m \<noteq> kInvalid, r\<lparr>req_method := method_of m\<rparr>)"

definition MethodString :: "http_request \<Rightarrow> string" where
  "MethodString r = (case req_method r of kGet \<Rightarrow> ''GET'' | kPost \<Rightarrow> ''POST'' | kHead \<Rightarrow> ''HEAD''
     | kPut \<Rightarrow> ''PUT'' | kDelete \<Rightarrow> ''DELETE'' | _ \<Rightarrow> ''UNKNOWN'')"

definition SetPath :: "string \<Rightarrow> http_request \<Rightarrow> http_request" where
  "SetPath p r = r\<lparr>req_path := p\<rparr>"

definition SetQuery :: "string \<Rightarrow> http_request \<Rightarrow> http_request" where
  "SetQuery q r = r\<lparr>req_query := q\<rparr>"

definition SetReceiveTime :: "timestamp \<Rightarrow> http_request \<Rightarrow> http_request" where
  "SetReceiveTime t r = r\<lparr>req_receive_time := t\<rparr>"

text \<open>\<open>isspace\<close> in the C locale: the blank and the control characters 9 to 13.\<close>

definition isspace :: "char \<Rightarrow> bool" where
  "isspace c \<longleftrightarrow> c \<in> {CHR '' '', CHR 0x09, CHR 0x0A, CHR 0x0B, CHR 0x0C, CHR 0x0D}"

text \<open>The second loop of \<open>AddHeader\<close>: drop trailing white space.\<close>

definition rtrim :: "string \<Rightarrow> string" where
  "rtrim s = rev (dropWhile isspace (rev s))"

text \<open>\<open>AddHeader(start, colon, end)\<close>: \<open>line\<close> is the text from \<open>start\<close> to \<open>end\<close>, \<open>colon\<close> an offset into it.\<close>

definition AddHeader :: "string \<Rightarrow> nat \<Rightarrow> http_request \<Rightarrow> http_request" where
  "AddHeader line colon r =
     (let field = take colon line;
          value = rtrim (dropWhile isspace (drop (Suc colon) line))
      in r\<lparr>req_headers := (req_headers r)(field \<mapsto> value)\<rparr>)"

definition GetHeader :: "string \<Rightarrow> http_request \<Rightarrow> string" where
  "GetHeader field r = (case req_headers r field of Some v \<Rightarrow> v | None \<Rightarrow> [])"

definition HttpRequest_swap :: "http_request \<Rightarrow> http_request \<Rightarrow> http_request \<times> http_request" where
  "HttpRequest_swap self rhs =
     (self\<lparr>req_method := req_method rhs, req_version := req_version rhs, req_path := req_path rhs,
        req_query := req_query rhs, req_receive_time := req_receive_time rhs, req_headers := req_headers rhs\<rparr>,
      rhs\<lparr>req_method := req_method self, req_version := req_version self, req_path := req_path self,
        req_query := req_query self, req_receive_time := req_receive_time self, req_headers := req_headers self\<rparr>)"

text \<open>A value that neither starts nor ends with white space passes both trimming loops unchanged.\<close>

definition trimmed :: "string \<Rightarrow> bool" where
  "trimmed v \<longleftrightarrow> v = [] \<or> \<not> isspace (hd v) \<and> \<not> isspace (last v)"

section \<open>Lemmas\<close>

lemma method_of_MethodString: "req_method r \<noteq> kInvalid \<Longrightarrow> method_of (MethodString r) = req_method r"
  by (cases "req_method r") (simp_all add: method_of_def MethodString_def)

lemma HttpRequest_swap_eq: "HttpRequest_swap a b = (b, a)"
  by (simp add: HttpRequest_swap_def)

lemma dropWhile_hd: "v = [] \<or> \<not> P (hd v) \<Longrightarrow> dropWhile P v = v"
  by (cases v) auto

lemma trim_trimmed: "trimmed v \<Longrightarrow> rtrim (dropWhile isspace v) = v"
  by (auto simp: trimmed_def rtrim_def dropWhile_hd hd_rev)

lemma trim_blank_trimmed: "trimmed v \<Longrightarrow> rtrim (dropWhile isspace (CHR '' '' # v)) = v"
  by (simp add: trim_trimmed isspace_def)

lemma rtrim_dropWhile_trimmed: "trimmed (rtrim (dropWhile isspace s))"
proof -
  let ?d = "dropWhile isspace s" and ?t = "rtrim (dropWhile isspace s)"
  have "\<not> isspace (last ?t)" if "?t \<noteq> []"
    using that hd_dropWhile [of isspace "rev ?d"] by (simp add: rtrim_def last_rev)
  moreover have "\<not> isspace (hd ?t)" if "?t \<noteq> []"
  proof -
    obtain ws where "?d = ?t @ ws"
      by (metis rtrim_def rev_append rev_rev_ident takeWhile_dropWhile_id)
    with that have "hd ?t = hd ?d" and "?d \<noteq> []"
      by (metis hd_append2, metis append_is_Nil_conv)
    then show ?thesis using hd_dropWhile [of isspace s] by simp
  qed
  ultimately show ?thesis by (auto simp: trimmed_def)
qed

lemma GetHeader_AddHeader:
  "GetHeader g (AddHeader (f @ '':'' @ v) (length f) r)
       = (if g = f then rtrim (dropWhile isspace v) else GetHeader g r)"
  by (simp add: GetHeader_def AddHeader_def Let_def)

end
