(* ===== verification/Endian.thy ===== *)
theory Endian
  imports Net_Prelude
begin

text \<open>
  \<open>net/endian.h\<close>: the conversions between host and network byte order, and the object
  representation of an integer (the bytes \<open>memcpy\<close> moves) on the little-endian hosts the
  library is built for. Fixed-width integers are words; \<open>int64_t\<close> and \<open>uint64_t\<close> share
  their bits. The lemmas show that the two conversions are inverse to each other and that the
  object representation of a converted integer is its big-endian byte string.
\<close>

section \<open>Object representation\<close>

fun le_bytes :: "nat \<Rightarrow> nat \<Rightarrow> string" where
  "le_bytes 0 x = []"
| "le_bytes (Suc n) x = char_of x # le_bytes n (x div 256)"

fun le_value :: "string \<Rightarrow> nat" where
  "le_value [] = 0"
| "le_value (c # cs) = of_char c + 256 * le_value cs"

text \<open>The big-endian byte string of a number: the most significant byte first.\<close>

definition be_bytes :: "nat \<Rightarrow> nat \<Rightarrow> string" where
  "be_bytes n x = map (\<lambda>i. char_of (x div 256 ^ (n - 1 - i))) [0..<n]"

text \<open>\<open>htobe64\<close> and its siblings on a little-endian host reverse the bytes.\<close>

definition byte_swap :: "nat \<Rightarrow> nat \<Rightarrow> nat" where
  "byte_swap n x = le_value (rev (le_bytes n x))"

section \<open>The six conversions\<close>

definition HostToNetwork64 :: "64 word \<Rightarrow> 64 word" where
  "HostToNetwork64 host64 = of_nat (byte_swap 8 (unat host64))"

definition HostToNetwork32 :: "32 word \<Rightarrow> 32 word" where
  "HostToNetwork32 host32 = of_nat (byte_swap 4 (unat host32))"

definition HostToNetwork16 :: "16 word \<Rightarrow> 16 word" where
  "HostToNetwork16 host16 = of_nat (byte_swap 2 (unat host16))"

definition NetworkToHost64 :: "64 word \<Rightarrow> 64 word" where
  "NetworkToHost64 net64 = of_nat (byte_swap 8 (unat net64))"

definition NetworkToHost32 :: "32 word \<Rightarrow> 32 word" where
  "NetworkToHost32 net32 = of_nat (byte_swap 4 (unat net32))"

definition NetworkToHost16 :: "16 word \<Rightarrow> 16 word" where
  "NetworkToHost16 net16 = of_nat (byte_swap 2 (unat net16))"

section \<open>Lemmas\<close>

lemma length_le_bytes [simp]: "length (le_bytes n x) = n"
  by (induction n arbitrary: x) auto

lemma length_be_bytes [simp]: "length (be_bytes n x) = n"
  by (simp add: be_bytes_def)

lemma le_value_bound: "le_value cs < 256 ^ length cs"
proof (induction cs)
  case Nil
  then show ?case by simp
next
  case (Cons c cs)
  have "of_char c + 256 * le_value cs < 256 * Suc (le_value cs)"
    using nat_of_char_less_256 [of c] by (simp del: nat_of_char_less_256)
  also from Cons have "\<dots> \<le> 256 * 256 ^ length cs"
    by (intro mult_le_mono2) simp
  finally show ?case by simp
qed

lemma le_bytes_le_value [simp]: "le_bytes (length cs) (le_value cs) = cs"
proof (induction cs)
  case Nil
  then show ?case by simp
next
  case (Cons c cs)
  have c: "(of_char c :: nat) < 256" by simp
  have "char_of ((of_char c :: nat) + 256 * le_value cs) = c"
    using c by (metis add.commute char_of_char char_of_mod_256 mod_less mod_mult_self4)
  moreover have "(of_char c + 256 * le_value cs) div 256 = le_value cs"
    using c by simp
  ultimately show ?case using Cons by simp
qed

lemma le_value_le_bytes: "le_value (le_bytes n x) = x mod 256 ^ n"
proof (induction n arbitrary: x)
  case 0
  then show ?case by simp
next
  case (Suc n)
  have "(of_char (char_of x :: char) :: nat) = x mod 256" by simp
  then show ?case by (simp add: Suc mod_mult2_eq)
qed

lemma rev_le_bytes: "rev (le_bytes n x) = be_bytes n x"
proof (induction n arbitrary: x)
  case 0
  then show ?case by (simp add: be_bytes_def)
next
  case (Suc n)
  have step: "x div 256 div 256 ^ (n - 1 - i) = x div 256 ^ (n - i)" if "i < n" for i
  proof -
    from that obtain k where "n - i = Suc k" and "n - 1 - i = k"
      by (metis Suc_diff_Suc diff_Suc_1 diff_commute)
    then show ?thesis by (simp add: div_mult2_eq)
  qed
  have "be_bytes (Suc n) x = map (\<lambda>i. char_of (x div 256 ^ (n - i))) [0..<n] @ [char_of x]"
    by (simp add: be_bytes_def)
  also have "map (\<lambda>i. char_of (x div 256 ^ (n - i))) [0..<n] = be_bytes n (x div 256)"
    unfolding be_bytes_def by (rule map_cong) (simp_all only: set_upt atLeastLessThan_iff step)
  finally show ?case by (simp add: Suc)
qed

lemma byte_swap_bound: "byte_swap n x < 256 ^ n"
  using le_value_bound [of "rev (le_bytes n x)"] by (simp add: byte_swap_def)

lemma byte_swap_byte_swap: "x < 256 ^ n \<Longrightarrow> byte_swap n (byte_swap n x) = x"
proof -
  assume "x < 256 ^ n"
  have "le_bytes n (byte_swap n x) = rev (le_bytes n x)"
    using le_bytes_le_value [of "rev (le_bytes n x)"] by (simp add: byte_swap_def)
  then show ?thesis
    using \<open>x < 256 ^ n\<close> by (simp add: byte_swap_def [of n "byte_swap n x"] le_value_le_bytes)
qed

lemma le_bytes_byte_swap: "le_bytes n (byte_swap n x) = be_bytes n x"
  using le_bytes_le_value [of "rev (le_bytes n x)"] by (simp add: byte_swap_def rev_le_bytes)

text \<open>What a converted word looks like in memory, and that converting back restores it.\<close>

lemma unat_HostToNetwork:
  "unat (HostToNetwork64 x) = byte_swap 8 (unat x)"
  "unat (HostToNetwork32 y) = byte_swap 4 (unat y)"
  "unat (HostToNetwork16 z) = byte_swap 2 (unat z)"
  using byte_swap_bound [of 8 "unat x"] byte_swap_bound [of 4 "unat y"] byte_swap_bound [of 2 "unat z"]
  by (simp_all add: HostToNetwork64_def HostToNetwork32_def HostToNetwork16_def
      unat_of_nat take_bit_nat_eq_self)

lemma unat_less_256_power:
  "unat (x :: 64 word) < 256 ^ 8" "unat (y :: 32 word) < 256 ^ 4" "unat (z :: 16 word) < 256 ^ 2"
  using unsigned_less [of x, where ?'a = nat] unsigned_less [of y, where ?'a = nat]
    unsigned_less [of z, where ?'a = nat]
  by simp_all

lemma NetworkToHost_HostToNetwork [simp]:
  "NetworkToHost64 (HostToNetwork64 x) = x"
  "NetworkToHost32 (HostToNetwork32 y) = y"
  "NetworkToHost16 (HostToNetwork16 z) = z"
  by (simp_all only: NetworkToHost64_def NetworkToHost32_def NetworkToHost16_def unat_HostToNetwork
      byte_swap_byte_swap [OF unat_less_256_power(1)] byte_swap_byte_swap [OF unat_less_256_power(2)]
      byte_swap_byte_swap [OF unat_less_256_power(3)] of_nat_unat ucast_id)

lemma of_nat_le_value_le_bytes:
  "of_nat (le_value (le_bytes 8 (unat x))) = (x :: 64 word)"
  "of_nat (le_value (le_bytes 4 (unat y))) = (y :: 32 word)"
  "of_nat (le_value (le_bytes 2 (unat z))) = (z :: 16 word)"
  by (simp_all only: le_value_le_bytes mod_less [OF unat_less_256_power(1)]
      mod_less [OF unat_less_256_power(2)] mod_less [OF unat_less_256_power(3)] of_nat_unat ucast_id)

end
