(* ===== verification/Buffer.thy ===== *)
theory Buffer
  imports Endian
begin

text \<open>
  \<open>buffer/buffer.h\<close> and \<open>buffer/buffer.cc\<close>: the growable byte queue every connection reads
  into and writes from. The record has the three members of \<open>class Buffer\<close>; a pointer into the
  vector is its offset from \<open>Begin()\<close>. Operations that can leave the vector, fail an
  \<open>assert\<close> or make the vector throw return a result. \<open>MakeSpace\<close> keeps the \<open>int\<close> parameter
  of the source, so the narrowing of a \<open>size_t\<close> length is part of the model.

  The abstract view of a buffer is its readable bytes, \<open>content\<close>. The locale \<open>byte_queue\<close> is the
  contract the clients (HTTP responses, connections) rely on; the interpretation \<open>bq\<close> at the
  end shows that the buffer meets it.
\<close>

section \<open>State\<close>

record buffer =
  buf_bytes :: string
  reader_index :: nat
  writer_index :: nat

definition kCheapPrepend :: nat where "kCheapPrepend = 8"
definition kInitialSize :: nat where "kInitialSize = 1024"

definition kCRLF :: string where "kCRLF = [CHR 0x0D, CHR 0x0A]"

text \<open>\<open>std::vector<char>::max_size()\<close>: a longer vector makes \<open>resize\<close> throw.\<close>

definition vec_max :: nat where "vec_max = 2 ^ 63 - 1"

definition NUL :: char where "NUL = CHR 0x00"

definition Buffer_ctor :: "nat \<Rightarrow> buffer result" where
  "Buffer_ctor initialSize =
     (if size_add kCheapPrepend initialSize > vec_max then Inl Length_error
      else Inr \<lparr>buf_bytes = replicate (size_add kCheapPrepend initialSize) NUL,
                reader_index = kCheapPrepend, writer_index = kCheapPrepend\<rparr>)"

definition default_buffer :: buffer where
  "default_buffer = \<lparr>buf_bytes = replicate (kCheapPrepend + kInitialSize) NUL,
     reader_index = kCheapPrepend, writer_index = kCheapPrepend\<rparr>"

definition Buffer_Swap :: "buffer \<Rightarrow> buffer \<Rightarrow> buffer \<times> buffer" where
  "Buffer_Swap self rhs =
     (self\<lparr>buf_bytes := buf_bytes rhs, reader_index := reader_index rhs, writer_index := writer_index rhs\<rparr>,
      rhs\<lparr>buf_bytes := buf_bytes self, reader_index := reader_index self, writer_index := writer_index self\<rparr>)"

section \<open>Observers\<close>

definition ReadableBytes :: "buffer \<Rightarrow> nat" where
  "ReadableBytes b = size_sub (writer_index b) (reader_index b)"

definition WritableBytes :: "buffer \<Rightarrow> nat" where
  "WritableBytes b = size_sub (length (buf_bytes b)) (writer_index b)"

definition PrependableBytes :: "buffer \<Rightarrow> nat" where
  "PrependableBytes b = reader_index b"

text \<open>The bytes between \<open>Peek()\<close> and \<open>BeginWrite()\<close>.\<close>

definition content :: "buffer \<Rightarrow> string" where
  "content b = slice (buf_bytes b) (reader_index b) (writer_index b)"

definition FindCRLF :: "buffer \<Rightarrow> nat option" where
  "FindCRLF b = map_option (\<lambda>k. reader_index b + k) (std_search kCRLF (content b))"

definition FindCRLF_from :: "nat \<Rightarrow> buffer \<Rightarrow> nat option result" where
  "FindCRLF_from start b =
     assertr (reader_index b \<le> start) (assertr (start \<le> writer_index b)
       (Inr (map_option (\<lambda>k. start + k)
          (std_search kCRLF (slice (buf_bytes b) start (writer_index b))))))"

definition FindEOL :: "buffer \<Rightarrow> nat option" where
  "FindEOL b = map_option (\<lambda>k. reader_index b + k) (mem_chr (CHR 0x0A) (content b))"

definition FindEOL_from :: "nat \<Rightarrow> buffer \<Rightarrow> nat option result" where
  "FindEOL_from start b =
     assertr (reader_index b \<le> start) (assertr (start \<le> writer_index b)
       (Inr (map_option (\<lambda>k. start + k)
          (mem_chr (CHR 0x0A) (slice (buf_bytes b) start (writer_index b))))))"

definition ContentToString :: "buffer \<Rightarrow> string" where
  "ContentToString b = take (ReadableBytes b) (drop (reader_index b) (buf_bytes b))"

section \<open>Consuming\<close>

definition RetrieveAll :: "buffer \<Rightarrow> buffer" where
  "RetrieveAll b = b\<lparr>reader_index := kCheapPrepend, writer_index := kCheapPrepend\<rparr>"

definition Retrieve :: "nat \<Rightarrow> buffer \<Rightarrow> buffer" where
  "Retrieve len b =
     (if len < ReadableBytes b then b\<lparr>reader_index := size_add (reader_index b) len\<rparr>
      else RetrieveAll b)"

text \<open>\<open>end - Peek()\<close> is a pointer difference, converted to \<open>size_t\<close> by the call.\<close>

definition RetrieveUntil :: "nat \<Rightarrow> buffer \<Rightarrow> buffer" where
  "RetrieveUntil end_ptr b = Retrieve (size_of_int (int end_ptr - int (reader_index b))) b"

definition RetrieveInt64 :: "buffer \<Rightarrow> buffer" where "RetrieveInt64 b = Retrieve 8 b"
definition RetrieveInt32 :: "buffer \<Rightarrow> buffer" where "RetrieveInt32 b = Retrieve 4 b"
definition RetrieveInt16 :: "buffer \<Rightarrow> buffer" where "RetrieveInt16 b = Retrieve 2 b"
definition RetrieveInt8 :: "buffer \<Rightarrow> buffer" where "RetrieveInt8 b = Retrieve 1 b"

text \<open>\<open>std::string(Peek(), len)\<close> reads \<open>len\<close> bytes whatever is readable; past the vector is an error.\<close>

definition RetrieveAsString :: "nat \<Rightarrow> buffer \<Rightarrow> (string \<times> buffer) result" where
  "RetrieveAsString len b =
     (if reader_index b + len \<le> length (buf_bytes b)
      then Inr (take len (drop (reader_index b) (buf_bytes b)), Retrieve len b)
      else Inl Out_of_bounds)"

definition RetrieveAllAsString :: "buffer \<Rightarrow> (string \<times> buffer) result" where
  "RetrieveAllAsString b = RetrieveAsString (ReadableBytes b) b"

section \<open>Producing\<close>

definition MakeSpace :: "int \<Rightarrow> buffer \<Rightarrow> buffer result" where
  "MakeSpace len b =
     (if size_add (WritableBytes b) (PrependableBytes b) < size_add (size_of_int len) kCheapPrepend
      then (let n = size_add (writer_index b) (size_of_int len)
            in if n > vec_max then Inl Length_error
               else Inr (b\<lparr>buf_bytes := vec_resize n NUL (buf_bytes b)\<rparr>))
      else (let readable = ReadableBytes b
            in if reader_index b \<le> kCheapPrepend \<and> kCheapPrepend < writer_index b
               then Inl Overlapping_copy
               else if kCheapPrepend + readable > length (buf_bytes b) then Inl Out_of_bounds
               else Inr (b\<lparr>buf_bytes := overwrite (buf_bytes b) kCheapPrepend (content b),
                           reader_index := kCheapPrepend,
                           writer_index := size_add kCheapPrepend readable\<rparr>)))"

definition EnsureWritableBytes :: "nat \<Rightarrow> buffer \<Rightarrow> buffer result" where
  "EnsureWritableBytes len b =
     (if WritableBytes b < len then MakeSpace (int_of_size len) b else Inr b)"

definition Append :: "string \<Rightarrow> buffer \<Rightarrow> buffer result" where
  "Append data b =
     bindr (EnsureWritableBytes (length data) b) (\<lambda>b.
       if writer_index b + length data > length (buf_bytes b) then Inl Out_of_bounds
       else Inr (b\<lparr>buf_bytes := overwrite (buf_bytes b) (writer_index b) data,
                   writer_index := size_add (writer_index b) (length data)\<rparr>))"

definition AppendInt64 :: "64 word \<Rightarrow> buffer \<Rightarrow> buffer result" where
  "AppendInt64 x b = Append (le_bytes 8 (unat (HostToNetwork64 x))) b"

definition AppendInt32 :: "32 word \<Rightarrow> buffer \<Rightarrow> buffer result" where
  "AppendInt32 x b = Append (le_bytes 4 (unat (HostToNetwork32 x))) b"

definition AppendInt16 :: "16 word \<Rightarrow> buffer \<Rightarrow> buffer result" where
  "AppendInt16 x b = Append (le_bytes 2 (unat (HostToNetwork16 x))) b"

definition AppendInt8 :: "8 word \<Rightarrow> buffer \<Rightarrow> buffer result" where
  "AppendInt8 x b = Append (le_bytes 1 (unat x)) b"

definition Prepend :: "string \<Rightarrow> buffer \<Rightarrow> buffer result" where
  "Prepend data b =
     assertr (length data \<le> PrependableBytes b)
       (let r = size_sub (reader_index b) (length data)
        in if r + length data > length (buf_bytes b) then Inl Out_of_bounds
           else Inr (b\<lparr>reader_index := r, buf_bytes := overwrite (buf_bytes b) r data\<rparr>))"

definition PrependInt64 :: "64 word \<Rightarrow> buffer \<Rightarrow> buffer result" where
  "PrependInt64 x b = Prepend (le_bytes 8 (unat (HostToNetwork64 x))) b"

definition PrependInt32 :: "32 word \<Rightarrow> buffer \<Rightarrow> buffer result" where
  "PrependInt32 x b = Prepend (le_bytes 4 (unat (HostToNetwork32 x))) b"

definition PrependInt16 :: "16 word \<Rightarrow> buffer \<Rightarrow> buffer result" where
  "PrependInt16 x b = Prepend (le_bytes 2 (unat (HostToNetwork16 x))) b"

definition PrependInt8 :: "8 word \<Rightarrow> buffer \<Rightarrow> buffer result" where
  "PrependInt8 x b = Prepend (le_bytes 1 (unat x)) b"

section \<open>Reading integers\<close>

definition peek_bytes :: "nat \<Rightarrow> buffer \<Rightarrow> string result" where
  "peek_bytes n b =
     assertr (ReadableBytes b \<ge> n)
       (if reader_index b + n > length (buf_bytes b) then Inl Out_of_bounds
        else Inr (take n (drop (reader_index b) (buf_bytes b))))"

definition PeekInt64 :: "buffer \<Rightarrow> 64 word result" where
  "PeekInt64 b = bindr (peek_bytes 8 b) (\<lambda>cs. Inr (NetworkToHost64 (of_nat (le_value cs))))"

definition PeekInt32 :: "buffer \<Rightarrow> 32 word result" where
  "PeekInt32 b = bindr (peek_bytes 4 b) (\<lambda>cs. Inr (NetworkToHost32 (of_nat (le_value cs))))"

definition PeekInt16 :: "buffer \<Rightarrow> 16 word result" where
  "PeekInt16 b = bindr (peek_bytes 2 b) (\<lambda>cs. Inr (NetworkToHost16 (of_nat (le_value cs))))"

definition PeekInt8 :: "buffer \<Rightarrow> 8 word result" where
  "PeekInt8 b = bindr (peek_bytes 1 b) (\<lambda>cs. Inr (of_nat (le_value cs)))"

definition ReadInt64 :: "buffer \<Rightarrow> (64 word \<times> buffer) result" where
  "ReadInt64 b = bindr (PeekInt64 b) (\<lambda>x. Inr (x, RetrieveInt64 b))"

definition ReadInt32 :: "buffer \<Rightarrow> (32 word \<times> buffer) result" where
  "ReadInt32 b = bindr (PeekInt32 b) (\<lambda>x. Inr (x, RetrieveInt32 b))"

definition ReadInt16 :: "buffer \<Rightarrow> (16 word \<times> buffer) result" where
  "ReadInt16 b = bindr (PeekInt16 b) (\<lambda>x. Inr (x, RetrieveInt16 b))"

definition ReadInt8 :: "buffer \<Rightarrow> (8 word \<times> buffer) result" where
  "ReadInt8 b = bindr (PeekInt8 b) (\<lambda>x. Inr (x, RetrieveInt8 b))"

section \<open>Shrinking and the socket\<close>

definition Shrink :: "nat \<Rightarrow> buffer \<Rightarrow> buffer result" where
  "Shrink reserve b =
     bindr (EnsureWritableBytes (size_add (ReadableBytes b) reserve) default_buffer) (\<lambda>other.
     bindr (Append (ContentToString b) other) (\<lambda>other.
       Inr (fst (Buffer_Swap b other))))"

text \<open>
  \<open>readv\<close> is the kernel's: given the lengths of the one or two areas it fills, it returns an
  error number or the bytes it stored. \<open>ReadFd\<close> returns the new buffer, the result \<open>n\<close> and
  the saved error number.
\<close>

definition extrabuf_size :: nat where "extrabuf_size = 65536"

definition ReadFd :: "(nat list \<Rightarrow> int + string) \<Rightarrow> buffer \<Rightarrow> (buffer \<times> int \<times> int option) result" where
  "ReadFd readv b =
     (let writable = WritableBytes b;
          vec = (if writable < extrabuf_size then [writable, extrabuf_size] else [writable])
      in case readv vec of
           Inl err \<Rightarrow> Inr (b, -1, Some err)
         | Inr ds \<Rightarrow>
             if length ds \<le> writable
             then Inr (b\<lparr>buf_bytes := overwrite (buf_bytes b) (writer_index b) ds,
                         writer_index := size_add (writer_index b) (length ds)\<rparr>, int (length ds), None)
             else bindr (Append (drop writable ds)
                    (b\<lparr>buf_bytes := overwrite (buf_bytes b) (writer_index b) (take writable ds),
                       writer_index := length (buf_bytes b)\<rparr>))
                    (\<lambda>b. Inr (b, int (length ds), None)))"

text \<open>\<open>write\<close> is the kernel's: it gets the readable bytes and returns an error number or how many it took.\<close>

definition WriteFd :: "(string \<Rightarrow> int + nat) \<Rightarrow> buffer \<Rightarrow> int \<times> int option" where
  "WriteFd write b =
     (case write (ContentToString b) of Inl err \<Rightarrow> (-1, Some err) | Inr n \<Rightarrow> (int n, None))"

section \<open>Invariant and abstraction\<close>

definition buffer_inv :: "buffer \<Rightarrow> bool" where
  "buffer_inv b \<longleftrightarrow> reader_index b \<le> writer_index b \<and> writer_index b \<le> length (buf_bytes b)
     \<and> kCheapPrepend \<le> length (buf_bytes b) \<and> length (buf_bytes b) \<le> vec_max"

text \<open>A length the code can append: it fits an \<open>int\<close> and the vector cannot reach its limit.\<close>

definition room :: "buffer \<Rightarrow> nat \<Rightarrow> bool" where
  "room b n \<longleftrightarrow> n < 2 ^ 31 \<and> length (buf_bytes b) + n \<le> vec_max"

locale byte_queue =
  fixes cont :: "'b \<Rightarrow> string"
    and inv :: "'b \<Rightarrow> bool"
    and fits :: "'b \<Rightarrow> nat \<Rightarrow> bool"
    and push :: "string \<Rightarrow> 'b \<Rightarrow> 'b result"
    and consume :: "nat \<Rightarrow> 'b \<Rightarrow> 'b"
  assumes push_ok: "inv b \<Longrightarrow> fits b (length d) \<Longrightarrow> \<exists>b'. push d b = Inr b' \<and> inv b' \<and> cont b' = cont b @ d"
    and push_fits: "inv b \<Longrightarrow> fits b (length d + n) \<Longrightarrow> push d b = Inr b' \<Longrightarrow> fits b' n"
    and fits_mono: "fits b n \<Longrightarrow> m \<le> n \<Longrightarrow> fits b m"
    and consume_inv: "inv b \<Longrightarrow> inv (consume n b)"
    and consume_cont: "inv b \<Longrightarrow> cont (consume n b) = drop n (cont b)"
    and consume_fits: "fits b n \<Longrightarrow> fits (consume m b) n"
begin

lemma push_cont: "inv b \<Longrightarrow> fits b (length d) \<Longrightarrow> push d b = Inr b' \<Longrightarrow> inv b' \<and> cont b' = cont b @ d"
  using push_ok by fastforce

text \<open>A sequence of appends stores the concatenation.\<close>

lemma push_all:
  "inv b \<Longrightarrow> fits b (length (concat ds)) \<Longrightarrow>
   \<exists>b'. foldr_result (\<lambda>b d. push d b) b ds = Inr b' \<and> inv b' \<and> cont b' = cont b @ concat ds"
proof (induction ds arbitrary: b)
  case Nil
  then show ?case by simp
next
  case (Cons d ds)
  then have f: "fits b (length d + length (concat ds))" by simp
  with Cons.prems obtain b1 where b1: "push d b = Inr b1" "inv b1" "cont b1 = cont b @ d"
    using push_ok [of b d] fits_mono [of b _ "length d"] by force
  have "fits b1 (length (concat ds))"
    using push_fits [OF Cons.prems(1) f b1(1)] .
  with Cons.IH [OF b1(2)] b1 show ?case by auto
qed

text \<open>What is pushed comes out first-in first-out: consuming what was there leaves what was pushed.\<close>

lemma push_consume:
  assumes "inv b" and "fits b (length d)" and "push d b = Inr b'"
  shows "cont (consume (length (cont b)) b') = d"
  using push_cont [OF assms] consume_cont by simp

end

text \<open>Runs of operations, on the buffer and on the abstract byte queue.\<close>

datatype buffer_op =
    Op_Append string
  | Op_Retrieve nat
  | Op_RetrieveAll
  | Op_EnsureWritableBytes nat

fun buffer_step :: "buffer \<Rightarrow> buffer_op \<Rightarrow> buffer result" where
  "buffer_step b (Op_Append d) = Append d b"
| "buffer_step b (Op_Retrieve n) = Inr (Retrieve n b)"
| "buffer_step b Op_RetrieveAll = Inr (RetrieveAll b)"
| "buffer_step b (Op_EnsureWritableBytes n) = EnsureWritableBytes n b"

fun queue_step :: "string \<Rightarrow> buffer_op \<Rightarrow> string" where
  "queue_step q (Op_Append d) = q @ d"
| "queue_step q (Op_Retrieve n) = drop n q"
| "queue_step q Op_RetrieveAll = []"
| "queue_step q (Op_EnsureWritableBytes n) = q"

fun op_growth :: "buffer_op \<Rightarrow> nat" where
  "op_growth (Op_Append d) = length d"
| "op_growth (Op_EnsureWritableBytes n) = n"
| "op_growth _ = 0"

text \<open>A kernel that delivers one request line, for the examples.\<close>

definition example_readv :: "nat list \<Rightarrow> int + string" where
  "example_readv vec = Inr (take (sum_list vec) ''GET / HTTP/1.1'')"

text \<open>A buffer with the given readable bytes, for the examples of the client theories.\<close>

definition buffer_of :: "string \<Rightarrow> buffer" where
  "buffer_of s = \<lparr>buf_bytes = replicate kCheapPrepend NUL @ s, reader_index = kCheapPrepend,
     writer_index = kCheapPrepend + length s\<rparr>"

section \<open>Lemmas\<close>

lemmas buffer_consts [simp] = kCheapPrepend_def kInitialSize_def

lemma buffer_inv_bounds:
  assumes "buffer_inv b"
  shows "length (buf_bytes b) < 2 ^ 63" and "writer_index b < 2 ^ 63" and "reader_index b < 2 ^ 63"
  using assms by (auto simp: buffer_inv_def vec_max_def)

lemma buffer_sizes [net_simps]:
  assumes "buffer_inv b"
  shows "ReadableBytes b = writer_index b - reader_index b"
    and "WritableBytes b = length (buf_bytes b) - writer_index b"
  using assms buffer_inv_bounds [OF assms]
  by (auto simp: ReadableBytes_def WritableBytes_def buffer_inv_def net_simps)

lemma length_content: "buffer_inv b \<Longrightarrow> length (content b) = ReadableBytes b"
  by (simp add: content_def net_simps) (simp add: buffer_inv_def)

lemma ContentToString_content: "buffer_inv b \<Longrightarrow> ContentToString b = content b"
  by (simp add: ContentToString_def content_def slice_def net_simps)

lemma default_buffer_inv [simp]: "buffer_inv default_buffer" and default_buffer_content [simp]: "content default_buffer = []"
  by (simp_all add: buffer_inv_def default_buffer_def vec_max_def content_def)

lemma content_buffer_of [simp]: "content (buffer_of s) = s"
  by (simp add: content_def buffer_of_def slice_def)

lemma buffer_inv_buffer_of: "length s < 2 ^ 62 \<Longrightarrow> buffer_inv (buffer_of s)"
  by (simp add: buffer_inv_def buffer_of_def vec_max_def)

lemma length_kCRLF [simp]: "length kCRLF = 2"
  by (simp add: kCRLF_def)

lemma default_buffer_sizes:
  "WritableBytes default_buffer = 1024" "PrependableBytes default_buffer = 8"
  "ReadableBytes default_buffer = 0" "writer_index default_buffer = 8" "reader_index default_buffer = 8"
  "length (buf_bytes default_buffer) = 1032"
  by (simp_all add: buffer_sizes PrependableBytes_def) (simp_all add: default_buffer_def)

lemma room_default_buffer [simp]: "room default_buffer n \<longleftrightarrow> n < 2 ^ 31"
  by (auto simp: room_def default_buffer_def vec_max_def)

lemma Buffer_ctor_default: "Buffer_ctor kInitialSize = Inr default_buffer"
  by (simp add: Buffer_ctor_def default_buffer_def size_add_def vec_max_def)

lemma RetrieveAll_inv: "buffer_inv b \<Longrightarrow> buffer_inv (RetrieveAll b)"
  by (simp add: buffer_inv_def RetrieveAll_def)

lemma RetrieveAll_content [simp]: "content (RetrieveAll b) = []"
  by (simp add: content_def RetrieveAll_def)

lemma Retrieve_inv: "buffer_inv b \<Longrightarrow> buffer_inv (Retrieve n b)"
  using buffer_inv_bounds [of b]
  by (simp add: Retrieve_def RetrieveAll_inv net_simps) (auto simp: buffer_inv_def net_simps)

lemma Retrieve_content:
  assumes "buffer_inv b"
  shows "content (Retrieve n b) = drop n (content b)"
proof (cases "n < ReadableBytes b")
  case True
  with assms have "reader_index b + n < 2 ^ 64"
    using buffer_inv_bounds [OF assms] by (simp add: net_simps)
  with True show ?thesis
    by (simp add: Retrieve_def content_def drop_slice net_simps)
next
  case False
  with assms show ?thesis
    using length_content [OF assms] by (simp add: Retrieve_def)
qed

lemma buf_bytes_Retrieve [simp]: "buf_bytes (Retrieve n b) = buf_bytes b"
  by (simp add: Retrieve_def RetrieveAll_def)

lemma RetrieveAllAsString_ok:
  assumes "buffer_inv b"
  shows "\<exists>b'. RetrieveAllAsString b = Inr (content b, b') \<and> content b' = []"
proof -
  have "reader_index b + ReadableBytes b = writer_index b" "writer_index b \<le> length (buf_bytes b)" "reader_index b \<le> writer_index b"
    using assms buffer_inv_bounds [OF assms] by (auto simp: net_simps buffer_inv_def)
  moreover have "content (Retrieve (ReadableBytes b) b) = []"
    using assms length_content [OF assms] by (simp add: Retrieve_content)
  ultimately show ?thesis
    using length_content [OF assms] by (auto simp: RetrieveAllAsString_def RetrieveAsString_def content_def slice_def)
qed

text \<open>Making space keeps the readable bytes; the new size is what the caller asked for at most.\<close>

lemma MakeSpace_ok:
  assumes inv: "buffer_inv b" and lt: "WritableBytes b < len" and room: "room b len"
  shows "\<exists>b'. MakeSpace (int len) b = Inr b' \<and> buffer_inv b' \<and> content b' = content b
    \<and> len \<le> WritableBytes b' \<and> length (buf_bytes b') \<le> length (buf_bytes b) + len"
proof -
  note bounds = buffer_inv_bounds [OF inv]
  have w: "reader_index b \<le> writer_index b" "writer_index b \<le> length (buf_bytes b)" "8 \<le> length (buf_bytes b)"
    using inv by (simp_all add: buffer_inv_def)
  have len: "len < 2 ^ 31" "length (buf_bytes b) + len \<le> vec_max"
    using room by (simp_all add: room_def)
  have sz: "size_of_int (int len) = len" "size_add len 8 = len + 8"
    "size_add (writer_index b) len = writer_index b + len"
    "size_add (WritableBytes b) (PrependableBytes b) = WritableBytes b + reader_index b"
    using len bounds w inv by (simp_all add: net_simps PrependableBytes_def)
  show ?thesis
  proof (cases "WritableBytes b + reader_index b < len + 8")
    case True
    let ?b = "b\<lparr>buf_bytes := vec_resize (writer_index b + len) NUL (buf_bytes b)\<rparr>"
    have grow: "length (buf_bytes b) \<le> writer_index b + len"
      using lt inv by (simp add: net_simps)
    have "MakeSpace (int len) b = Inr ?b"
      using True sz len w by (simp add: MakeSpace_def Let_def)
    moreover have inv': "buffer_inv ?b"
      using w len grow by (simp add: buffer_inv_def)
    moreover have "content ?b = content b"
      using grow w by (simp add: content_def slice_vec_resize)
    moreover have "len \<le> WritableBytes ?b"
      using inv' by (simp add: net_simps)
    ultimately show ?thesis using w by auto
  next
    case False
    let ?r = "ReadableBytes b"
    let ?b = "b\<lparr>buf_bytes := overwrite (buf_bytes b) 8 (content b), reader_index := 8, writer_index := 8 + ?r\<rparr>"
    have r8: "8 < reader_index b" using False lt by simp
    have fits: "8 + length (content b) \<le> length (buf_bytes b)"
      using r8 w inv by (simp add: length_content net_simps)
    have "MakeSpace (int len) b = Inr ?b"
      using False r8 fits sz bounds inv
      by (simp add: MakeSpace_def Let_def length_content net_simps)
    moreover have inv': "buffer_inv ?b"
      using fits w inv length_content [OF inv] by (simp add: buffer_inv_def)
    moreover have "content ?b = content b"
      using slice_overwrite_at [OF fits] by (simp add: content_def [of ?b] length_content [OF inv])
    moreover have "len \<le> WritableBytes ?b"
      using inv' False fits inv w by (simp add: net_simps length_content)
    ultimately show ?thesis using fits by auto
  qed
qed

lemma EnsureWritableBytes_ok:
  assumes inv: "buffer_inv b" and room: "room b len"
  shows "\<exists>b'. EnsureWritableBytes len b = Inr b' \<and> buffer_inv b' \<and> content b' = content b
    \<and> len \<le> WritableBytes b' \<and> length (buf_bytes b') \<le> length (buf_bytes b) + len"
proof (cases "WritableBytes b < len")
  case True
  then show ?thesis
    using MakeSpace_ok [OF inv True room] room by (simp add: EnsureWritableBytes_def room_def net_simps)
next
  case False
  then show ?thesis using inv by (simp add: EnsureWritableBytes_def)
qed

lemma Append_ok:
  assumes inv: "buffer_inv b" and room: "room b (length d)"
  shows "\<exists>b'. Append d b = Inr b' \<and> buffer_inv b' \<and> content b' = content b @ d
    \<and> length (buf_bytes b') \<le> length (buf_bytes b) + length d"
proof -
  obtain b1 where b1: "EnsureWritableBytes (length d) b = Inr b1" "buffer_inv b1" "content b1 = content b"
      "length d \<le> WritableBytes b1" "length (buf_bytes b1) \<le> length (buf_bytes b) + length d"
    using EnsureWritableBytes_ok [OF assms] by blast
  let ?b = "b1\<lparr>buf_bytes := overwrite (buf_bytes b1) (writer_index b1) d,
    writer_index := writer_index b1 + length d\<rparr>"
  have fit: "writer_index b1 + length d \<le> length (buf_bytes b1)"
    using b1 by (simp add: net_simps) (auto simp: buffer_inv_def)
  have "Append d b = Inr ?b"
    using b1 fit buffer_inv_bounds [OF b1(2)] by (simp add: Append_def net_simps)
  moreover have "buffer_inv ?b" using b1(2) fit by (simp add: buffer_inv_def)
  moreover have "content ?b = content b @ d"
    using b1(2,3) fit by (simp add: content_def buffer_inv_def slice_overwrite_extend)
  ultimately show ?thesis using b1(5) fit by auto
qed

interpretation bq: byte_queue content buffer_inv room Append Retrieve
proof (unfold_locales, goal_cases)
  case (1 b d)
  then show ?case using Append_ok by blast
next
  case (2 b d n b')
  then have "room b (length d)" by (simp add: room_def)
  with 2 have "length (buf_bytes b') \<le> length (buf_bytes b) + length d"
    using Append_ok [of b d] by auto
  with 2 show ?case by (simp add: room_def)
next
  case (3 b n m)
  then show ?case by (simp add: room_def)
next
  case (4 b n)
  then show ?case by (rule Retrieve_inv)
next
  case (5 b n)
  then show ?case by (rule Retrieve_content)
next
  case (6 b n m)
  then show ?case by (simp add: room_def)
qed

lemma Prepend_ok:
  assumes inv: "buffer_inv b" and fits: "length d \<le> reader_index b"
  shows "\<exists>b'. Prepend d b = Inr b' \<and> buffer_inv b' \<and> content b' = d @ content b"
proof -
  let ?r = "reader_index b - length d"
  let ?b = "b\<lparr>reader_index := ?r, buf_bytes := overwrite (buf_bytes b) ?r d\<rparr>"
  have w: "reader_index b \<le> writer_index b" "writer_index b \<le> length (buf_bytes b)"
    using inv by (simp_all add: buffer_inv_def)
  have in_range: "?r + length d \<le> length (buf_bytes b)" using w fits by simp
  have "Prepend d b = Inr ?b"
    using in_range fits buffer_inv_bounds [OF inv]
    by (simp add: Prepend_def Let_def PrependableBytes_def net_simps)
  moreover have "buffer_inv ?b"
    using inv in_range fits by (auto simp: buffer_inv_def)
  moreover have "content ?b = d @ content b"
  proof -
    let ?xs = "overwrite (buf_bytes b) ?r d"
    have "slice ?xs ?r (writer_index b) = slice ?xs ?r (?r + length d) @ slice ?xs (?r + length d) (writer_index b)"
      using w fits by (simp add: slice_append_slice)
    also have "slice ?xs ?r (?r + length d) = d"
      by (rule slice_overwrite_at [OF in_range])
    also have "slice ?xs (?r + length d) (writer_index b) = slice (buf_bytes b) (?r + length d) (writer_index b)"
      using w fits by (intro slice_overwrite_before) auto
    finally show ?thesis using fits by (simp add: content_def)
  qed
  ultimately show ?thesis by blast
qed

text \<open>Peeking reads the front of the content; each integer operation is its network byte string.\<close>

lemma peek_bytes_ok:
  assumes "buffer_inv b" and "n \<le> length (content b)"
  shows "peek_bytes n b = Inr (take n (content b))"
proof -
  have "n \<le> writer_index b - reader_index b"
    using assms by (simp add: length_content net_simps)
  then show ?thesis
    using assms by (auto simp: peek_bytes_def content_def slice_def buffer_sizes min_def buffer_inv_def)
qed

lemma peek_bytes_short:
  assumes "buffer_inv b" and "length (content b) < n"
  shows "peek_bytes n b = Inl Assert_failed"
  using assms by (simp add: peek_bytes_def length_content)

lemmas append_int_defs = AppendInt64_def AppendInt32_def AppendInt16_def AppendInt8_def
lemmas prepend_int_defs = PrependInt64_def PrependInt32_def PrependInt16_def PrependInt8_def
lemmas peek_int_defs = PeekInt64_def PeekInt32_def PeekInt16_def PeekInt8_def
lemmas read_int_defs = ReadInt64_def ReadInt32_def ReadInt16_def ReadInt8_def
lemmas retrieve_int_defs = RetrieveInt64_def RetrieveInt32_def RetrieveInt16_def RetrieveInt8_def

lemma network_bytes:
  "le_bytes 8 (unat (HostToNetwork64 x)) = be_bytes 8 (unat x)"
  "le_bytes 4 (unat (HostToNetwork32 y)) = be_bytes 4 (unat y)"
  "le_bytes 2 (unat (HostToNetwork16 z)) = be_bytes 2 (unat z)"
  by (simp_all only: unat_HostToNetwork le_bytes_byte_swap)

lemma network_value:
  "NetworkToHost64 (of_nat (le_value (be_bytes 8 (unat x)))) = x"
  "NetworkToHost32 (of_nat (le_value (be_bytes 4 (unat y)))) = y"
  "NetworkToHost16 (of_nat (le_value (be_bytes 2 (unat z)))) = z"
  by (simp_all only: network_bytes [symmetric] of_nat_le_value_le_bytes NetworkToHost_HostToNetwork)

lemma buffer_step_ok:
  assumes "buffer_inv b" and "room b (op_growth x + n)"
  shows "\<exists>b'. buffer_step b x = Inr b' \<and> buffer_inv b' \<and> content b' = queue_step (content b) x \<and> room b' n"
proof (cases x)
  case (Op_Append d)
  with assms show ?thesis
    using Append_ok [of b d] bq.fits_mono [OF assms(2)] by (fastforce simp: room_def)
next
  case (Op_EnsureWritableBytes k)
  with assms show ?thesis
    using EnsureWritableBytes_ok [of b k] by (fastforce simp: room_def)
qed (use assms in \<open>simp_all add: Retrieve_inv Retrieve_content RetrieveAll_inv room_def, simp add: RetrieveAll_def\<close>)

lemma Shrink_ok:
  assumes inv: "buffer_inv b" and small: "2 * length (content b) + reserve < 2 ^ 31"
  shows "\<exists>b'. Shrink reserve b = Inr b' \<and> buffer_inv b' \<and> content b' = content b"
proof -
  let ?n = "length (content b)"
  have "size_add (ReadableBytes b) reserve = ?n + reserve"
    using small by (simp add: length_content [OF inv, symmetric] size_add_def)
  moreover obtain b1 where "EnsureWritableBytes (?n + reserve) default_buffer = Inr b1" "buffer_inv b1"
      "content b1 = []" "length (buf_bytes b1) \<le> 1032 + (?n + reserve)"
    using EnsureWritableBytes_ok [of default_buffer "?n + reserve"] small by (auto simp: default_buffer_sizes)
  moreover from this small obtain b2 where "Append (content b) b1 = Inr b2" "buffer_inv b2" "content b2 = content b"
    using Append_ok [of b1 "content b"] by (auto simp: room_def vec_max_def)
  ultimately show ?thesis
    by (auto simp: Shrink_def Buffer_Swap_def ContentToString_content [OF inv] buffer_inv_def content_def)
qed

lemma read_int_content:
  assumes "buffer_inv b"
  shows "content b = be_bytes 8 (unat x) @ rest \<Longrightarrow>
      \<exists>b'. ReadInt64 b = Inr (x, b') \<and> buffer_inv b' \<and> content b' = rest"
    and "content b = be_bytes 4 (unat y) @ rest \<Longrightarrow>
      \<exists>b'. ReadInt32 b = Inr (y, b') \<and> buffer_inv b' \<and> content b' = rest"
    and "content b = be_bytes 2 (unat z) @ rest \<Longrightarrow>
      \<exists>b'. ReadInt16 b = Inr (z, b') \<and> buffer_inv b' \<and> content b' = rest"
    and "content b = le_bytes 1 (unat v) @ rest \<Longrightarrow>
      \<exists>b'. ReadInt8 b = Inr (v, b') \<and> buffer_inv b' \<and> content b' = rest"
  using assms unsigned_less [of v, where ?'a = nat]
  by (simp_all add: read_int_defs peek_int_defs peek_bytes_ok network_value retrieve_int_defs
      Retrieve_inv Retrieve_content del: le_bytes.simps le_value.simps)
    (simp add: le_value_le_bytes)

lemma ReadFd_data:
  assumes inv: "buffer_inv b" and data: "readv (if WritableBytes b < extrabuf_size then [WritableBytes b, extrabuf_size] else [WritableBytes b]) = Inr ds"
    and cap: "length ds \<le> WritableBytes b + (if WritableBytes b < extrabuf_size then extrabuf_size else 0)"
    and room: "room b (length ds)"
  shows "\<exists>b'. ReadFd readv b = Inr (b', int (length ds), None) \<and> buffer_inv b' \<and> content b' = content b @ ds
    \<and> length (buf_bytes b') \<le> length (buf_bytes b) + length ds"
proof (cases "length ds \<le> WritableBytes b")
  case True
  then have fit: "writer_index b + length ds \<le> length (buf_bytes b)"
    using inv by (simp add: net_simps) (auto simp: buffer_inv_def)
  let ?b = "b\<lparr>buf_bytes := overwrite (buf_bytes b) (writer_index b) ds, writer_index := writer_index b + length ds\<rparr>"
  have "ReadFd readv b = Inr (?b, int (length ds), None)"
    using True data fit buffer_inv_bounds [OF inv] by (simp add: ReadFd_def Let_def net_simps)
  moreover have "buffer_inv ?b" using inv fit by (simp add: buffer_inv_def)
  moreover have "content ?b = content b @ ds"
    using inv fit by (simp add: content_def buffer_inv_def slice_overwrite_extend)
  moreover have "length (buf_bytes ?b) = length (buf_bytes b)" using fit by (simp add: length_overwrite)
  ultimately show ?thesis by (intro exI [of _ ?b]) simp
next
  case False
  let ?w = "WritableBytes b"
  let ?b = "b\<lparr>buf_bytes := overwrite (buf_bytes b) (writer_index b) (take ?w ds), writer_index := length (buf_bytes b)\<rparr>"
  have w: "reader_index b \<le> writer_index b" "writer_index b + ?w = length (buf_bytes b)"
    using inv by (simp_all add: net_simps, auto simp: buffer_inv_def)
  have len: "length (take ?w ds) = ?w" using False by simp
  have inv': "buffer_inv ?b" using inv w len by (simp add: buffer_inv_def)
  have c: "content ?b = content b @ take ?w ds"
    using slice_overwrite_extend [of "reader_index b" "writer_index b" "take ?w ds" "buf_bytes b"] w len
    by (simp add: content_def)
  have "room ?b (length (drop ?w ds))"
    using room w len by (auto simp: room_def)
  then obtain b' where "Append (drop ?w ds) ?b = Inr b'" "buffer_inv b'" "content b' = content ?b @ drop ?w ds"
    "length (buf_bytes b') \<le> length (buf_bytes ?b) + length (drop ?w ds)"
    using Append_ok [OF inv'] by blast
  with False data c w len show ?thesis by (simp add: ReadFd_def Let_def length_overwrite)
qed

section \<open>Properties\<close>

text \<open>
  Property C1. The buffer refines the byte queue: any run of \<open>Append\<close>, \<open>Retrieve\<close>,
  \<open>RetrieveAll\<close> and \<open>EnsureWritableBytes\<close> calls on a well-formed buffer whose total growth
  fits succeeds, keeps the invariant \<open>0 <= reader <= writer <= size\<close>, and leaves exactly the bytes
  the same run leaves in an abstract first-in first-out byte queue.
\<close>
theorem buffer_run_refines_queue:
  assumes "buffer_inv b" and "room b (sum_list (map op_growth ops))"
  shows "\<exists>b'. foldr_result buffer_step b ops = Inr b' \<and> buffer_inv b'
    \<and> content b' = foldl queue_step (content b) ops"
  using assms
proof (induction ops arbitrary: b)
  case Nil
  then show ?case by simp
next
  case (Cons x ops)
  then obtain b1 where "buffer_step b x = Inr b1" "buffer_inv b1" "content b1 = queue_step (content b) x"
      "room b1 (sum_list (map op_growth ops))"
    using buffer_step_ok [of b x] by auto
  with Cons.IH [of b1] show ?case by simp
qed

theorem buffer_run_refines_queue_witness:
  "\<exists>b'. foldr_result buffer_step default_buffer [Op_Append ''hello'', Op_Retrieve 2, Op_Append ''!''] = Inr b'
    \<and> buffer_inv b' \<and> content b' = ''llo!''"
  using buffer_run_refines_queue [of default_buffer "[Op_Append ''hello'', Op_Retrieve 2, Op_Append ''!'']"]
  by simp

text \<open>
  Property C26. Integers written in network byte order are read back: appending a 64-, 32-, 16- and
  8-bit integer to a well-formed buffer with room succeeds, and after consuming what was there
  before, the four \<open>ReadInt\<close> operations return the four integers in order and leave the buffer
  empty.
\<close>
theorem append_read_int_roundtrip:
  assumes "buffer_inv b" and "room b 15"
  shows "\<exists>b1 b2 b3 b4. AppendInt64 x b = Inr b1 \<and> AppendInt32 y b1 = Inr b2 \<and> AppendInt16 z b2 = Inr b3
    \<and> AppendInt8 v b3 = Inr b4
    \<and> (\<exists>c1 c2 c3 c4. ReadInt64 (Retrieve (length (content b)) b4) = Inr (x, c1) \<and> ReadInt32 c1 = Inr (y, c2)
        \<and> ReadInt16 c2 = Inr (z, c3) \<and> ReadInt8 c3 = Inr (v, c4) \<and> content c4 = [])"
proof -
  obtain b1 where b1: "AppendInt64 x b = Inr b1" "buffer_inv b1" "content b1 = content b @ be_bytes 8 (unat x)" "room b1 7"
    using buffer_step_ok [of b "Op_Append (be_bytes 8 (unat x))" 7] assms by (auto simp: AppendInt64_def network_bytes)
  obtain b2 where b2: "AppendInt32 y b1 = Inr b2" "buffer_inv b2" "content b2 = content b1 @ be_bytes 4 (unat y)" "room b2 3"
    using buffer_step_ok [of b1 "Op_Append (be_bytes 4 (unat y))" 3] b1 by (auto simp: AppendInt32_def network_bytes)
  obtain b3 where b3: "AppendInt16 z b2 = Inr b3" "buffer_inv b3" "content b3 = content b2 @ be_bytes 2 (unat z)" "room b3 1"
    using buffer_step_ok [of b2 "Op_Append (be_bytes 2 (unat z))" 1] b2 by (auto simp: AppendInt16_def network_bytes)
  obtain b4 where b4: "AppendInt8 v b3 = Inr b4" "buffer_inv b4" "content b4 = content b3 @ le_bytes 1 (unat v)"
    using buffer_step_ok [of b3 "Op_Append (le_bytes 1 (unat v))" 0] b3 by (auto simp: AppendInt8_def)
  let ?c = "Retrieve (length (content b)) b4"
  have c: "buffer_inv ?c" "content ?c = be_bytes 8 (unat x) @ be_bytes 4 (unat y) @ be_bytes 2 (unat z) @ le_bytes 1 (unat v)"
    using b1 b2 b3 b4 by (simp_all add: Retrieve_inv Retrieve_content del: le_bytes.simps)
  obtain c1 where c1: "ReadInt64 ?c = Inr (x, c1)" "buffer_inv c1"
      "content c1 = be_bytes 4 (unat y) @ be_bytes 2 (unat z) @ le_bytes 1 (unat v)"
    using read_int_content(1) [OF c] by blast
  obtain c2 where c2: "ReadInt32 c1 = Inr (y, c2)" "buffer_inv c2" "content c2 = be_bytes 2 (unat z) @ le_bytes 1 (unat v)"
    using read_int_content(2) [OF c1(2,3)] by blast
  obtain c3 where c3: "ReadInt16 c2 = Inr (z, c3)" "buffer_inv c3" "content c3 = le_bytes 1 (unat v)"
    using read_int_content(3) [OF c2(2,3)] by blast
  obtain c4 where "ReadInt8 c3 = Inr (v, c4)" "content c4 = []"
    using read_int_content(4) [OF c3(2), of v "[]"] c3(3) by auto
  with b1 b2 b3 b4 c1 c2 c3 show ?thesis by blast
qed

theorem append_read_int_roundtrip_witness:
  "\<exists>b1 b2 b3 b4. AppendInt64 (-2) default_buffer = Inr b1 \<and> AppendInt32 7 b1 = Inr b2 \<and> AppendInt16 258 b2 = Inr b3
    \<and> AppendInt8 9 b3 = Inr b4
    \<and> (\<exists>c1 c2 c3 c4. ReadInt64 (Retrieve 0 b4) = Inr (-2, c1) \<and> ReadInt32 c1 = Inr (7, c2)
        \<and> ReadInt16 c2 = Inr (258, c3) \<and> ReadInt8 c3 = Inr (9, c4) \<and> content c4 = [])"
  using append_read_int_roundtrip [of default_buffer "-2" 7 258 9]
  by simp

text \<open>
  \<open>ReadFd\<close> appends exactly the bytes the kernel delivered, in order, whether they fit
  the writable area or spill into the stack buffer, for any \<open>readv\<close> that stores no more bytes than
  the areas it was given hold; it returns their number, and on an error it leaves the buffer
  unchanged, returns -1 and hands the error number to the caller.
\<close>
theorem ReadFd_appends_received:
  assumes "buffer_inv b"
    and "\<And>vec ds. readv vec = Inr ds \<Longrightarrow> length ds \<le> sum_list vec"
    and "\<And>vec ds. readv vec = Inr ds \<Longrightarrow> room b (length ds)"
  shows "\<exists>r. ReadFd readv b = Inr r
    \<and> (case readv (if WritableBytes b < extrabuf_size then [WritableBytes b, extrabuf_size] else [WritableBytes b]) of
         Inl e \<Rightarrow> r = (b, -1, Some e)
       | Inr ds \<Rightarrow> snd r = (int (length ds), None) \<and> buffer_inv (fst r) \<and> content (fst r) = content b @ ds)"
proof (cases "readv (if WritableBytes b < extrabuf_size then [WritableBytes b, extrabuf_size] else [WritableBytes b])")
  case (Inl e)
  then show ?thesis by (simp add: ReadFd_def Let_def)
next
  case (Inr ds)
  have "length ds \<le> WritableBytes b + (if WritableBytes b < extrabuf_size then extrabuf_size else 0)"
    using assms(2) [OF Inr] by (simp split: if_splits)
  from ReadFd_data [of b readv, OF assms(1) Inr this assms(3) [OF Inr]] Inr show ?thesis
    by auto
qed

theorem ReadFd_appends_received_witness:
  "\<exists>r. ReadFd example_readv default_buffer = Inr r \<and> snd r = (14, None) \<and> content (fst r) = ''GET / HTTP/1.1''"
proof -
  have "length ds \<le> sum_list vec" "room default_buffer (length ds)" if "example_readv vec = Inr ds" for vec ds
    using that by (auto simp: example_readv_def)
  then show ?thesis
    using ReadFd_appends_received [of default_buffer example_readv]
    by (auto simp: default_buffer_sizes extrabuf_size_def example_readv_def)
qed

text \<open>
  \<open>FindCRLF\<close> returns the position of the first carriage-return line-feed pair among the
  readable bytes, and a null pointer only when the readable bytes contain no such pair.
\<close>
theorem FindCRLF_first_occurrence:
  "case FindCRLF b of
     Some p \<Rightarrow> \<exists>k. p = reader_index b + k \<and> k + 2 \<le> length (content b) \<and> take 2 (drop k (content b)) = kCRLF
        \<and> (\<forall>j. j < k \<longrightarrow> take 2 (drop j (content b)) \<noteq> kCRLF)
   | None \<Rightarrow> \<forall>j. take 2 (drop j (content b)) \<noteq> kCRLF"
proof (cases "std_search kCRLF (content b)")
  case None
  have "take 2 (drop j (content b)) \<noteq> kCRLF" for j
    using std_search_None [OF None, of j] by (cases "j \<le> length (content b)") (simp_all, simp add: kCRLF_def)
  with None show ?thesis by (simp add: FindCRLF_def)
next
  case (Some k)
  with std_search_Some_occurs [OF Some] std_search_Some_first [OF Some] show ?thesis
    by (simp add: FindCRLF_def)
qed

theorem FindCRLF_first_occurrence_witness:
  "FindCRLF \<lparr>buf_bytes = ''ab'' @ kCRLF @ ''c'', reader_index = 1, writer_index = 5\<rparr> = Some 2
   \<and> (\<exists>k. 2 = 1 + k \<and> k + 2 \<le> 4 \<and> take 2 (drop k (''b'' @ kCRLF @ ''c'')) = kCRLF
        \<and> (\<forall>j. j < k \<longrightarrow> take 2 (drop j (''b'' @ kCRLF @ ''c'')) \<noteq> kCRLF))"
proof -
  let ?b = "\<lparr>buf_bytes = ''ab'' @ kCRLF @ ''c'', reader_index = 1, writer_index = 5\<rparr> :: buffer"
  have c: "content ?b = ''b'' @ kCRLF @ ''c''" by (simp add: content_def slice_def kCRLF_def)
  have f: "FindCRLF ?b = Some 2" unfolding FindCRLF_def c by (simp add: kCRLF_def)
  have r: "reader_index ?b = 1" and l: "length (''b'' @ kCRLF @ ''c'') = 4" by (simp_all add: kCRLF_def)
  show ?thesis using FindCRLF_first_occurrence [of ?b] unfolding f c r l option.case by simp
qed

text \<open>
  Property C27. The guards of \<open>Append\<close> do not cover lengths beyond \<open>int\<close>: because
  \<open>MakeSpace(int len)\<close> narrows the \<open>size_t\<close> length, appending between \<open>2 ^ 31\<close> and
  \<open>2 ^ 32 - 9\<close> bytes to a fresh buffer makes the vector throw, and appending exactly \<open>2 ^ 32\<close>
  bytes passes the guard and writes outside the vector.
\<close>
theorem Append_narrowing_faults:
  "(2 ^ 31 \<le> length d \<and> length d < 2 ^ 32 - 8 \<longrightarrow> Append d default_buffer = Inl Length_error)
   \<and> (length e = 2 ^ 32 \<longrightarrow> Append e default_buffer = Inl Out_of_bounds)"
proof (intro conjI impI)
  assume d: "2 ^ 31 \<le> length d \<and> length d < 2 ^ 32 - 8"
  then have "size_of_int (int_of_size (length d)) = 2 ^ 64 - 2 ^ 32 + length d"
    by (simp add: int_of_size_wrap size_of_int_neg nat_add_distrib)
  then show "Append d default_buffer = Inl Length_error"
    using d by (simp add: Append_def EnsureWritableBytes_def MakeSpace_def default_buffer_sizes size_add_def vec_max_def)
next
  assume e: "length e = 2 ^ 32"
  then have "size_of_int (int_of_size (length e)) = 0"
    by (simp add: int_of_size_def size_of_int_def)
  then show "Append e default_buffer = Inl Out_of_bounds"
    using e by (simp add: Append_def EnsureWritableBytes_def MakeSpace_def default_buffer_sizes size_add_def content_def)
qed

theorem Append_narrowing_faults_witness:
  "Append (replicate (2 ^ 31) CHR ''x'') default_buffer = Inl Length_error
   \<and> Append (replicate (2 ^ 32) CHR ''x'') default_buffer = Inl Out_of_bounds"
  using Append_narrowing_faults [of "replicate (2 ^ 31) CHR ''x''" "replicate (2 ^ 32) CHR ''x''"]
  by (simp only: length_replicate) simp

text \<open>
  \<open>Prepend\<close> puts its bytes in front of the readable bytes whenever they fit the
  prependable area (and fails its \<open>assert\<close> otherwise), and \<open>Shrink\<close> keeps the readable bytes.
\<close>
theorem Prepend_and_Shrink_content:
  assumes "buffer_inv b"
  shows "(length d \<le> PrependableBytes b \<longrightarrow> (\<exists>b'. Prepend d b = Inr b' \<and> buffer_inv b' \<and> content b' = d @ content b))
    \<and> (PrependableBytes b < length d \<longrightarrow> Prepend d b = Inl Assert_failed)
    \<and> (2 * length (content b) + reserve < 2 ^ 31 \<longrightarrow>
         (\<exists>b'. Shrink reserve b = Inr b' \<and> buffer_inv b' \<and> content b' = content b))"
  using Prepend_ok [OF assms, of d] Shrink_ok [OF assms, of reserve]
  by (simp add: PrependableBytes_def Prepend_def)

theorem Prepend_and_Shrink_content_witness:
  "(\<exists>b'. Prepend ''len:'' default_buffer = Inr b' \<and> content b' = ''len:'')
   \<and> Prepend ''too long'' (default_buffer\<lparr>reader_index := 3\<rparr>) = Inl Assert_failed
   \<and> (\<exists>b'. Shrink 10 default_buffer = Inr b' \<and> content b' = [])"
  using Prepend_and_Shrink_content [of default_buffer "''len:''" 10]
    Prepend_and_Shrink_content [of "default_buffer\<lparr>reader_index := 3\<rparr>" "''too long''" 0]
  by (auto simp: default_buffer_sizes PrependableBytes_def buffer_inv_def vec_max_def)

end
