(* ===== verification/Http_Context.thy ===== *)
theory Http_Context
  imports Http_Request Buffer
begin

text \<open>
  \<open>http/http_context.h\<close> and \<open>http/http_context.cc\<close>: the state machine that parses a request out
  of a connection's input buffer. \<open>parse_loop\<close> is the \<open>while (hasMore)\<close> loop of
  \<open>ParseRequest\<close> over the real buffer; it is a partial function because the loop does not end in
  two of the four states, and \<open>None\<close> is that outcome. \<open>parse_content\<close> is the reference parser
  over a plain string, which terminates; the refinement lemma relates the two, so that the
  properties are proved on strings.
\<close>

section \<open>The parser of the source\<close>

datatype parse_state = kExpectRequestLine | kExpectHeaders | kExpectBody | kGotAll

record http_context =
  ctx_state :: parse_state
  ctx_request :: http_request

definition HttpContext_new :: http_context where
  "HttpContext_new = \<lparr>ctx_state = kExpectRequestLine, ctx_request = HttpRequest_new\<rparr>"

definition GotAll :: "http_context \<Rightarrow> bool" where
  "GotAll ctx \<longleftrightarrow> ctx_state ctx = kGotAll"

definition HttpContext_Reset :: "http_context \<Rightarrow> http_context" where
  "HttpContext_Reset ctx =
     ctx\<lparr>ctx_state := kExpectRequestLine, ctx_request := fst (HttpRequest_swap (ctx_request ctx) HttpRequest_new)\<rparr>"

definition ProcessRequestLine :: "string \<Rightarrow> http_request \<Rightarrow> bool \<times> http_request" where
  "ProcessRequestLine line r =
     (let space = std_find CHR '' '' line
      in if space = length line then (False, r)
         else if \<not> fst (SetMethod (take space line) r) then (False, snd (SetMethod (take space line) r))
         else
           let r = snd (SetMethod (take space line) r);
               rest = drop (Suc space) line;
               space2 = std_find CHR '' '' rest
           in if space2 = length rest then (False, r)
              else
                let target = take space2 rest;
                    question = std_find CHR ''?'' target;
                    r = (if question \<noteq> length target
                         then SetQuery (drop question target) (SetPath (take question target) r)
                         else SetPath target r);
                    version = drop (Suc space2) rest
                in if length version = 8 \<and> take 7 version = ''HTTP/1.''
                   then (if version ! 7 = CHR ''1'' then (True, SetVersion kHttp11 r)
                         else if version ! 7 = CHR ''0'' then (True, SetVersion kHttp10 r)
                         else (False, r))
                   else (False, r))"

text \<open>The text from \<open>Peek()\<close> to the position \<open>p\<close>.\<close>

definition line_to :: "nat \<Rightarrow> buffer \<Rightarrow> string" where
  "line_to p b = slice (buf_bytes b) (reader_index b) p"

partial_function (option) parse_loop ::
  "bool \<Rightarrow> http_context \<Rightarrow> buffer \<Rightarrow> timestamp \<Rightarrow> (bool \<times> http_context \<times> buffer) option" where
  "parse_loop ok ctx buf t =
     (case ctx_state ctx of
        kExpectRequestLine \<Rightarrow>
          (case FindCRLF buf of
             None \<Rightarrow> Some (ok, ctx, buf)
           | Some crlf \<Rightarrow>
               if fst (ProcessRequestLine (line_to crlf buf) (ctx_request ctx))
               then parse_loop True
                      (ctx\<lparr>ctx_request := SetReceiveTime t (snd (ProcessRequestLine (line_to crlf buf) (ctx_request ctx))),
                           ctx_state := kExpectHeaders\<rparr>)
                      (RetrieveUntil (crlf + 2) buf) t
               else Some (False, ctx\<lparr>ctx_request := snd (ProcessRequestLine (line_to crlf buf) (ctx_request ctx))\<rparr>, buf))
      | kExpectHeaders \<Rightarrow>
          (case FindCRLF buf of
             None \<Rightarrow> Some (ok, ctx, buf)
           | Some crlf \<Rightarrow>
               if std_find CHR '':'' (line_to crlf buf) \<noteq> length (line_to crlf buf)
               then parse_loop ok
                      (ctx\<lparr>ctx_request := AddHeader (line_to crlf buf) (std_find CHR '':'' (line_to crlf buf)) (ctx_request ctx)\<rparr>)
                      (RetrieveUntil (crlf + 2) buf) t
               else Some (ok, ctx\<lparr>ctx_state := kGotAll\<rparr>, RetrieveUntil (crlf + 2) buf))
      | kExpectBody \<Rightarrow> parse_loop ok ctx buf t
      | kGotAll \<Rightarrow> parse_loop ok ctx buf t)"

definition ParseRequest :: "http_context \<Rightarrow> buffer \<Rightarrow> timestamp \<Rightarrow> (bool \<times> http_context \<times> buffer) option" where
  "ParseRequest ctx buf receiveTime = parse_loop False ctx buf receiveTime"

section \<open>The reference parser on strings\<close>

function parse_content :: "bool \<Rightarrow> http_context \<Rightarrow> string \<Rightarrow> timestamp \<Rightarrow> bool \<times> http_context \<times> string" where
  "parse_content ok ctx s t =
     (case std_search kCRLF s of
        None \<Rightarrow> (ok, ctx, s)
      | Some k \<Rightarrow>
          if ctx_state ctx = kExpectRequestLine
          then (if fst (ProcessRequestLine (take k s) (ctx_request ctx))
                then parse_content True
                       (ctx\<lparr>ctx_request := SetReceiveTime t (snd (ProcessRequestLine (take k s) (ctx_request ctx))),
                            ctx_state := kExpectHeaders\<rparr>)
                       (drop (k + 2) s) t
                else (False, ctx\<lparr>ctx_request := snd (ProcessRequestLine (take k s) (ctx_request ctx))\<rparr>, s))
          else if std_find CHR '':'' (take k s) \<noteq> length (take k s)
          then parse_content ok
                 (ctx\<lparr>ctx_request := AddHeader (take k s) (std_find CHR '':'' (take k s)) (ctx_request ctx)\<rparr>)
                 (drop (k + 2) s) t
          else (ok, ctx\<lparr>ctx_state := kGotAll\<rparr>, drop (k + 2) s))"
  by pat_completeness auto
termination
  by (relation "measure (\<lambda>(ok, ctx, s, t). length s)") (auto dest!: std_search_Some_occurs)

declare parse_content.simps [simp del]

section \<open>Text of a request\<close>

definition version_text :: "http_version \<Rightarrow> string" where
  "version_text v = (if v = kHttp11 then ''HTTP/1.1'' else ''HTTP/1.0'')"

definition request_line :: "http_request \<Rightarrow> string" where
  "request_line r = MethodString r @ '' '' @ req_path r @ req_query r @ '' '' @ version_text (req_version r)"

definition header_line :: "string \<times> string \<Rightarrow> string" where
  "header_line h = fst h @ '': '' @ snd h"

definition request_text :: "http_request \<Rightarrow> (string \<times> string) list \<Rightarrow> string" where
  "request_text r hs = request_line r @ kCRLF @ concat (map (\<lambda>h. header_line h @ kCRLF) hs) @ kCRLF"

definition CR :: char where "CR = CHR 0x0D"

text \<open>Requests whose text is unambiguous: the separators occur only where they separate.\<close>

definition wf_header :: "string \<times> string \<Rightarrow> bool" where
  "wf_header h \<longleftrightarrow> CHR '':'' \<notin> set (fst h) \<and> CR \<notin> set (fst h) \<and> CR \<notin> set (snd h) \<and> trimmed (snd h)"

definition wf_request :: "http_request \<Rightarrow> bool" where
  "wf_request r \<longleftrightarrow> req_method r \<noteq> kInvalid \<and> req_version r \<noteq> kUnknown
     \<and> CHR '' '' \<notin> set (req_path r) \<and> CHR ''?'' \<notin> set (req_path r) \<and> CR \<notin> set (req_path r)
     \<and> CHR '' '' \<notin> set (req_query r) \<and> CR \<notin> set (req_query r)
     \<and> (req_query r = [] \<or> hd (req_query r) = CHR ''?'')"

definition add_headers :: "(string \<times> string) list \<Rightarrow> (string \<rightharpoonup> string) \<Rightarrow> (string \<rightharpoonup> string)" where
  "add_headers hs m = foldl (\<lambda>m h. m(fst h \<mapsto> snd h)) m hs"

text \<open>A request for the examples.\<close>

definition example_request :: http_request where
  "example_request = HttpRequest_new\<lparr>req_method := kGet, req_version := kHttp11, req_path := ''/a'', req_query := ''?x=1''\<rparr>"

section \<open>Lemmas: searching lines\<close>

lemma std_search_kCRLF: "CR \<notin> set l \<Longrightarrow> std_search kCRLF (l @ kCRLF @ s) = Some (length l)"
proof (induction l)
  case Nil
  then show ?case by (simp add: kCRLF_def)
next
  case (Cons c l)
  then have "take (length kCRLF) ((c # l) @ kCRLF @ s) \<noteq> kCRLF"
    by (auto simp: kCRLF_def CR_def)
  with Cons show ?case by simp
qed

lemma FindCRLF_content:
  assumes inv: "buffer_inv b" and k: "std_search kCRLF (content b) = Some k"
  shows "FindCRLF b = Some (reader_index b + k)"
    and "line_to (reader_index b + k) b = take k (content b)"
    and "buffer_inv (RetrieveUntil (reader_index b + k + 2) b)"
    and "content (RetrieveUntil (reader_index b + k + 2) b) = drop (k + 2) (content b)"
proof -
  have le: "k + 2 \<le> length (content b)" using std_search_Some_occurs [OF k] by simp
  show "FindCRLF b = Some (reader_index b + k)" using k by (simp add: FindCRLF_def)
  show "line_to (reader_index b + k) b = take k (content b)"
    using le inv by (simp add: line_to_def content_def take_slice length_content net_simps)
      (auto simp: buffer_inv_def take_slice)
  have "k + 2 < 2 ^ 64"
    using le buffer_inv_bounds [OF inv] by (simp add: length_content [OF inv] net_simps inv)
  then have "RetrieveUntil (reader_index b + k + 2) b = Retrieve (k + 2) b"
    by (simp add: RetrieveUntil_def size_of_int_def nat_add_distrib)
  then show "buffer_inv (RetrieveUntil (reader_index b + k + 2) b)"
    and "content (RetrieveUntil (reader_index b + k + 2) b) = drop (k + 2) (content b)"
    using inv by (simp_all only: Retrieve_inv Retrieve_content)
qed

section \<open>Lemmas: the loop refines the reference parser\<close>

lemma parse_loop_refines:
  assumes "buffer_inv buf" and "ctx_state ctx = kExpectRequestLine \<or> ctx_state ctx = kExpectHeaders"
  shows "\<exists>buf'. parse_loop ok ctx buf t
      = Some (fst (parse_content ok ctx (content buf) t), fst (snd (parse_content ok ctx (content buf) t)), buf')
    \<and> buffer_inv buf' \<and> content buf' = snd (snd (parse_content ok ctx (content buf) t))"
  using assms
proof (induction ok ctx "content buf" t arbitrary: buf rule: parse_content.induct)
  case (1 ok ctx t)
  show ?case
  proof (cases "std_search kCRLF (content buf)")
    case None
    then have "FindCRLF buf = None" by (simp add: FindCRLF_def)
    with None "1.prems" show ?thesis
      by (auto simp: parse_loop.simps [of ok ctx] parse_content.simps [of ok ctx])
  next
    case (Some k)
    note line = FindCRLF_content [OF "1.prems"(1) Some]
    let ?l = "take k (content buf)" and ?r = "drop (k + 2) (content buf)"
    let ?buf = "RetrieveUntil (reader_index buf + k + 2) buf"
    show ?thesis
    proof (cases "ctx_state ctx = kExpectRequestLine")
      case True
      show ?thesis
      proof (cases "fst (ProcessRequestLine ?l (ctx_request ctx))")
        case ok: True
        from "1.hyps"(1) [OF Some True ok line(4) [symmetric] line(3)] True ok Some line show ?thesis
          by (simp add: parse_loop.simps [of ok ctx] parse_content.simps [of ok ctx])
      next
        case False
        with True Some line "1.prems" show ?thesis
          by (simp add: parse_loop.simps [of ok ctx] parse_content.simps [of ok ctx])
      qed
    next
      case False
      with "1.prems" have st: "ctx_state ctx = kExpectHeaders" by simp
      show ?thesis
      proof (cases "std_find CHR '':'' ?l \<noteq> length ?l")
        case colon: True
        from "1.hyps"(2) [OF Some False colon line(4) [symmetric] line(3)] st colon Some line show ?thesis
          by (simp add: parse_loop.simps [of ok ctx] parse_content.simps [of ok ctx])
      next
        case no_colon: False
        with st Some line show ?thesis
          by (simp add: parse_loop.simps [of ok ctx] parse_content.simps [of ok ctx])
      qed
    qed
  qed
qed

lemma parse_loop_returns_state:
  assumes "parse_loop ok ctx buf t = Some r"
  shows "ctx_state ctx = kExpectRequestLine \<or> ctx_state ctx = kExpectHeaders"
proof (rule parse_loop.raw_induct [where P = "\<lambda>ok ctx buf t r. ctx_state ctx = kExpectRequestLine \<or> ctx_state ctx = kExpectHeaders",
      OF _ assms])
  fix f ok and ctx :: http_context and buf t r
  assume IH: "\<And>ok ctx buf t r. f ok ctx buf t = Some r \<Longrightarrow> ctx_state ctx = kExpectRequestLine \<or> ctx_state ctx = kExpectHeaders"
    and eq: "(case ctx_state ctx of
        kExpectRequestLine \<Rightarrow>
          (case FindCRLF buf of
             None \<Rightarrow> Some (ok, ctx, buf)
           | Some crlf \<Rightarrow>
               if fst (ProcessRequestLine (line_to crlf buf) (ctx_request ctx))
               then f True
                      (ctx\<lparr>ctx_request := SetReceiveTime t (snd (ProcessRequestLine (line_to crlf buf) (ctx_request ctx))),
                           ctx_state := kExpectHeaders\<rparr>)
                      (RetrieveUntil (crlf + 2) buf) t
               else Some (False, ctx\<lparr>ctx_request := snd (ProcessRequestLine (line_to crlf buf) (ctx_request ctx))\<rparr>, buf))
      | kExpectHeaders \<Rightarrow>
          (case FindCRLF buf of
             None \<Rightarrow> Some (ok, ctx, buf)
           | Some crlf \<Rightarrow>
               if std_find CHR '':'' (line_to crlf buf) \<noteq> length (line_to crlf buf)
               then f ok
                      (ctx\<lparr>ctx_request := AddHeader (line_to crlf buf) (std_find CHR '':'' (line_to crlf buf)) (ctx_request ctx)\<rparr>)
                      (RetrieveUntil (crlf + 2) buf) t
               else Some (ok, ctx\<lparr>ctx_state := kGotAll\<rparr>, RetrieveUntil (crlf + 2) buf))
      | kExpectBody \<Rightarrow> f ok ctx buf t
      | kGotAll \<Rightarrow> f ok ctx buf t) = Some r"
  show "ctx_state ctx = kExpectRequestLine \<or> ctx_state ctx = kExpectHeaders"
  proof (cases "ctx_state ctx")
    case kExpectBody
    with eq have "f ok ctx buf t = Some r" by simp
    then show ?thesis by (rule IH)
  next
    case kGotAll
    with eq have "f ok ctx buf t = Some r" by simp
    then show ?thesis by (rule IH)
  qed simp_all
qed

section \<open>Lemmas: printed requests\<close>

lemma version_text_facts:
  "length (version_text v) = 8" "take 7 (version_text v) = ''HTTP/1.''"
  "CHR '' '' \<notin> set (version_text v)" "CR \<notin> set (version_text v)"
  by (simp_all add: version_text_def CR_def)

lemma MethodString_facts: "CHR '' '' \<notin> set (MethodString r)" "CR \<notin> set (MethodString r)"
  by (cases "req_method r"; simp add: MethodString_def CR_def)+

lemma ProcessRequestLine_request_line:
  assumes "wf_request r"
  shows "ProcessRequestLine (request_line r) r0 =
    (True, r0\<lparr>req_method := req_method r, req_path := req_path r,
       req_query := (if req_query r = [] then req_query r0 else req_query r), req_version := req_version r\<rparr>)"
proof -
  let ?m = "MethodString r" and ?target = "req_path r @ req_query r" and ?v = "version_text (req_version r)"
  have wf: "CHR ''?'' \<notin> set (req_path r)" "CHR '' '' \<notin> set ?target" "req_query r = [] \<or> hd (req_query r) = CHR ''?''"
    "req_method r \<noteq> kInvalid" "req_version r \<noteq> kUnknown"
    using assms by (auto simp: wf_request_def)
  have m: "SetMethod ?m r0 = (True, r0\<lparr>req_method := req_method r\<rparr>)"
    using wf by (simp add: SetMethod_def method_of_MethodString)
  have sp: "std_find CHR '' '' (?m @ CHR '' '' # ?target @ CHR '' '' # ?v) = length ?m"
    by (rule std_find_append) (simp add: MethodString_facts)
  have sp2: "std_find CHR '' '' (?target @ CHR '' '' # ?v) = length ?target"
    using wf(2) by (rule std_find_append)
  have q: "std_find CHR ''?'' ?target = length (req_path r)"
    using wf(1,3) std_find_append [of "CHR ''?''" "req_path r" "tl (req_query r)"] by (cases "req_query r") auto
  have v: "?v ! 7 = (if req_version r = kHttp11 then CHR ''1'' else CHR ''0'')"
    by (simp add: version_text_def)
  have "request_line r = ?m @ CHR '' '' # ?target @ CHR '' '' # ?v"
    by (simp add: request_line_def)
  then show ?thesis
    using wf(5) sp sp2 q
    by (simp add: ProcessRequestLine_def m version_text_facts v SetPath_def SetQuery_def SetVersion_def Let_def)
      (cases "req_version r"; simp)
qed

lemma AddHeader_line:
  "trimmed v \<Longrightarrow> AddHeader (f @ CHR '':'' # CHR '' '' # v) (length f) r = r\<lparr>req_headers := (req_headers r)(f \<mapsto> v)\<rparr>"
  by (simp add: AddHeader_def Let_def trim_blank_trimmed del: dropWhile.simps)

lemma take_drop_line: "take (length l) (l @ kCRLF @ s) = l" "drop (length l + 2) (l @ kCRLF @ s) = s"
  by (simp_all add: kCRLF_def)

lemma parse_headers:
  assumes "list_all wf_header hs" and "ctx_state ctx = kExpectHeaders"
  shows "parse_content ok ctx (concat (map (\<lambda>h. header_line h @ kCRLF) hs) @ kCRLF @ rest) t
    = (ok, ctx\<lparr>ctx_request := (ctx_request ctx)\<lparr>req_headers := add_headers hs (req_headers (ctx_request ctx))\<rparr>,
               ctx_state := kGotAll\<rparr>, rest)"
  using assms
proof (induction hs arbitrary: ctx)
  case Nil
  then show ?case
    using std_search_kCRLF [of "[]" rest] by (simp add: parse_content.simps [of ok ctx] add_headers_def)
next
  case (Cons h hs)
  obtain f v where h: "h = (f, v)" by (cases h)
  let ?l = "f @ CHR '':'' # CHR '' '' # v"
  let ?s = "concat (map (\<lambda>h. header_line h @ kCRLF) hs) @ kCRLF @ rest"
  have wf: "CHR '':'' \<notin> set f" "CR \<notin> set ?l" "trimmed v"
    using Cons.prems(1) h by (auto simp: wf_header_def CR_def)
  have k: "std_search kCRLF (?l @ kCRLF @ ?s) = Some (length ?l)"
    by (rule std_search_kCRLF [OF wf(2)])
  have colon: "std_find CHR '':'' ?l = length f" using wf(1) by (rule std_find_append)
  let ?ctx = "ctx\<lparr>ctx_request := (ctx_request ctx)\<lparr>req_headers := (req_headers (ctx_request ctx))(f \<mapsto> v)\<rparr>\<rparr>"
  have "parse_content ok ctx (?l @ kCRLF @ ?s) t = parse_content ok ?ctx ?s t"
    unfolding parse_content.simps [of ok ctx] k option.case take_drop_line colon AddHeader_line [OF wf(3)]
    using Cons.prems(2) by simp
  also have "\<dots> = (ok, ?ctx\<lparr>ctx_request := (ctx_request ?ctx)\<lparr>req_headers := add_headers hs (req_headers (ctx_request ?ctx))\<rparr>,
               ctx_state := kGotAll\<rparr>, rest)"
    using Cons.prems by (intro Cons.IH) auto
  finally show ?case by (simp add: h header_line_def add_headers_def)
qed

lemma parse_content_Nil [simp]: "parse_content ok ctx [] t = (ok, ctx, [])"
  by (simp add: parse_content.simps kCRLF_def)

lemma parse_request_line:
  assumes "wf_request r"
  shows "parse_content ok HttpContext_new (request_line r @ kCRLF @ s) t
    = parse_content True \<lparr>ctx_state = kExpectHeaders, ctx_request = r\<lparr>req_receive_time := t, req_headers := Map.empty\<rparr>\<rparr> s t"
proof -
  have "CR \<notin> set (request_line r)"
    using assms MethodString_facts(2) version_text_facts(4)
    by (auto simp: request_line_def wf_request_def CR_def)
  then have k: "std_search kCRLF (request_line r @ kCRLF @ s) = Some (length (request_line r))"
    by (rule std_search_kCRLF)
  show ?thesis
    unfolding parse_content.simps [of ok HttpContext_new] k option.case take_drop_line
      ProcessRequestLine_request_line [OF assms]
    by (cases r) (simp add: HttpContext_new_def HttpRequest_new_def SetReceiveTime_def)
qed

lemma parse_request_text:
  assumes "wf_request r" and "list_all wf_header hs"
  shows "parse_content ok HttpContext_new (request_text r hs @ rest) t
    = (True, \<lparr>ctx_state = kGotAll,
         ctx_request = r\<lparr>req_receive_time := t, req_headers := add_headers hs Map.empty\<rparr>\<rparr>, rest)"
  using parse_request_line [OF assms(1)] parse_headers [OF assms(2)] by (simp add: request_text_def)

section \<open>Properties\<close>

text \<open>
  Property C13. Parsing inverts printing: when the input buffer holds the text of a well-formed
  request with any list of well-formed headers, followed by any bytes, \<open>ParseRequest\<close> on a fresh
  context returns true in state \<open>kGotAll\<close> with exactly that method, path, query, version and
  headers (later fields override earlier ones), and leaves exactly the bytes behind the request.
\<close>
theorem ParseRequest_roundtrip:
  assumes "wf_request r" and "list_all wf_header hs"
    and "buffer_inv buf" and "content buf = request_text r hs @ rest"
  shows "\<exists>buf'. ParseRequest HttpContext_new buf t
      = Some (True, \<lparr>ctx_state = kGotAll,
          ctx_request = r\<lparr>req_receive_time := t, req_headers := add_headers hs Map.empty\<rparr>\<rparr>, buf')
    \<and> buffer_inv buf' \<and> content buf' = rest"
  using parse_loop_refines [of buf HttpContext_new False t] assms parse_request_text [OF assms(1,2), of False rest t]
  by (simp add: ParseRequest_def HttpContext_new_def)

theorem ParseRequest_roundtrip_witness:
  "\<exists>buf'. ParseRequest HttpContext_new (buffer_of (request_text example_request [(''Host'', ''h'')] @ ''next'')) (Timestamp 5)
      = Some (True, \<lparr>ctx_state = kGotAll,
          ctx_request = example_request\<lparr>req_receive_time := Timestamp 5, req_headers := [''Host'' \<mapsto> ''h'']\<rparr>\<rparr>, buf')
    \<and> buffer_inv buf' \<and> content buf' = ''next''"
proof -
  have "buffer_inv (buffer_of (request_text example_request [(''Host'', ''h'')] @ ''next''))"
    by (rule buffer_inv_buffer_of)
      (simp add: request_text_def request_line_def MethodString_def version_text_def header_line_def example_request_def)
  then show ?thesis
    using ParseRequest_roundtrip [of example_request "[(''Host'', ''h'')]"
        "buffer_of (request_text example_request [(''Host'', ''h'')] @ ''next'')" "''next''" "Timestamp 5"]
    by (simp add: wf_request_def wf_header_def example_request_def HttpRequest_new_def CR_def trimmed_def isspace_def
        add_headers_def)
qed

text \<open>
  Property C28. \<open>ParseRequest\<close> returns exactly from the states \<open>kExpectRequestLine\<close> and
  \<open>kExpectHeaders\<close>, on every well-formed buffer; called on a context that already got a whole
  request (or in state \<open>kExpectBody\<close>) its loop never ends.
\<close>
theorem ParseRequest_returns_iff:
  assumes "buffer_inv buf"
  shows "(\<exists>r. ParseRequest ctx buf t = Some r) \<longleftrightarrow> ctx_state ctx = kExpectRequestLine \<or> ctx_state ctx = kExpectHeaders"
  using parse_loop_returns_state [of False ctx buf t] parse_loop_refines [OF assms, of ctx False t]
  unfolding ParseRequest_def by blast

theorem ParseRequest_returns_iff_witness:
  "(\<exists>r. ParseRequest HttpContext_new default_buffer (Timestamp 0) = Some r)
   \<and> \<not> (\<exists>r. ParseRequest (HttpContext_new\<lparr>ctx_state := kGotAll\<rparr>) default_buffer (Timestamp 0) = Some r)"
  using ParseRequest_returns_iff [of default_buffer HttpContext_new "Timestamp 0"]
    ParseRequest_returns_iff [of default_buffer "HttpContext_new\<lparr>ctx_state := kGotAll\<rparr>" "Timestamp 0"]
  by (simp add: HttpContext_new_def)

text \<open>
  A false result does not mean an error: when the readable bytes hold no complete line
  yet, \<open>ParseRequest\<close> returns false, consumes nothing and keeps its state; and when a context that
  already accepted the request line gets the rest of a well-formed request, it reaches \<open>kGotAll\<close>
  and still returns false. The comment on the function says that false signals an error.
\<close>
theorem ParseRequest_false_without_error:
  assumes "buffer_inv buf"
  shows "(ctx_state ctx = kExpectRequestLine \<and> FindCRLF buf = None \<longrightarrow> ParseRequest ctx buf t = Some (False, ctx, buf))
    \<and> (ctx_state ctx = kExpectHeaders \<and> list_all wf_header hs
        \<and> content buf = concat (map (\<lambda>h. header_line h @ kCRLF) hs) @ kCRLF \<longrightarrow>
       (\<exists>ctx' buf'. ParseRequest ctx buf t = Some (False, ctx', buf') \<and> GotAll ctx' \<and> content buf' = []))"
proof (intro conjI impI)
  assume "ctx_state ctx = kExpectRequestLine \<and> FindCRLF buf = None"
  then show "ParseRequest ctx buf t = Some (False, ctx, buf)"
    by (simp add: ParseRequest_def parse_loop.simps)
next
  assume "ctx_state ctx = kExpectHeaders \<and> list_all wf_header hs
        \<and> content buf = concat (map (\<lambda>h. header_line h @ kCRLF) hs) @ kCRLF"
  then show "\<exists>ctx' buf'. ParseRequest ctx buf t = Some (False, ctx', buf') \<and> GotAll ctx' \<and> content buf' = []"
    using parse_loop_refines [OF assms, of ctx False t] parse_headers [of hs ctx False "[]" t]
    by (auto simp: ParseRequest_def GotAll_def)
qed

theorem ParseRequest_false_without_error_witness:
  "ParseRequest HttpContext_new (buffer_of ''GET / HT'') (Timestamp 0) = Some (False, HttpContext_new, buffer_of ''GET / HT'')
   \<and> (\<exists>ctx' buf'. ParseRequest (HttpContext_new\<lparr>ctx_state := kExpectHeaders\<rparr>) (buffer_of (''Host: h'' @ kCRLF @ kCRLF)) (Timestamp 0)
        = Some (False, ctx', buf') \<and> GotAll ctx' \<and> content buf' = [])"
proof -
  have "FindCRLF (buffer_of ''GET / HT'') = None" by (simp add: FindCRLF_def kCRLF_def)
  moreover have "buffer_inv (buffer_of ''GET / HT'')" "buffer_inv (buffer_of (''Host: h'' @ kCRLF @ kCRLF))"
    by (rule buffer_inv_buffer_of, simp)+
  ultimately show ?thesis
    using ParseRequest_false_without_error [of "buffer_of ''GET / HT''" HttpContext_new "Timestamp 0" "[]"]
      ParseRequest_false_without_error [of "buffer_of (''Host: h'' @ kCRLF @ kCRLF)" "HttpContext_new\<lparr>ctx_state := kExpectHeaders\<rparr>"
        "Timestamp 0" "[(''Host'', ''h'')]"]
    by (simp add: HttpContext_new_def wf_header_def CR_def trimmed_def isspace_def header_line_def)
qed

end
