(* ===== verification/Http_Response.thy ===== *)
theory Http_Response
  imports Buffer
begin

text \<open>
  \<open>http/http_response.h\<close> and \<open>http/http_response.cc\<close>: building and serialising a response. The
  headers are an \<open>unordered_map\<close>; the order in which its iterators visit the entries is the
  parameter \<open>enum\<close>, of which only what the container promises is assumed (\<open>enumerates\<close>).
  \<open>AppendToBuffer\<close> is a sequence of \<open>Buffer::Append\<close> calls; its lemmas come from the buffer's
  contract \<open>bq\<close>.
\<close>

datatype http_status = kUnknownStatus | k200Ok | k301MovedPermanently | k400BadRequest | k404NotFound

fun status_number :: "http_status \<Rightarrow> int" where
  "status_number kUnknownStatus = 0"
| "status_number k200Ok = 200"
| "status_number k301MovedPermanently = 301"
| "status_number k400BadRequest = 400"
| "status_number k404NotFound = 404"

record http_response =
  resp_headers :: "string \<rightharpoonup> string"
  resp_status_code :: http_status
  resp_status_message :: string
  resp_close_connection :: bool
  resp_body :: string

definition HttpResponse_new :: "bool \<Rightarrow> http_response" where
  "HttpResponse_new close = \<lparr>resp_headers = Map.empty, resp_status_code = kUnknownStatus, resp_status_message = [],
     resp_close_connection = close, resp_body = []\<rparr>"

definition SetStatusCode :: "http_status \<Rightarrow> http_response \<Rightarrow> http_response" where
  "SetStatusCode code r = r\<lparr>resp_status_code := code\<rparr>"

definition SetStatusMessage :: "string \<Rightarrow> http_response \<Rightarrow> http_response" where
  "SetStatusMessage message r = r\<lparr>resp_status_message := message\<rparr>"

definition SetCloseConnection :: "bool \<Rightarrow> http_response \<Rightarrow> http_response" where
  "SetCloseConnection on r = r\<lparr>resp_close_connection := on\<rparr>"

definition HttpResponse_AddHeader :: "string \<Rightarrow> string \<Rightarrow> http_response \<Rightarrow> http_response" where
  "HttpResponse_AddHeader key value r = r\<lparr>resp_headers := (resp_headers r)(key \<mapsto> value)\<rparr>"

definition SetContentType :: "string \<Rightarrow> http_response \<Rightarrow> http_response" where
  "SetContentType contentType r = HttpResponse_AddHeader ''Content-Type'' contentType r"

definition SetBody :: "string \<Rightarrow> http_response \<Rightarrow> http_response" where
  "SetBody body r = r\<lparr>resp_body := body\<rparr>"

text \<open>The arguments of the successive \<open>Append\<close> calls.\<close>

definition response_parts :: "((string \<rightharpoonup> string) \<Rightarrow> (string \<times> string) list) \<Rightarrow> http_response \<Rightarrow> string list" where
  "response_parts enum r =
     [snprintf_buf 32 (''HTTP/1.1 '' @ show_int (status_number (resp_status_code r)) @ '' ''),
      resp_status_message r, kCRLF]
     @ (if resp_close_connection r then [''Connection: close'' @ kCRLF]
        else [snprintf_buf 32 (''Content-Length: '' @ show_nat (length (resp_body r)) @ kCRLF),
              ''Connection: Keep-Alive'' @ kCRLF])
     @ concat (map (\<lambda>header. [fst header, '': '', snd header, kCRLF]) (enum (resp_headers r)))
     @ [kCRLF, resp_body r]"

definition AppendToBuffer ::
  "((string \<rightharpoonup> string) \<Rightarrow> (string \<times> string) list) \<Rightarrow> http_response \<Rightarrow> buffer \<Rightarrow> buffer result" where
  "AppendToBuffer enum r output = foldr_result (\<lambda>b d. Append d b) output (response_parts enum r)"

text \<open>What an \<open>unordered_map\<close> promises about a traversal: every entry exactly once.\<close>

definition enumerates :: "((string \<rightharpoonup> string) \<Rightarrow> (string \<times> string) list) \<Rightarrow> (string \<rightharpoonup> string) \<Rightarrow> bool" where
  "enumerates enum m \<longleftrightarrow> map_of (enum m) = m \<and> distinct (map fst (enum m))"

text \<open>The text of a response: status line, connection lines, headers, blank line, body.\<close>

definition status_line :: "http_response \<Rightarrow> string" where
  "status_line r = ''HTTP/1.1 '' @ show_int (status_number (resp_status_code r)) @ '' '' @ resp_status_message r @ kCRLF"

definition connection_lines :: "http_response \<Rightarrow> string" where
  "connection_lines r =
     (if resp_close_connection r then ''Connection: close'' @ kCRLF
      else ''Content-Length: '' @ show_nat (length (resp_body r)) @ kCRLF @ ''Connection: Keep-Alive'' @ kCRLF)"

definition response_text :: "(string \<times> string) list \<Rightarrow> http_response \<Rightarrow> string" where
  "response_text hs r =
     status_line r @ connection_lines r @ concat (map (\<lambda>h. fst h @ '': '' @ snd h @ kCRLF) hs) @ kCRLF @ resp_body r"

text \<open>An enumeration for the examples: of the map with one known key.\<close>

definition enum_keys :: "string list \<Rightarrow> (string \<rightharpoonup> string) \<Rightarrow> (string \<times> string) list" where
  "enum_keys ks m = concat (map (\<lambda>k. case m k of Some v \<Rightarrow> [(k, v)] | None \<Rightarrow> []) ks)"

section \<open>Lemmas\<close>

lemma status_line_fits: "length (''HTTP/1.1 '' @ show_int (status_number c) @ '' '') \<le> 31"
proof -
  have "length (show_int (status_number c)) \<le> 3"
    by (cases c) (simp_all add: show_int_def length_show_nat)
  then show ?thesis by simp
qed

lemma content_length_fits: "n < 10 ^ 13 \<Longrightarrow> length (''Content-Length: '' @ show_nat n @ kCRLF) \<le> 31"
  using length_show_nat [of n 13] by simp

lemma snprintf_buf_fits: "length s \<le> n - 1 \<Longrightarrow> snprintf_buf n s = s"
  by (simp add: snprintf_buf_def)

lemma concat_response_parts:
  assumes "length (resp_body r) < 10 ^ 13"
  shows "concat (response_parts enum r) = response_text (enum (resp_headers r)) r"
proof -
  have s: "snprintf_buf 32 (''HTTP/1.1 '' @ show_int (status_number (resp_status_code r)) @ '' '')
      = ''HTTP/1.1 '' @ show_int (status_number (resp_status_code r)) @ '' ''"
    by (rule snprintf_buf_fits) (use status_line_fits in simp)
  have c: "snprintf_buf 32 (''Content-Length: '' @ show_nat (length (resp_body r)) @ kCRLF)
      = ''Content-Length: '' @ show_nat (length (resp_body r)) @ kCRLF"
    by (rule snprintf_buf_fits) (use content_length_fits [OF assms] in simp)
  have "concat (concat (map (\<lambda>h. [fst h, '': '', snd h, kCRLF]) hs))
      = concat (map (\<lambda>h. fst h @ '': '' @ snd h @ kCRLF) hs)" for hs :: "(string \<times> string) list"
    by (induction hs) simp_all
  then show ?thesis
    unfolding response_parts_def s c response_text_def status_line_def connection_lines_def by simp
qed

lemma AppendToBuffer_ok:
  assumes "buffer_inv b" and "length (resp_body r) < 10 ^ 13"
    and "room b (length (response_text (enum (resp_headers r)) r))"
  shows "\<exists>b'. AppendToBuffer enum r b = Inr b' \<and> buffer_inv b'
    \<and> content b' = content b @ response_text (enum (resp_headers r)) r"
  using bq.push_all [OF assms(1), of "response_parts enum r"] assms(2,3)
  by (simp add: AppendToBuffer_def concat_response_parts)

section \<open>Properties\<close>

text \<open>
  Serialising a response appends exactly its text to the output buffer: the status
  line with the numeric code, the connection lines (for a kept-alive response the decimal length of
  the body), every header exactly once in the order of the map's traversal, a blank line and the
  body; nothing is truncated by the 32-byte scratch buffer.
\<close>
theorem AppendToBuffer_writes_response:
  assumes "buffer_inv b" and "enumerates enum (resp_headers r)"
    and "length (resp_body r) < 10 ^ 13" and "room b (length (response_text (enum (resp_headers r)) r))"
  shows "\<exists>b' hs. AppendToBuffer enum r b = Inr b' \<and> buffer_inv b' \<and> content b' = content b @ response_text hs r
    \<and> map_of hs = resp_headers r \<and> distinct (map fst hs)"
  using AppendToBuffer_ok [of b r enum, OF assms(1,3,4)] assms(2) unfolding enumerates_def by blast

theorem AppendToBuffer_writes_response_witness:
  "let r = SetBody ''hi'' (SetContentType ''text/plain'' (SetStatusMessage ''OK'' (SetStatusCode k200Ok (HttpResponse_new False))))
   in \<exists>b' hs. AppendToBuffer (enum_keys [''Content-Type'']) r default_buffer = Inr b' \<and> buffer_inv b'
      \<and> content b' = content default_buffer @ response_text hs r \<and> map_of hs = resp_headers r \<and> distinct (map fst hs)"
proof -
  let ?r = "SetBody ''hi'' (SetContentType ''text/plain'' (SetStatusMessage ''OK'' (SetStatusCode k200Ok (HttpResponse_new False))))"
  have h: "resp_headers ?r = [''Content-Type'' \<mapsto> ''text/plain'']" and b: "resp_body ?r = ''hi''"
    by (simp_all add: SetBody_def SetContentType_def SetStatusMessage_def SetStatusCode_def HttpResponse_AddHeader_def
        HttpResponse_new_def)
  have e: "enumerates (enum_keys [''Content-Type'']) (resp_headers ?r)"
    unfolding h by (simp add: enumerates_def enum_keys_def)
  have "length (response_text (enum_keys [''Content-Type''] (resp_headers ?r)) ?r) < 2 ^ 31"
    unfolding h by (simp add: response_text_def status_line_def connection_lines_def enum_keys_def SetBody_def SetContentType_def
        SetStatusMessage_def SetStatusCode_def HttpResponse_AddHeader_def HttpResponse_new_def show_int_def show_nat.simps)
  then show ?thesis
    unfolding Let_def using e b by (intro AppendToBuffer_writes_response) auto
qed

end
