(* ===== verification/Http_Server.thy ===== *)
theory Http_Server
  imports Http_Context Http_Response
begin

text \<open>
  \<open>http/http_server.cc\<close>: the callbacks of the HTTP server. What a callback does to its connection
  is the list of calls it makes on it, in order. The user's \<open>http_callback_\<close> and the traversal
  order of the response's header map are parameters. \<open>OnMessage\<close> builds a new \<open>HttpContext\<close> for
  every call, as the source does.
\<close>

datatype conn_call = Call_Send string | Call_Shutdown

definition DefaultHttpCallback :: "http_request \<Rightarrow> http_response \<Rightarrow> http_response" where
  "DefaultHttpCallback req resp =
     SetCloseConnection True (SetStatusMessage ''Not Found'' (SetStatusCode k404NotFound resp))"

definition OnRequest ::
  "((string \<rightharpoonup> string) \<Rightarrow> (string \<times> string) list) \<Rightarrow> (http_request \<Rightarrow> http_response \<Rightarrow> http_response)
    \<Rightarrow> http_request \<Rightarrow> conn_call list result" where
  "OnRequest enum http_callback req =
     (let connection = GetHeader ''Connection'' req;
          close = (connection = ''close'' \<or> req_version req = kHttp10 \<and> connection \<noteq> ''Keep-Alive'');
          close = True;
          response = http_callback req (HttpResponse_new close)
      in bindr (AppendToBuffer enum response default_buffer) (\<lambda>buf.
           Inr (Call_Send (content buf) # (if resp_close_connection response then [Call_Shutdown] else []))))"

definition bad_request :: string where
  "bad_request = ''HTTP/1.1 400 Bad request'' @ kCRLF @ kCRLF"

definition OnMessage ::
  "((string \<rightharpoonup> string) \<Rightarrow> (string \<times> string) list) \<Rightarrow> (http_request \<Rightarrow> http_response \<Rightarrow> http_response)
    \<Rightarrow> buffer \<Rightarrow> timestamp \<Rightarrow> (conn_call list \<times> buffer) result option" where
  "OnMessage enum http_callback buf receiveTime =
     (case ParseRequest HttpContext_new buf receiveTime of
        None \<Rightarrow> None
      | Some (ok, context, buf') \<Rightarrow>
          (let calls = (if ok then [] else [Call_Send bad_request, Call_Shutdown])
           in Some (if GotAll context
                    then bindr (OnRequest enum http_callback (ctx_request context)) (\<lambda>more. Inr (calls @ more, buf'))
                    else Inr (calls, buf'))))"

section \<open>Lemmas\<close>

lemma OnRequest_ok:
  assumes "response = http_callback req (HttpResponse_new True)"
    and "length (resp_body response) < 10 ^ 13"
    and "length (response_text (enum (resp_headers response)) response) < 2 ^ 31"
  shows "OnRequest enum http_callback req =
    Inr (Call_Send (response_text (enum (resp_headers response)) response)
      # (if resp_close_connection response then [Call_Shutdown] else []))"
proof -
  obtain b where "AppendToBuffer enum response default_buffer = Inr b"
      "content b = response_text (enum (resp_headers response)) response"
    using AppendToBuffer_ok [of default_buffer response enum] assms(2,3) by auto
  with assms(1) show ?thesis by (simp add: OnRequest_def Let_def)
qed

lemma OnMessage_answers:
  assumes "wf_request r" and "list_all wf_header hs"
    and "buffer_inv buf" and "content buf = request_text r hs @ rest"
    and "response = http_callback (r\<lparr>req_receive_time := t, req_headers := add_headers hs Map.empty\<rparr>) (HttpResponse_new True)"
    and "length (resp_body response) < 10 ^ 13"
    and "length (response_text (enum (resp_headers response)) response) < 2 ^ 31"
  shows "\<exists>buf'. OnMessage enum http_callback buf t =
      Some (Inr (Call_Send (response_text (enum (resp_headers response)) response)
        # (if resp_close_connection response then [Call_Shutdown] else []), buf'))
    \<and> content buf' = rest"
proof -
  let ?req = "r\<lparr>req_receive_time := t, req_headers := add_headers hs Map.empty\<rparr>"
  obtain buf' where "ParseRequest HttpContext_new buf t = Some (True, \<lparr>ctx_state = kGotAll, ctx_request = ?req\<rparr>, buf')"
    and "content buf' = rest"
    using parse_loop_refines [of buf HttpContext_new False t] assms(3,4) parse_request_text [OF assms(1,2), of False rest t]
    by (auto simp: ParseRequest_def HttpContext_new_def)
  moreover have "OnRequest enum http_callback ?req = Inr (Call_Send (response_text (enum (resp_headers response)) response)
      # (if resp_close_connection response then [Call_Shutdown] else []))"
    using assms(5-7) by (rule OnRequest_ok)
  ultimately show ?thesis by (simp add: OnMessage_def GotAll_def)
qed

text \<open>A request that is cut in two: what one call makes of the first piece, and a new context of the rest.\<close>

definition header_text :: "(string \<times> string) list \<Rightarrow> string" where
  "header_text hs = concat (map (\<lambda>h. header_line h @ kCRLF) hs) @ kCRLF"

lemma header_text_simps [simp]: "header_text [] = kCRLF" "header_text (h # hs) = header_line h @ kCRLF @ header_text hs"
  by (simp_all add: header_text_def)

lemma longer_prefix:
  assumes "s @ u = a @ b" and "length a \<le> length s"
  obtains s' where "s = a @ s'" and "s' @ u = b"
proof (rule that)
  have "take (length a) (s @ u) = a" and "drop (length a) (s @ u) = b" by (simp_all add: assms(1))
  with assms(2) show "s = a @ drop (length a) s" and "drop (length a) s @ u = b" by (simp_all add: append_take_drop_id)
      (metis append_take_drop_id)
qed

lemma no_line_in_prefix:
  assumes "CR \<notin> set line" and "s @ u = line @ kCRLF @ v" and "length s < length line + 2"
  shows "std_search kCRLF s = None"
proof (rule ccontr)
  assume "std_search kCRLF s \<noteq> None"
  then obtain k where "std_search kCRLF s = Some k" by blast
  from std_search_Some_occurs [OF this] have k: "k + 2 \<le> length s" "take 2 (drop k s) = kCRLF" by (simp_all add: kCRLF_def numeral_2_eq_2)
  then have "s ! k = CR" by (cases "drop k s") (auto simp: kCRLF_def CR_def nth_via_drop)
  moreover have "s ! k = (s @ u) ! k" using k(1) by (simp add: nth_append)
  moreover have "(s @ u) ! k = line ! k" and "k < length line" using k(1) assms(3) by (simp_all add: assms(2) nth_append)
  ultimately show False using assms(1) nth_mem [of k line] by simp
qed

lemma parse_header_prefix:
  assumes "list_all wf_header hs" and "s @ u = header_text hs" and "u \<noteq> []" and "ctx_state ctx = kExpectHeaders"
  shows "\<exists>ctx' hs' rest. parse_content ok ctx s t = (ok, ctx', rest) \<and> ctx_state ctx' = kExpectHeaders
    \<and> rest @ u = header_text hs' \<and> set hs' \<subseteq> set hs"
  using assms
proof (induction hs arbitrary: s ctx)
  case Nil
  have "s @ u = [] @ kCRLF @ []" using Nil.prems(2) by simp
  moreover have "length s + length u = 2" using Nil.prems(2) by (metis header_text_simps(1) length_append kCRLF_def list.size(3,4)
        One_nat_def add_0 add_Suc_right numeral_2_eq_2 plus_1_eq_Suc)
  with Nil.prems(3) have "length s < 2" by (cases u) simp_all
  ultimately have "std_search kCRLF s = None" by (intro no_line_in_prefix [of "[]" s u "[]"]) simp_all
  then have "parse_content ok ctx s t = (ok, ctx, s)" by (simp add: parse_content.simps)
  with Nil.prems show ?case by (intro exI [of _ ctx] exI [of _ "[]"] exI [of _ s]) simp
next
  case (Cons h hs)
  have cr: "CR \<notin> set (header_line h)" using Cons.prems(1) by (simp add: wf_header_def header_line_def CR_def)
  show ?case
  proof (cases "length s < length (header_line h) + 2")
    case True
    then have "std_search kCRLF s = None" using Cons.prems(2) by (intro no_line_in_prefix [OF cr]) simp_all
    then have "parse_content ok ctx s t = (ok, ctx, s)" by (simp add: parse_content.simps)
    with Cons.prems show ?thesis by (intro exI [of _ ctx] exI [of _ "h # hs"] exI [of _ s]) simp
  next
    case False
    obtain s' where s: "s = header_line h @ kCRLF @ s'" and s': "s' @ u = header_text hs"
      using Cons.prems(2) False longer_prefix [of s u "header_line h @ kCRLF" "header_text hs"] by (auto simp: kCRLF_def)
    have k: "std_search kCRLF s = Some (length (header_line h))" unfolding s by (rule std_search_kCRLF [OF cr])
    have colon: "std_find CHR '':'' (header_line h) \<noteq> length (header_line h)"
      unfolding std_find_eq_length by (simp add: header_line_def)
    let ?ctx = "ctx\<lparr>ctx_request := AddHeader (header_line h) (std_find CHR '':'' (header_line h)) (ctx_request ctx)\<rparr>"
    have "parse_content ok ctx s t = parse_content ok ?ctx s' t"
      unfolding parse_content.simps [of ok ctx] k option.case using Cons.prems(4) colon by (simp add: s take_drop_line)
    moreover from Cons.IH [of s' ?ctx] s' Cons.prems obtain ctx' hs' rest where "parse_content ok ?ctx s' t = (ok, ctx', rest)"
      "ctx_state ctx' = kExpectHeaders" "rest @ u = header_text hs'" "set hs' \<subseteq> set hs" by auto
    ultimately show ?thesis by auto
  qed
qed

text \<open>A header line, or the blank line, is not a request line.\<close>

lemma header_is_no_request:
  assumes "list_all wf_header hs" and "\<And>h. h \<in> set hs \<Longrightarrow> CHR '' '' \<notin> set (fst h)"
  shows "\<exists>ctx'. parse_content False HttpContext_new (header_text hs) t = (False, ctx', header_text hs) \<and> ctx_state ctx' = kExpectRequestLine"
proof -
  obtain line rest where lines: "header_text hs = line @ kCRLF @ rest" and cr: "CR \<notin> set line"
    and bad: "\<forall>r. \<not> fst (ProcessRequestLine line r)"
  proof (cases hs)
    case Nil
    then show ?thesis by (intro that [of "[]" "[]"]) (simp_all add: ProcessRequestLine_def std_find_def)
  next
    case (Cons h hs')
    have line: "header_line h = (fst h @ '':'') @ CHR '' '' # snd h" by (simp add: header_line_def)
    have "std_find CHR '' '' (header_line h) = length (fst h @ '':'')" unfolding line
      by (rule std_find_append) (use assms(2) [of h] Cons in auto)
    moreover have "method_of (fst h @ '':'') = kInvalid" by (auto simp: method_of_def append_eq_Cons_conv)
    ultimately have "\<not> fst (ProcessRequestLine (header_line h) r)" for r
      by (simp add: ProcessRequestLine_def SetMethod_def Let_def line)
    moreover have "CR \<notin> set (header_line h)" using assms(1) Cons by (simp add: wf_header_def header_line_def CR_def)
    ultimately show ?thesis using Cons by (intro that [of "header_line h" "header_text hs'"]) simp_all
  qed
  have k: "std_search kCRLF (line @ kCRLF @ rest) = Some (length line)" by (rule std_search_kCRLF [OF cr])
  show ?thesis
    unfolding lines parse_content.simps [of False HttpContext_new] k option.case take_drop_line using bad by (simp add: HttpContext_new_def)
qed

lemma OnMessage_of_parse:
  assumes "buffer_inv buf" and "parse_content False HttpContext_new (content buf) t = (ok, ctx, rest)"
  shows "\<exists>buf'. OnMessage enum http_callback buf t =
      (let calls = (if ok then [] else [Call_Send bad_request, Call_Shutdown])
       in Some (if GotAll ctx then bindr (OnRequest enum http_callback (ctx_request ctx)) (\<lambda>more. Inr (calls @ more, buf')) else Inr (calls, buf')))
    \<and> buffer_inv buf' \<and> content buf' = rest"
  using parse_loop_refines [OF assms(1), of HttpContext_new False t] assms(2)
  by (auto simp: OnMessage_def ParseRequest_def HttpContext_new_def Let_def)

section \<open>Properties\<close>

text \<open>
  One complete request gets one complete response: when the input holds a well-formed
  request, \<open>OnMessage\<close> sends exactly the text of the response the callback built (from a response
  that starts with \<open>Connection: close\<close>, whatever the request asked for), shuts the connection
  down if the response says so, and leaves the bytes behind the request unread.
\<close>
theorem OnMessage_answers_request:
  assumes "wf_request r" and "list_all wf_header hs"
    and "buffer_inv buf" and "content buf = request_text r hs @ rest"
    and "response = http_callback (r\<lparr>req_receive_time := t, req_headers := add_headers hs Map.empty\<rparr>) (HttpResponse_new True)"
    and "length (resp_body response) < 10 ^ 13"
    and "length (response_text (enum (resp_headers response)) response) < 2 ^ 31"
  shows "\<exists>buf'. OnMessage enum http_callback buf t =
      Some (Inr (Call_Send (response_text (enum (resp_headers response)) response)
        # (if resp_close_connection response then [Call_Shutdown] else []), buf'))
    \<and> content buf' = rest"
  using assms by (rule OnMessage_answers)

theorem OnMessage_answers_request_witness:
  "\<exists>buf'. OnMessage (enum_keys []) DefaultHttpCallback (buffer_of (request_text example_request [])) (Timestamp 0) =
      Some (Inr ([Call_Send (response_text [] (DefaultHttpCallback example_request (HttpResponse_new True))), Call_Shutdown], buf'))
    \<and> content buf' = []"
proof -
  let ?resp = "DefaultHttpCallback (example_request\<lparr>req_receive_time := Timestamp 0, req_headers := add_headers [] Map.empty\<rparr>)
    (HttpResponse_new True)"
  have b: "buffer_inv (buffer_of (request_text example_request []))"
    by (rule buffer_inv_buffer_of)
      (simp add: request_text_def request_line_def MethodString_def version_text_def example_request_def)
  have resp: "?resp = DefaultHttpCallback example_request (HttpResponse_new True)" "resp_close_connection ?resp" "resp_body ?resp = []"
    by (simp_all add: DefaultHttpCallback_def SetCloseConnection_def SetStatusMessage_def SetStatusCode_def HttpResponse_new_def)
  have "length (response_text (enum_keys [] (resp_headers ?resp)) ?resp) < 2 ^ 31"
    by (simp add: response_text_def status_line_def connection_lines_def enum_keys_def DefaultHttpCallback_def
        SetCloseConnection_def SetStatusMessage_def SetStatusCode_def HttpResponse_new_def show_int_def show_nat.simps)
  moreover have "wf_request example_request"
    by (simp add: wf_request_def example_request_def HttpRequest_new_def CR_def)
  ultimately show ?thesis
    using OnMessage_answers_request [OF _ _ b _ refl, of example_request "[]" "[]" DefaultHttpCallback "Timestamp 0" "enum_keys []"] resp
    by (simp add: enum_keys_def)
qed

text \<open>
  Property C29. A well-formed request that arrives in two reads is answered with 400, wherever it is cut. If the first piece ends
  inside the request line (or its line end), the first read answers 400 and shuts the connection down; the bytes stay in the buffer,
  so the second read finds the complete request and answers it on the connection that is already shut down. If the first piece
  holds the request line, it gets no answer: the parsed lines are consumed and forgotten, since each call parses with a new context, and
  the second read, which begins with a header or the blank line, answers 400 and shuts the connection down. The names of the headers
  contain no blank.
\<close>
theorem OnMessage_split_request:
  assumes "wf_request r" and "list_all wf_header hs" and "\<And>h. h \<in> set hs \<Longrightarrow> CHR '' '' \<notin> set (fst h)"
    and "request_text r hs = first @ second" and "second \<noteq> []"
    and "buffer_inv buf" and "content buf = first"
  shows "if length first < length (request_line r) + 2
    then (\<exists>buf'. OnMessage enum http_callback buf t = Some (Inr ([Call_Send bad_request, Call_Shutdown], buf')) \<and> content buf' = first
      \<and> (\<forall>buf2 t2. buffer_inv buf2 \<and> content buf2 = content buf' @ second \<longrightarrow> (\<exists>buf2'. content buf2' = []
          \<and> OnMessage enum http_callback buf2 t2 = Some (bindr (OnRequest enum http_callback
              (r\<lparr>req_receive_time := t2, req_headers := add_headers hs Map.empty\<rparr>)) (\<lambda>calls. Inr (calls, buf2'))))))
    else (\<exists>buf'. OnMessage enum http_callback buf t = Some (Inr ([], buf'))
      \<and> (\<forall>buf2 t2. buffer_inv buf2 \<and> content buf2 = content buf' @ second \<longrightarrow> (\<exists>buf2'. content buf2' = content buf2
          \<and> OnMessage enum http_callback buf2 t2 = Some (Inr ([Call_Send bad_request, Call_Shutdown], buf2')))))"
proof -
  have whole: "request_text r hs = request_line r @ kCRLF @ header_text hs" by (simp add: request_text_def header_text_def)
  have cr: "CR \<notin> set (request_line r)"
    using assms(1) MethodString_facts(2) version_text_facts(4) by (auto simp: request_line_def wf_request_def CR_def)
  show ?thesis
  proof (cases "length first < length (request_line r) + 2")
    case True
    have "std_search kCRLF first = None" using True assms(4) whole by (intro no_line_in_prefix [OF cr, of first second "header_text hs"]) simp_all
    then have "parse_content False HttpContext_new (content buf) t = (False, HttpContext_new, first)"
      using assms(7) by (simp add: parse_content.simps)
    from OnMessage_of_parse [OF assms(6) this] obtain buf' where
      "OnMessage enum http_callback buf t = Some (Inr ([Call_Send bad_request, Call_Shutdown], buf'))" and rest: "content buf' = first"
      by (auto simp: GotAll_def HttpContext_new_def)
    moreover have "\<exists>buf2'. content buf2' = [] \<and> OnMessage enum http_callback buf2 t2 = Some (bindr (OnRequest enum http_callback
        (r\<lparr>req_receive_time := t2, req_headers := add_headers hs Map.empty\<rparr>)) (\<lambda>calls. Inr (calls, buf2')))"
      if "buffer_inv buf2" "content buf2 = content buf' @ second" for buf2 t2
    proof -
      have "content buf2 = request_text r hs @ []" using that(2) rest assms(4) by simp
      then have "parse_content False HttpContext_new (content buf2) t2 = (True, \<lparr>ctx_state = kGotAll,
          ctx_request = r\<lparr>req_receive_time := t2, req_headers := add_headers hs Map.empty\<rparr>\<rparr>, [])"
        by (simp only: parse_request_text [OF assms(1,2)])
      from OnMessage_of_parse [OF that(1) this, of enum http_callback] show ?thesis by (auto simp: GotAll_def)
    qed
    ultimately show ?thesis using True by auto
  next
    case False
    obtain s where "first = (request_line r @ kCRLF) @ s" and s: "s @ second = header_text hs"
      by (rule longer_prefix [of first second "request_line r @ kCRLF" "header_text hs"]) (use assms(4) whole False in \<open>auto simp: kCRLF_def\<close>)
    then have first: "content buf = request_line r @ kCRLF @ s" by (simp add: assms(7))
    obtain ctx hs' rest where "parse_content False HttpContext_new (content buf) t = (True, ctx, rest)" "ctx_state ctx = kExpectHeaders"
      and rest: "rest @ second = header_text hs'" "set hs' \<subseteq> set hs"
      unfolding first parse_request_line [OF assms(1)]
      using parse_header_prefix [OF assms(2) s assms(5), of "\<lparr>ctx_state = kExpectHeaders,
          ctx_request = r\<lparr>req_receive_time := t, req_headers := Map.empty\<rparr>\<rparr>" True t] by auto
    with OnMessage_of_parse [OF assms(6) this(1), of enum http_callback] obtain buf' where
      "OnMessage enum http_callback buf t = Some (Inr ([], buf'))" and buf': "content buf' = rest"
      by (auto simp: GotAll_def)
    moreover have "\<exists>buf2'. content buf2' = content buf2
        \<and> OnMessage enum http_callback buf2 t2 = Some (Inr ([Call_Send bad_request, Call_Shutdown], buf2'))"
      if "buffer_inv buf2" "content buf2 = content buf' @ second" for buf2 t2
    proof -
      have c2: "content buf2 = rest @ second" using that(2) buf' by simp
      have "list_all wf_header hs'" using rest(2) assms(2) by (auto simp: list_all_iff)
      from header_is_no_request [OF this, of t2] assms(3) rest obtain ctx' where
        "parse_content False HttpContext_new (content buf2) t2 = (False, ctx', content buf2)" "ctx_state ctx' = kExpectRequestLine"
        by (auto simp: c2)
      with OnMessage_of_parse [OF that(1) this(1), of enum http_callback] show ?thesis by (auto simp: GotAll_def)
    qed
    ultimately show ?thesis using False by auto
  qed
qed

theorem OnMessage_split_request_witness:
  "\<exists>buf'. OnMessage (enum_keys []) DefaultHttpCallback (buffer_of (request_line example_request @ kCRLF @ ''Ho'')) (Timestamp 0)
        = Some (Inr ([], buf'))
    \<and> (\<forall>buf2 t2. buffer_inv buf2 \<and> content buf2 = content buf' @ ''st: h'' @ kCRLF @ kCRLF \<longrightarrow> (\<exists>buf2'. content buf2' = content buf2
        \<and> OnMessage (enum_keys []) DefaultHttpCallback buf2 t2 = Some (Inr ([Call_Send bad_request, Call_Shutdown], buf2'))))"
proof -
  have "buffer_inv (buffer_of (request_line example_request @ kCRLF @ ''Ho''))"
    by (rule buffer_inv_buffer_of, simp add: request_line_def MethodString_def version_text_def example_request_def)
  moreover have "wf_request example_request"
    by (simp add: wf_request_def example_request_def HttpRequest_new_def CR_def)
  moreover have "list_all wf_header [(''Host'', ''h'')]" by (simp add: wf_header_def CR_def trimmed_def isspace_def)
  moreover have "request_text example_request [(''Host'', ''h'')]
      = (request_line example_request @ kCRLF @ ''Ho'') @ ''st: h'' @ kCRLF @ kCRLF"
    by (simp add: request_text_def header_line_def)
  ultimately show ?thesis
    using OnMessage_split_request [of example_request "[(''Host'', ''h'')]" "request_line example_request @ kCRLF @ ''Ho''"
        "''st: h'' @ kCRLF @ kCRLF" "buffer_of (request_line example_request @ kCRLF @ ''Ho'')" "enum_keys []" DefaultHttpCallback "Timestamp 0"]
    by (simp add: kCRLF_def)
qed

end
