(* ===== verification/Channel.thy ===== *)
theory Channel
  imports Timestamp
begin

unbundle bit_operations_syntax

text \<open>
  \<open>net/channel.h\<close> and \<open>net/channel.cc\<close>: a file descriptor with the events its owner wants, the
  events the poller saw, and the four callbacks. Event masks are 32-bit words. Channels are shared
  by pointer between their owner and the poller, so they live in a store; a pointer is its address.
  \<open>Update\<close> and \<open>Remove\<close> go through the event loop to the poller's virtual functions, which are the
  arguments \<open>update\<close> and \<open>remove\<close> here.
\<close>

section \<open>Events\<close>

type_synonym events = "32 word"
type_synonym ptr = nat

definition EPOLLIN :: events where "EPOLLIN = 1"
definition EPOLLPRI :: events where "EPOLLPRI = 2"
definition EPOLLOUT :: events where "EPOLLOUT = 4"
definition EPOLLERR :: events where "EPOLLERR = 8"
definition EPOLLHUP :: events where "EPOLLHUP = 16"

definition kNoneEvent :: events where "kNoneEvent = 0"
definition kReadEvent :: events where "kReadEvent = EPOLLIN OR EPOLLPRI"
definition kWriteEvent :: events where "kWriteEvent = EPOLLOUT"

section \<open>Channels\<close>

record channel =
  ch_fd :: int
  ch_events :: events
  ch_revents :: events
  ch_index :: int
  ch_tie :: "ptr option"   \<comment> \<open>the object \<open>tie_\<close> refers to; \<open>Some\<close> when \<open>tied_\<close>\<close>

type_synonym store = "ptr \<Rightarrow> channel"

definition Channel_new :: "int \<Rightarrow> channel" where
  "Channel_new fd = \<lparr>ch_fd = fd, ch_events = 0, ch_revents = 0, ch_index = -1, ch_tie = None\<rparr>"

definition Channel_Tie :: "ptr \<Rightarrow> channel \<Rightarrow> channel" where
  "Channel_Tie obj c = c\<lparr>ch_tie := Some obj\<rparr>"

definition IsNoneEvent :: "channel \<Rightarrow> bool" where
  "IsNoneEvent c \<longleftrightarrow> ch_events c = kNoneEvent"

definition IsWriting :: "channel \<Rightarrow> bool" where
  "IsWriting c \<longleftrightarrow> ch_events c AND kWriteEvent \<noteq> 0"

definition IsReading :: "channel \<Rightarrow> bool" where
  "IsReading c \<longleftrightarrow> ch_events c AND kReadEvent \<noteq> 0"

text \<open>The event masks the five operations compute.\<close>

definition enable_reading :: "events \<Rightarrow> events" where "enable_reading ev = ev OR kReadEvent"
definition disable_reading :: "events \<Rightarrow> events" where "disable_reading ev = ev AND NOT kReadEvent"
definition enable_writing :: "events \<Rightarrow> events" where "enable_writing ev = ev OR kWriteEvent"
definition disable_writing :: "events \<Rightarrow> events" where "disable_writing ev = ev AND NOT kWriteEvent"
definition disable_all :: "events \<Rightarrow> events" where "disable_all ev = ev AND kNoneEvent"

definition set_events :: "ptr \<Rightarrow> events \<Rightarrow> store \<Rightarrow> store" where
  "set_events c ev st = st(c := (st c)\<lparr>ch_events := ev\<rparr>)"

definition set_index :: "ptr \<Rightarrow> int \<Rightarrow> store \<Rightarrow> store" where
  "set_index c i st = st(c := (st c)\<lparr>ch_index := i\<rparr>)"

definition set_revents :: "ptr \<Rightarrow> events \<Rightarrow> store \<Rightarrow> store" where
  "set_revents c ev st = st(c := (st c)\<lparr>ch_revents := ev\<rparr>)"

definition tie_at :: "ptr \<Rightarrow> ptr \<Rightarrow> store \<Rightarrow> store" where
  "tie_at c obj st = st(c := Channel_Tie obj (st c))"

text \<open>The public operations: change the mask, then \<open>Update()\<close>.\<close>

definition EnableReading :: "(ptr \<Rightarrow> store \<times> 'p \<Rightarrow> (store \<times> 'p) result) \<Rightarrow> ptr \<Rightarrow> store \<times> 'p \<Rightarrow> (store \<times> 'p) result" where
  "EnableReading update c s = update c (set_events c (enable_reading (ch_events (fst s c))) (fst s), snd s)"

definition DisableReading :: "(ptr \<Rightarrow> store \<times> 'p \<Rightarrow> (store \<times> 'p) result) \<Rightarrow> ptr \<Rightarrow> store \<times> 'p \<Rightarrow> (store \<times> 'p) result" where
  "DisableReading update c s = update c (set_events c (disable_reading (ch_events (fst s c))) (fst s), snd s)"

definition EnableWriting :: "(ptr \<Rightarrow> store \<times> 'p \<Rightarrow> (store \<times> 'p) result) \<Rightarrow> ptr \<Rightarrow> store \<times> 'p \<Rightarrow> (store \<times> 'p) result" where
  "EnableWriting update c s = update c (set_events c (enable_writing (ch_events (fst s c))) (fst s), snd s)"

definition DisableWriting :: "(ptr \<Rightarrow> store \<times> 'p \<Rightarrow> (store \<times> 'p) result) \<Rightarrow> ptr \<Rightarrow> store \<times> 'p \<Rightarrow> (store \<times> 'p) result" where
  "DisableWriting update c s = update c (set_events c (disable_writing (ch_events (fst s c))) (fst s), snd s)"

definition DisableAll :: "(ptr \<Rightarrow> store \<times> 'p \<Rightarrow> (store \<times> 'p) result) \<Rightarrow> ptr \<Rightarrow> store \<times> 'p \<Rightarrow> (store \<times> 'p) result" where
  "DisableAll update c s = update c (set_events c (disable_all (ch_events (fst s c))) (fst s), snd s)"

section \<open>Event dispatch\<close>

text \<open>
  The callbacks act on the state \<open>'s\<close> of the program; an unset \<open>std::function\<close> is \<open>None\<close>. No
  callback writes \<open>revents_\<close> (only the pollers do), so the mask tested is the one at the call.
\<close>

record 's callbacks =
  read_callback :: "(timestamp \<Rightarrow> 's \<Rightarrow> 's result) option"
  write_callback :: "('s \<Rightarrow> 's result) option"
  close_callback :: "('s \<Rightarrow> 's result) option"
  error_callback :: "('s \<Rightarrow> 's result) option"

definition call :: "('s \<Rightarrow> 's result) option \<Rightarrow> 's \<Rightarrow> 's result" where
  "call cb s = (case cb of None \<Rightarrow> Inr s | Some f \<Rightarrow> f s)"

definition HandleEventWithGuard :: "events \<Rightarrow> 's callbacks \<Rightarrow> timestamp \<Rightarrow> 's \<Rightarrow> 's result" where
  "HandleEventWithGuard revents cb receiveTime s =
     bindr (if revents AND EPOLLHUP \<noteq> 0 \<and> revents AND EPOLLIN = 0 then call (close_callback cb) s else Inr s) (\<lambda>s.
     bindr (if revents AND EPOLLERR \<noteq> 0 then call (error_callback cb) s else Inr s) (\<lambda>s.
     bindr (if revents AND (EPOLLIN OR EPOLLPRI) \<noteq> 0
            then call (map_option (\<lambda>f. f receiveTime) (read_callback cb)) s else Inr s) (\<lambda>s.
     if revents AND EPOLLOUT \<noteq> 0 then call (write_callback cb) s else Inr s)))"

text \<open>\<open>alive\<close> says whether the tied object still exists, that is, whether \<open>tie_.lock()\<close> succeeds.\<close>

definition HandleEvent :: "(ptr \<Rightarrow> bool) \<Rightarrow> channel \<Rightarrow> 's callbacks \<Rightarrow> timestamp \<Rightarrow> 's \<Rightarrow> 's result" where
  "HandleEvent alive c cb receiveTime s =
     (case ch_tie c of
        Some obj \<Rightarrow> if alive obj then HandleEventWithGuard (ch_revents c) cb receiveTime s else Inr s
      | None \<Rightarrow> HandleEventWithGuard (ch_revents c) cb receiveTime s)"

text \<open>The masks a channel can request: combinations of the read and the write events.\<close>

definition valid_events :: "events \<Rightarrow> bool" where
  "valid_events ev \<longleftrightarrow> ev \<in> {0, 3, 4, 7}"

section \<open>Lemmas\<close>

lemmas event_consts = EPOLLIN_def EPOLLPRI_def EPOLLOUT_def EPOLLERR_def EPOLLHUP_def
  kNoneEvent_def kReadEvent_def kWriteEvent_def

lemmas event_ops = enable_reading_def disable_reading_def enable_writing_def disable_writing_def disable_all_def

lemma valid_events_ops:
  "valid_events 0"
  "valid_events ev \<Longrightarrow> valid_events (enable_reading ev)"
  "valid_events ev \<Longrightarrow> valid_events (disable_reading ev)"
  "valid_events ev \<Longrightarrow> valid_events (enable_writing ev)"
  "valid_events ev \<Longrightarrow> valid_events (disable_writing ev)"
  "valid_events (disable_all ev)"
  by (auto simp: valid_events_def event_ops event_consts)

text \<open>Reading and writing interest are independent bits.\<close>

lemma interest_bits:
  assumes "valid_events ev"
  shows "enable_reading ev AND kReadEvent \<noteq> 0" "disable_reading ev AND kReadEvent = 0"
    and "enable_writing ev AND kWriteEvent \<noteq> 0" "disable_writing ev AND kWriteEvent = 0"
    and "enable_reading ev AND kWriteEvent = ev AND kWriteEvent" "disable_reading ev AND kWriteEvent = ev AND kWriteEvent"
    and "enable_writing ev AND kReadEvent = ev AND kReadEvent" "disable_writing ev AND kReadEvent = ev AND kReadEvent"
    and "disable_all ev = 0"
  using assms by (auto simp: valid_events_def event_ops event_consts)

lemma store_ops [simp]:
  "ch_fd (set_events c ev st d) = ch_fd (st d)" "ch_index (set_events c ev st d) = ch_index (st d)"
  "ch_events (set_events c ev st d) = (if d = c then ev else ch_events (st d))"
  "ch_fd (set_index c i st d) = ch_fd (st d)" "ch_events (set_index c i st d) = ch_events (st d)"
  "ch_index (set_index c i st d) = (if d = c then i else ch_index (st d))"
  "ch_fd (set_revents c r st d) = ch_fd (st d)" "ch_events (set_revents c r st d) = ch_events (st d)"
  "ch_index (set_revents c r st d) = ch_index (st d)"
  "ch_revents (set_revents c r st d) = (if d = c then r else ch_revents (st d))"
  by (simp_all add: set_events_def set_index_def set_revents_def)

lemma tie_at_simps [simp]:
  "ch_fd (tie_at c obj st d) = ch_fd (st d)" "ch_index (tie_at c obj st d) = ch_index (st d)"
  "ch_events (tie_at c obj st d) = ch_events (st d)"
  by (simp_all add: tie_at_def Channel_Tie_def)

end
