(* ===== verification/Timer_Queue.thy ===== *)
theory Timer_Queue
  imports Channel "HOL-Library.Product_Lexorder"
begin

text \<open>
  \<open>timer/timer.h\<close>, \<open>timer/timer.cc\<close>, \<open>timer/timer_queue.h\<close> and \<open>timer/timer_queue.cc\<close>: timers live on
  the heap; the queue holds a set of pairs of expiration and address, ordered by both (\<open>std::set\<close> is a
  strictly sorted list here), and arms one kernel timer for the earliest. The state contains the heap,
  the setting of the timerfd and the number of times the clock was read; \<open>clock k\<close> is the \<open>k\<close>-th answer
  of \<open>Timestamp::Now\<close>. Callbacks act on the queue and on the rest \<open>'w\<close> of the program.

  The locale \<open>timer_callbacks\<close> is what the queue relies on: a callback returns, keeps the queue
  well-formed and may add timers but cannot take any away (there is no cancellation). It is interpreted
  on callbacks that log their run and add timers.
\<close>

section \<open>Timers\<close>

record 'c timer =
  timer_callback :: 'c
  timer_expiration :: timestamp
  timer_interval :: rat
  timer_repeat :: bool

definition Timer_new :: "'c \<Rightarrow> timestamp \<Rightarrow> rat \<Rightarrow> 'c timer" where
  "Timer_new cb when interval =
     \<lparr>timer_callback = cb, timer_expiration = when, timer_interval = interval, timer_repeat = (interval > 0)\<rparr>"

definition Restart :: "(rat \<Rightarrow> rat) \<Rightarrow> timestamp \<Rightarrow> 'c timer \<Rightarrow> 'c timer" where
  "Restart rnd now t =
     (if timer_repeat t then t\<lparr>timer_expiration := AddTime rnd now (timer_interval t)\<rparr>
      else t\<lparr>timer_expiration := Timestamp_default\<rparr>)"

section \<open>The queue\<close>

type_synonym entry = "timestamp \<times> ptr"

record 'c timer_queue =
  timers :: "entry list"
  timer_heap :: "ptr \<rightharpoonup> 'c timer"
  next_addr :: ptr
  timerfd :: "(int \<times> int) option"   \<comment> \<open>the armed \<open>it_value\<close>: seconds and nanoseconds\<close>
  calling_expired_timers :: bool
  clock_reads :: nat

definition UINTPTR_MAX :: nat where "UINTPTR_MAX = 2 ^ 64 - 1"

definition TimerQueue_new :: "'c timer_queue" where
  "TimerQueue_new = \<lparr>timers = [], timer_heap = Map.empty, next_addr = 1, timerfd = None,
     calling_expired_timers = False, clock_reads = 0\<rparr>"

definition read_clock :: "(nat \<Rightarrow> timestamp) \<Rightarrow> 'c timer_queue \<Rightarrow> timestamp \<times> 'c timer_queue" where
  "read_clock clock q = (clock (clock_reads q), q\<lparr>clock_reads := Suc (clock_reads q)\<rparr>)"

text \<open>Insertion into a \<open>std::set\<close>.\<close>

definition set_insert :: "'a::linorder \<Rightarrow> 'a list \<Rightarrow> 'a list" where
  "set_insert x xs = (if x \<in> set xs then xs else insort x xs)"

definition Insert :: "ptr \<Rightarrow> 'c timer_queue \<Rightarrow> (bool \<times> 'c timer_queue) result" where
  "Insert p q =
     (case timer_heap q p of
        None \<Rightarrow> Inl Use_after_free
      | Some t \<Rightarrow>
          (let when = timer_expiration t;
               earliestChanged = (timers q = [] \<or> when < fst (hd (timers q)))
           in Inr (earliestChanged, q\<lparr>timers := set_insert (when, p) (timers q)\<rparr>)))"

text \<open>\<open>timerfd_settime\<close> rejects a nanosecond part outside of \<open>[0, 10^9)\<close> and a negative number of seconds.\<close>

definition timerfd_settime :: "int \<times> int \<Rightarrow> 'c timer_queue \<Rightarrow> 'c timer_queue" where
  "timerfd_settime ts q =
     (if fst ts < 0 \<or> snd ts < 0 \<or> snd ts \<ge> 10 ^ 9 then q
      else q\<lparr>timerfd := (if ts = (0, 0) then None else Some ts)\<rparr>)"

definition delay_spec :: "timestamp \<Rightarrow> timestamp \<Rightarrow> int \<times> int" where
  "delay_spec expiration now =
     (let dif = micro_seconds_since_epoch expiration - micro_seconds_since_epoch now;
          microSecondDif = (if dif < 100 then 100 else dif)
      in (microSecondDif div kMicroSecondsPerSecond, (microSecondDif mod kMicroSecondsPerSecond) * 1000))"

definition ResetTimerfd :: "(nat \<Rightarrow> timestamp) \<Rightarrow> timestamp \<Rightarrow> 'c timer_queue \<Rightarrow> 'c timer_queue" where
  "ResetTimerfd clock expiration q =
     (let (now, q) = read_clock clock q in timerfd_settime (delay_spec expiration now) q)"

definition AddTimerInLoop :: "(nat \<Rightarrow> timestamp) \<Rightarrow> ptr \<Rightarrow> 'c timer_queue \<Rightarrow> 'c timer_queue result" where
  "AddTimerInLoop clock p q =
     bindr (Insert p q) (\<lambda>(earliestChanged, q).
       if earliestChanged
       then (case timer_heap q p of None \<Rightarrow> Inl Use_after_free
             | Some t \<Rightarrow> Inr (ResetTimerfd clock (timer_expiration t) q))
       else Inr q)"

text \<open>\<open>new Timer\<close> takes an unused address.\<close>

definition new_timer :: "'c timer \<Rightarrow> 'c timer_queue \<Rightarrow> ptr \<times> 'c timer_queue" where
  "new_timer t q = (next_addr q, q\<lparr>timer_heap := (timer_heap q)(next_addr q \<mapsto> t), next_addr := Suc (next_addr q)\<rparr>)"

text \<open>\<open>run_in_loop\<close> is \<open>EventLoop::RunInLoop\<close>.\<close>

definition AddTimer ::
  "(('c timer_queue \<Rightarrow> 'c timer_queue result) \<Rightarrow> 'c timer_queue \<Rightarrow> 'c timer_queue result) \<Rightarrow> (nat \<Rightarrow> timestamp)
    \<Rightarrow> 'c \<Rightarrow> timestamp \<Rightarrow> rat \<Rightarrow> 'c timer_queue \<Rightarrow> 'c timer_queue result" where
  "AddTimer run_in_loop clock cb when interval q =
     (let (p, q) = new_timer (Timer_new cb when interval) q in run_in_loop (AddTimerInLoop clock p) q)"

definition GetExpired :: "timestamp \<Rightarrow> 'c timer_queue \<Rightarrow> entry list \<times> 'c timer_queue" where
  "GetExpired now q =
     (let before = (\<lambda>e. e < (now, UINTPTR_MAX))
      in (takeWhile before (timers q), q\<lparr>timers := dropWhile before (timers q)\<rparr>))"

definition rearm :: "(nat \<Rightarrow> timestamp) \<Rightarrow> 'c timer_queue \<Rightarrow> 'c timer_queue result" where
  "rearm clock q =
     (if timers q = [] then Inr q
      else (case timer_heap q (snd (hd (timers q))) of
              None \<Rightarrow> Inl Use_after_free
            | Some t \<Rightarrow> Inr (ResetTimerfd clock (timer_expiration t) q)))"

definition reset_step :: "(rat \<Rightarrow> rat) \<Rightarrow> (nat \<Rightarrow> timestamp) \<Rightarrow> 'c timer_queue \<Rightarrow> entry \<Rightarrow> 'c timer_queue result" where
  "reset_step rnd clock q it =
     bindr (case timer_heap q (snd it) of
              None \<Rightarrow> Inl Use_after_free
            | Some t \<Rightarrow>
                if timer_repeat t
                then (let (now, q) = read_clock clock q
                      in bindr (Insert (snd it) (q\<lparr>timer_heap := (timer_heap q)(snd it \<mapsto> Restart rnd now t)\<rparr>))
                           (\<lambda>r. Inr (snd r)))
                else Inr (q\<lparr>timer_heap := (timer_heap q)(snd it := None)\<rparr>))
       (rearm clock)"

definition Reset :: "(rat \<Rightarrow> rat) \<Rightarrow> (nat \<Rightarrow> timestamp) \<Rightarrow> entry list \<Rightarrow> 'c timer_queue \<Rightarrow> 'c timer_queue result" where
  "Reset rnd clock expired q = foldr_result (reset_step rnd clock) q expired"

definition run_timer :: "('c \<Rightarrow> 'c timer_queue \<times> 'w \<Rightarrow> ('c timer_queue \<times> 'w) result)
    \<Rightarrow> 'c timer_queue \<times> 'w \<Rightarrow> entry \<Rightarrow> ('c timer_queue \<times> 'w) result" where
  "run_timer run s it =
     (case timer_heap (fst s) (snd it) of None \<Rightarrow> Inl Use_after_free | Some t \<Rightarrow> run (timer_callback t) s)"

definition TimerQueue_HandleRead ::
  "(rat \<Rightarrow> rat) \<Rightarrow> (nat \<Rightarrow> timestamp) \<Rightarrow> ('c \<Rightarrow> 'c timer_queue \<times> 'w \<Rightarrow> ('c timer_queue \<times> 'w) result)
    \<Rightarrow> 'c timer_queue \<times> 'w \<Rightarrow> ('c timer_queue \<times> 'w) result" where
  "TimerQueue_HandleRead rnd clock run s =
     (let (now, q) = read_clock clock (fst s);
          (expired, q) = GetExpired now q
      in bindr (foldr_result (run_timer run) (q\<lparr>calling_expired_timers := True\<rparr>, snd s) expired) (\<lambda>(q, w).
         bindr (Reset rnd clock expired (q\<lparr>calling_expired_timers := False\<rparr>)) (\<lambda>q. Inr (q, w))))"

text \<open>\<open>~TimerQueue\<close> frees the timers it still holds.\<close>

definition delete_timers :: "'c timer_queue \<Rightarrow> 'c timer_queue" where
  "delete_timers q = fold (\<lambda>e q. q\<lparr>timer_heap := (timer_heap q)(snd e := None)\<rparr>) (timers q) q"

section \<open>Well-formed queues\<close>

text \<open>
  The list is strictly sorted, every entry's timer is allocated and expires when the entry says, and the
  heap holds no other timers than those in the queue and those of \<open>pend\<close>, the ones being processed.
\<close>

definition tq_inv :: "'c timer_queue \<Rightarrow> entry list \<Rightarrow> bool" where
  "tq_inv q pend \<longleftrightarrow>
     sorted_wrt (<) (timers q)
     \<and> (\<forall>e\<in>set (timers q). map_option timer_expiration (timer_heap q (snd e)) = Some (fst e))
     \<and> distinct (map snd (timers q @ pend))
     \<and> dom (timer_heap q) = snd ` set (timers q @ pend)
     \<and> (\<forall>p\<in>dom (timer_heap q). p < next_addr q)"

text \<open>The timerfd is set for the earliest timer, relative to some earlier reading of the clock.\<close>

definition armed_for_earliest :: "(nat \<Rightarrow> timestamp) \<Rightarrow> 'c timer_queue \<Rightarrow> bool" where
  "armed_for_earliest clock q \<longleftrightarrow>
     (timers q \<noteq> [] \<longrightarrow> (\<exists>k < clock_reads q. timerfd q = Some (delay_spec (fst (hd (timers q))) (clock k))))"

section \<open>Lemmas\<close>

lemma set_set_insert [simp]: "set (set_insert x xs) = insert x (set xs)"
  by (auto simp: set_insert_def set_insort_key)

lemma sorted_set_insert: "sorted_wrt (<) xs \<Longrightarrow> sorted_wrt (<) (set_insert x xs)"
  by (auto simp: set_insert_def strict_sorted_iff sorted_insort distinct_insort)

lemma set_insert_nonempty [simp]: "set_insert x xs \<noteq> []"
  by (metis empty_iff empty_set insertI1 set_set_insert)

lemma sorted_hd_least: "sorted_wrt (<) xs \<Longrightarrow> x \<in> set xs \<Longrightarrow> hd xs \<le> x" for x :: "'a::linorder"
  by (cases xs) auto

text \<open>The delay is at least 100 microseconds, so the kernel always accepts and never disarms.\<close>

lemma delay_spec_valid:
  assumes "delay_spec e now = (sec, nsec)"
  shows "0 \<le> sec" "0 \<le> nsec" "nsec < 10 ^ 9" "(sec, nsec) \<noteq> (0, 0)"
    "sec * 10 ^ 6 + nsec div 1000 = max 100 (micro_seconds_since_epoch e - micro_seconds_since_epoch now)"
proof -
  define d where "d = max 100 (micro_seconds_since_epoch e - micro_seconds_since_epoch now)"
  have d: "100 \<le> d" by (simp add: d_def)
  have "delay_spec e now = (d div 1000000, d mod 1000000 * 1000)"
    by (simp add: delay_spec_def d_def kMicroSecondsPerSecond_def Let_def max_def)
  then have eq: "sec = d div 1000000" "nsec = d mod 1000000 * 1000" using assms by auto
  have m: "0 \<le> d mod 1000000" "d mod 1000000 < 1000000" by simp_all
  show "0 \<le> sec" using d by (simp add: eq pos_imp_zdiv_nonneg_iff)
  show "0 \<le> nsec" "nsec < 10 ^ 9" using m by (simp_all add: eq)
  show all: "sec * 10 ^ 6 + nsec div 1000 = d" by (simp add: eq)
  show "(sec, nsec) \<noteq> (0, 0)" using all d by auto
qed

lemma ResetTimerfd_eq:
  "ResetTimerfd clock e q = q\<lparr>clock_reads := Suc (clock_reads q), timerfd := Some (delay_spec e (clock (clock_reads q)))\<rparr>"
proof -
  obtain sec nsec where ds: "delay_spec e (clock (clock_reads q)) = (sec, nsec)" by (cases "delay_spec e (clock (clock_reads q))")
  have "\<not> sec < 0" "\<not> nsec < 0" "\<not> nsec \<ge> 10 ^ 9" "(sec, nsec) \<noteq> (0, 0)"
    using delay_spec_valid [OF ds] by (simp_all add: not_less not_le)
  then show ?thesis unfolding ResetTimerfd_def read_clock_def timerfd_settime_def by (simp add: ds)
qed

lemma tq_invD:
  assumes "tq_inv q pend"
  shows "sorted_wrt (<) (timers q)" "distinct (map snd (timers q @ pend))"
    "dom (timer_heap q) = snd ` set (timers q @ pend)" "\<And>p. p \<in> dom (timer_heap q) \<Longrightarrow> p < next_addr q"
    "\<And>e. e \<in> set (timers q) \<Longrightarrow> map_option timer_expiration (timer_heap q (snd e)) = Some (fst e)"
  using assms by (simp_all add: tq_inv_def)

lemma tq_invI:
  assumes "sorted_wrt (<) (timers q)" "distinct (map snd (timers q @ pend))"
    "dom (timer_heap q) = snd ` set (timers q @ pend)" "\<And>p. p \<in> dom (timer_heap q) \<Longrightarrow> p < next_addr q"
    "\<And>e. e \<in> set (timers q) \<Longrightarrow> map_option timer_expiration (timer_heap q (snd e)) = Some (fst e)"
  shows "tq_inv q pend"
  using assms by (simp add: tq_inv_def)

lemma tq_inv_update [simp]:
  "tq_inv (q\<lparr>clock_reads := n\<rparr>) pend = tq_inv q pend"
  "tq_inv (q\<lparr>timerfd := f\<rparr>) pend = tq_inv q pend"
  "tq_inv (q\<lparr>calling_expired_timers := b\<rparr>) pend = tq_inv q pend"
  by (simp_all add: tq_inv_def)

text \<open>Inserting a timer that is being processed.\<close>

lemma Insert_ok:
  assumes inv: "tq_inv q ((t0, p) # pend)" and t: "timer_heap q p = Some t"
  shows "Insert p q = Inr (timers q = [] \<or> timer_expiration t < fst (hd (timers q)),
      q\<lparr>timers := set_insert (timer_expiration t, p) (timers q)\<rparr>)"
    and "tq_inv (q\<lparr>timers := set_insert (timer_expiration t, p) (timers q)\<rparr>) pend"
proof -
  show "Insert p q = Inr (timers q = [] \<or> timer_expiration t < fst (hd (timers q)),
      q\<lparr>timers := set_insert (timer_expiration t, p) (timers q)\<rparr>)"
    using t by (simp add: Insert_def Let_def)
  note D = tq_invD [OF inv]
  have p: "p \<notin> snd ` set (timers q)" "p \<notin> snd ` set pend" using D(2) by auto
  then have notin: "(timer_expiration t, p) \<notin> set (timers q)" by force
  have "distinct (timers q)" using D(2) by (simp add: distinct_map)
  then have "distinct (map snd (insort (timer_expiration t, p) (timers q)))"
    using D(2) p(1) by (simp add: distinct_map set_insort_key distinct_insort notin)
  then have dist: "distinct (map snd (set_insert (timer_expiration t, p) (timers q) @ pend))"
    using D(2) p notin by (auto simp: set_insert_def set_insort_key)
  show "tq_inv (q\<lparr>timers := set_insert (timer_expiration t, p) (timers q)\<rparr>) pend"
    by (rule tq_invI) (use D t dist in \<open>auto simp: sorted_set_insert\<close>)
qed

text \<open>Changing the timer being processed, and freeing it.\<close>

lemma tq_inv_restart:
  assumes inv: "tq_inv q ((t0, p) # pend)"
  shows "tq_inv (q\<lparr>timer_heap := (timer_heap q)(p \<mapsto> t)\<rparr>) ((t0, p) # pend)"
proof -
  note D = tq_invD [OF inv]
  have p: "p \<notin> snd ` set (timers q)" "p \<in> dom (timer_heap q)" using D(2) by (auto simp: D(3))
  show ?thesis
  proof (rule tq_invI)
    show "dom (timer_heap (q\<lparr>timer_heap := (timer_heap q)(p \<mapsto> t)\<rparr>))
        = snd ` set (timers (q\<lparr>timer_heap := (timer_heap q)(p \<mapsto> t)\<rparr>) @ (t0, p) # pend)"
      using p(2) D(3) by (simp add: insert_absorb)
  qed (use D p in auto)
qed

lemma tq_inv_delete:
  assumes inv: "tq_inv q ((t0, p) # pend)"
  shows "tq_inv (q\<lparr>timer_heap := (timer_heap q)(p := None)\<rparr>) pend"
proof -
  note D = tq_invD [OF inv]
  have p: "p \<notin> snd ` set (timers q)" "p \<notin> snd ` set pend" using D(2) by auto
  have dom: "dom (timer_heap q) = insert p (snd ` set (timers q @ pend))" using D(3) by simp
  show ?thesis
  proof (rule tq_invI)
    show "dom (timer_heap (q\<lparr>timer_heap := (timer_heap q)(p := None)\<rparr>))
        = snd ` set (timers (q\<lparr>timer_heap := (timer_heap q)(p := None)\<rparr>) @ pend)"
      using p by (auto simp: dom image_Un)
  qed (use D p in auto)
qed

lemma tq_inv_new:
  assumes inv: "tq_inv q pend"
  shows "tq_inv (snd (new_timer t q)) ((t0, next_addr q) # pend)"
proof -
  note D = tq_invD [OF inv]
  have "next_addr q \<notin> dom (timer_heap q)" using D(4) by blast
  then have p: "next_addr q \<notin> snd ` set (timers q)" "next_addr q \<notin> snd ` set pend" by (auto simp: D(3) image_Un)
  show ?thesis
  proof (rule tq_invI)
    show "dom (timer_heap (snd (new_timer t q))) = snd ` set (timers (snd (new_timer t q)) @ (t0, next_addr q) # pend)"
      using D(3) by (simp add: new_timer_def)
    show "a < next_addr (snd (new_timer t q))" if "a \<in> dom (timer_heap (snd (new_timer t q)))" for a
      using that D(4) [of a, unfolded domIff] by (auto simp: new_timer_def less_Suc_eq split: if_splits)
    show "map_option timer_expiration (timer_heap (snd (new_timer t q)) (snd e)) = Some (fst e)"
      if "e \<in> set (timers (snd (new_timer t q)))" for e
    proof -
      have e: "e \<in> set (timers q)" using that by (simp add: new_timer_def)
      with p(1) have "snd e \<noteq> next_addr q" by force
      with D(5) [OF e] show ?thesis by (simp add: new_timer_def)
    qed
  qed (use D(1,2) p in \<open>simp_all add: new_timer_def\<close>)
qed

text \<open>What a step may do to a queue: it adds timers, and leaves alone the ones allocated before.\<close>

definition grows :: "'c timer_queue \<Rightarrow> 'c timer_queue \<Rightarrow> bool" where
  "grows q q' \<longleftrightarrow> set (timers q) \<subseteq> set (timers q') \<and> (\<forall>a\<in>dom (timer_heap q). timer_heap q' a = timer_heap q a)
     \<and> clock_reads q \<le> clock_reads q'"

lemma grows_trans: "grows q1 q2 \<Longrightarrow> grows q2 q3 \<Longrightarrow> grows q1 q3"
  by (fastforce simp: grows_def dom_def)

lemma grows_refl [simp]: "grows q q"
  by (simp add: grows_def)

lemma hd_set_insert:
  assumes "sorted_wrt (<) ts"
  shows "fst (hd (set_insert (w, p) ts)) = (if ts = [] \<or> w < fst (hd ts) then w else fst (hd ts))"
proof (cases ts)
  case (Cons a as)
  then have "w < fst a \<Longrightarrow> (w, p) \<notin> set ts" using sorted_hd_least [OF assms, of "(w, p)"] by (auto simp: less_eq_prod_def)
  with Cons show ?thesis by (auto simp: set_insert_def less_eq_prod_def)
qed (simp add: set_insert_def)

lemma AddTimer_ok:
  assumes inv: "tq_inv q pend"
  shows "\<exists>q'. AddTimer (\<lambda>f. f) clock cb when interval q = Inr q' \<and> tq_inv q' pend \<and> grows q q'
    \<and> timer_heap q' (next_addr q) = Some (Timer_new cb when interval) \<and> (when, next_addr q) \<in> set (timers q')
    \<and> (armed_for_earliest clock q \<longrightarrow> armed_for_earliest clock q')"
proof -
  define q1 where "q1 = snd (new_timer (Timer_new cb when interval) q)"
  define q2 where "q2 = q1\<lparr>timers := set_insert (when, next_addr q) (timers q1)\<rparr>"
  have t: "timer_heap q1 (next_addr q) = Some (Timer_new cb when interval)" by (simp add: q1_def new_timer_def)
  have e: "timer_expiration (Timer_new cb when interval) = when" by (simp add: Timer_new_def)
  have "tq_inv q1 ((when, next_addr q) # pend)" unfolding q1_def by (rule tq_inv_new [OF inv])
  from Insert_ok [OF this t] have ins: "Insert (next_addr q) q1 = Inr (timers q1 = [] \<or> when < fst (hd (timers q1)), q2)"
    and inv2: "tq_inv q2 pend" by (simp_all add: e q2_def)
  have "next_addr q \<notin> dom (timer_heap q)" using tq_invD(4) [OF inv] by blast
  then have "grows q q2" by (auto simp: grows_def q2_def q1_def new_timer_def)
  moreover have "AddTimer (\<lambda>f. f) clock cb when interval q = Inr (if timers q1 = [] \<or> when < fst (hd (timers q1)) then ResetTimerfd clock when q2 else q2)"
    using ins t e by (simp add: AddTimer_def AddTimerInLoop_def q1_def q2_def new_timer_def)
  moreover have "fst (hd (timers q2)) = (if timers q1 = [] \<or> when < fst (hd (timers q1)) then when else fst (hd (timers q1)))"
    using hd_set_insert [OF tq_invD(1) [OF inv]] by (simp add: q2_def q1_def new_timer_def)
  moreover have "timers q1 = timers q" "timerfd q2 = timerfd q" "clock_reads q2 = clock_reads q"
    by (simp_all add: q2_def q1_def new_timer_def)
  ultimately show ?thesis using inv2 t
    by (auto simp: ResetTimerfd_eq grows_def armed_for_earliest_def q2_def)
qed

text \<open>The due entries come off the front of the list.\<close>

lemma GetExpired_split:
  assumes "GetExpired now q = (expired, q')"
  shows "timers q = expired @ timers q'" "q' = q\<lparr>timers := timers q'\<rparr>" "\<forall>e\<in>set expired. e < (now, UINTPTR_MAX)"
  using assms set_takeWhileD by (fastforce simp: GetExpired_def Let_def)+

lemma GetExpired_rest:
  assumes "GetExpired now q = (expired, q')" and "sorted_wrt (<) (timers q)" and "e \<in> set (timers q')"
  shows "(now, UINTPTR_MAX) \<le> e"
proof -
  have q': "timers q' = dropWhile (\<lambda>e. e < (now, UINTPTR_MAX)) (timers q)"
    using assms(1) by (auto simp: GetExpired_def Let_def)
  have "timers q' \<noteq> []" using assms(3) by (cases "timers q'") simp_all
  then have "\<not> hd (timers q') < (now, UINTPTR_MAX)" unfolding q' by (rule hd_dropWhile)
  moreover have "sorted_wrt (<) (timers q')" unfolding q' using assms(2) by (simp add: sorted_wrt_dropWhile)
  ultimately show ?thesis using sorted_hd_least [OF _ assms(3)] by (meson not_le_imp_less order_trans)
qed

lemma GetExpired_inv:
  assumes ge: "GetExpired now q = (expired, q')" and inv: "tq_inv q []"
  shows "tq_inv q' expired"
proof -
  note S = GetExpired_split [OF ge] and D = tq_invD [OF inv]
  have same: "timer_heap q' = timer_heap q" "next_addr q' = next_addr q" by (subst S(2), simp)+
  show ?thesis
  proof (rule tq_invI)
    show "sorted_wrt (<) (timers q')" using D(1) by (simp add: S(1) sorted_wrt_append)
    show "distinct (map snd (timers q' @ expired))" using D(2) by (auto simp: S(1))
    show "dom (timer_heap q') = snd ` set (timers q' @ expired)" using D(3) by (simp add: same S(1) Un_commute)
  qed (use D in \<open>simp_all add: same S(1)\<close>)
qed

text \<open>One round of \<open>Reset\<close>.\<close>

lemma rearm_ok:
  assumes inv: "tq_inv q pend"
  shows "\<exists>q'. rearm clock q = Inr q'
    \<and> tq_inv q' pend \<and> timers q' = timers q \<and> timer_heap q' = timer_heap q \<and> clock_reads q \<le> clock_reads q'
    \<and> armed_for_earliest clock q'"
proof (cases "timers q = []")
  case False
  then have "map_option timer_expiration (timer_heap q (snd (hd (timers q)))) = Some (fst (hd (timers q)))"
    by (intro tq_invD(5) [OF inv]) simp
  then obtain t where "timer_heap q (snd (hd (timers q))) = Some t" "timer_expiration t = fst (hd (timers q))" by auto
  with False inv show ?thesis by (auto simp: rearm_def ResetTimerfd_eq armed_for_earliest_def)
qed (use inv in \<open>simp add: rearm_def armed_for_earliest_def\<close>)

lemma reset_step_ok:
  assumes inv: "tq_inv q (it # pend)"
  shows "\<exists>q'. reset_step rnd clock q it = Inr q' \<and> tq_inv q' pend \<and> armed_for_earliest clock q'
    \<and> set (timers q) \<subseteq> set (timers q') \<and> (\<forall>a. a \<noteq> snd it \<longrightarrow> timer_heap q' a = timer_heap q a)
    \<and> (\<forall>t. timer_heap q (snd it) = Some t \<longrightarrow>
         (if timer_repeat t then \<exists>k. timer_heap q' (snd it) = Some (Restart rnd (clock k) t)
            \<and> (AddTime rnd (clock k) (timer_interval t), snd it) \<in> set (timers q')
          else timer_heap q' (snd it) = None))"
proof -
  obtain t0 p where it: "it = (t0, p)" by (cases it)
  note inv = inv [unfolded it]
  have "p \<in> dom (timer_heap q)" using tq_invD(3) [OF inv] by simp
  then obtain t where t: "timer_heap q p = Some t" by blast
  show ?thesis
  proof (cases "timer_repeat t")
    case True
    define n where "n = clock_reads q"
    let ?t = "Restart rnd (clock n) t"
    let ?q1 = "(q\<lparr>clock_reads := Suc n\<rparr>)\<lparr>timer_heap := (timer_heap q)(p \<mapsto> ?t)\<rparr>"
    let ?q2 = "?q1\<lparr>timers := set_insert (timer_expiration ?t, p) (timers q)\<rparr>"
    have "tq_inv ?q1 ((t0, p) # pend)"
      using tq_inv_restart [of "q\<lparr>clock_reads := Suc n\<rparr>" t0 p pend ?t] inv by simp
    from Insert_ok [OF this, of ?t] have ins: "\<exists>b. Insert p ?q1 = Inr (b, ?q2)" and inv2: "tq_inv ?q2 pend" by simp_all
    from rearm_ok [OF inv2, of clock] ins obtain q' where "reset_step rnd clock q it = Inr q'"
      "tq_inv q' pend" "timers q' = timers ?q2" "timer_heap q' = timer_heap ?q2" "armed_for_earliest clock q'"
      using t True by (auto simp: it reset_step_def read_clock_def n_def)
    moreover have "timer_expiration ?t = AddTime rnd (clock n) (timer_interval t)" using True by (simp add: Restart_def)
    ultimately show ?thesis using t True it by auto
  next
    case False
    let ?q2 = "q\<lparr>timer_heap := (timer_heap q)(p := None)\<rparr>"
    from rearm_ok [OF tq_inv_delete [OF inv], of clock] obtain q' where "reset_step rnd clock q it = Inr q'"
      "tq_inv q' pend" "timers q' = timers ?q2" "timer_heap q' = timer_heap ?q2" "armed_for_earliest clock q'"
      using t False by (auto simp: it reset_step_def)
    then show ?thesis using t False it by auto
  qed
qed

definition reset_result :: "(rat \<Rightarrow> rat) \<Rightarrow> (nat \<Rightarrow> timestamp) \<Rightarrow> 'c timer_queue \<Rightarrow> 'c timer_queue \<Rightarrow> entry \<Rightarrow> bool" where
  "reset_result rnd clock q q' it \<longleftrightarrow>
     (\<forall>t. timer_heap q (snd it) = Some t \<longrightarrow>
        (if timer_repeat t then \<exists>k. timer_heap q' (snd it) = Some (Restart rnd (clock k) t)
            \<and> (AddTime rnd (clock k) (timer_interval t), snd it) \<in> set (timers q')
         else timer_heap q' (snd it) = None))"

lemma reset_result_frame:
  assumes "reset_result rnd clock q q1 it" and "timer_heap q2 (snd it) = timer_heap q1 (snd it)"
    and "set (timers q1) \<subseteq> set (timers q2)"
  shows "reset_result rnd clock q q2 it"
  using assms unfolding reset_result_def by (metis subsetD)

lemma Reset_ok:
  assumes "tq_inv q expired"
  shows "\<exists>q'. Reset rnd clock expired q = Inr q' \<and> tq_inv q' [] \<and> set (timers q) \<subseteq> set (timers q')
    \<and> (\<forall>a. a \<notin> snd ` set expired \<longrightarrow> timer_heap q' a = timer_heap q a)
    \<and> (expired \<noteq> [] \<longrightarrow> armed_for_earliest clock q')
    \<and> (\<forall>it\<in>set expired. reset_result rnd clock q q' it)"
  using assms
proof (induction expired arbitrary: q)
  case Nil
  then show ?case by (simp add: Reset_def)
next
  case (Cons it es)
  from reset_step_ok [OF Cons.prems, of rnd clock] obtain q1 where q1: "reset_step rnd clock q it = Inr q1"
    and inv1: "tq_inv q1 es" and arm: "armed_for_earliest clock q1"
    and sub: "set (timers q) \<subseteq> set (timers q1)"
    and heap: "\<And>a. a \<noteq> snd it \<Longrightarrow> timer_heap q1 a = timer_heap q a" and res: "reset_result rnd clock q q1 it"
    unfolding reset_result_def by blast
  from Cons.IH [OF inv1] obtain q' where q': "Reset rnd clock es q1 = Inr q'" and inv': "tq_inv q' []"
    and sub': "set (timers q1) \<subseteq> set (timers q')"
    and heap': "\<And>a. a \<notin> snd ` set es \<Longrightarrow> timer_heap q' a = timer_heap q1 a"
    and arm': "es \<noteq> [] \<longrightarrow> armed_for_earliest clock q'" and res': "\<forall>e\<in>set es. reset_result rnd clock q1 q' e"
    by blast
  have it: "snd it \<notin> snd ` set es" using tq_invD(2) [OF Cons.prems] by auto
  have run: "Reset rnd clock (it # es) q = Inr q'" using q1 q' by (simp add: Reset_def)
  have "reset_result rnd clock q q' it" by (rule reset_result_frame [OF res heap' [OF it] sub'])
  moreover have "reset_result rnd clock q q' e" if "e \<in> set es" for e
  proof -
    have "snd e \<noteq> snd it" using it that by (metis image_eqI)
    then show ?thesis using res' that by (simp add: reset_result_def heap)
  qed
  moreover have "armed_for_earliest clock q'"
    using arm arm' q' by (cases es) (auto simp: Reset_def)
  ultimately show ?case using run inv' sub sub' heap heap' by auto
qed

section \<open>Callbacks\<close>

locale timer_callbacks =
  fixes run :: "'c \<Rightarrow> 'c timer_queue \<times> 'w \<Rightarrow> ('c timer_queue \<times> 'w) result"
  assumes run_ok: "tq_inv q pend \<Longrightarrow> \<exists>q' w'. run c (q, w) = Inr (q', w') \<and> tq_inv q' pend \<and> grows q q'"
begin

lemma run_all:
  assumes "tq_inv q pend" and "snd ` set es \<subseteq> dom (timer_heap q)"
  shows "\<exists>q' w'. foldr_result (run_timer run) (q, w) es = Inr (q', w') \<and> tq_inv q' pend \<and> grows q q'"
  using assms
proof (induction es arbitrary: q w)
  case (Cons e es)
  from Cons.prems(2) obtain t where t: "timer_heap q (snd e) = Some t" by auto
  from run_ok [OF Cons.prems(1)] obtain q1 w1 where r: "run (timer_callback t) (q, w) = Inr (q1, w1)"
    and inv1: "tq_inv q1 pend" and g1: "grows q q1" by blast
  have "snd ` set es \<subseteq> dom (timer_heap q1)" using Cons.prems(2) g1 by (fastforce simp: grows_def dom_def)
  from Cons.IH [OF inv1 this] obtain q' w' where "foldr_result (run_timer run) (q1, w1) es = Inr (q', w')"
    "tq_inv q' pend" "grows q1 q'" by blast
  moreover have "run_timer run (q, w) e = Inr (q1, w1)" using t r by (simp add: run_timer_def)
  ultimately show ?case using g1 by (auto intro: grows_trans)
qed (use assms in simp)

text \<open>
  The handler of the timerfd: no use after free, the due timers are freed or rescheduled, the others are
  untouched, and the kernel timer is set for the earliest one whenever some timer was due.
\<close>

lemma handle_read:
  assumes inv: "tq_inv q []" and ge: "GetExpired (clock (clock_reads q)) q = (expired, q0)"
  shows "\<exists>q1 w1 q'. foldr_result (run_timer run) (q0\<lparr>clock_reads := Suc (clock_reads q), calling_expired_timers := True\<rparr>, w) expired = Inr (q1, w1)
    \<and> TimerQueue_HandleRead rnd clock run (q, w) = Inr (q', w1) \<and> tq_inv q' []
    \<and> (\<forall>e\<in>set (timers q0). e \<in> set (timers q') \<and> timer_heap q' (snd e) = timer_heap q (snd e))
    \<and> (\<forall>e\<in>set expired. reset_result rnd clock q q' e)
    \<and> (expired \<noteq> [] \<longrightarrow> armed_for_earliest clock q')"
proof -
  note S = GetExpired_split [OF ge]
  have inv0: "tq_inv q0 expired" by (rule GetExpired_inv [OF ge inv])
  have heap0: "timer_heap q0 = timer_heap q" by (subst S(2), simp)
  let ?q0 = "q0\<lparr>clock_reads := Suc (clock_reads q), calling_expired_timers := True\<rparr>"
  have "snd ` set expired \<subseteq> dom (timer_heap ?q0)" using tq_invD(3) [OF inv0] by auto
  from run_all [of ?q0 expired expired w, OF _ this] obtain q1 w1
    where r: "foldr_result (run_timer run) (?q0, w) expired = Inr (q1, w1)" and inv1: "tq_inv q1 expired" and g: "grows ?q0 q1"
    using inv0 by auto
  let ?q1 = "q1\<lparr>calling_expired_timers := False\<rparr>"
  from Reset_ok [of ?q1 expired rnd clock] inv1 obtain q' where rs: "Reset rnd clock expired ?q1 = Inr q'" and inv': "tq_inv q' []"
    and sub: "set (timers q1) \<subseteq> set (timers q')" and heap: "\<forall>a. a \<notin> snd ` set expired \<longrightarrow> timer_heap q' a = timer_heap q1 a"
    and arm: "expired \<noteq> [] \<longrightarrow> armed_for_earliest clock q'" and res: "\<forall>it\<in>set expired. reset_result rnd clock ?q1 q' it"
    by auto
  have "GetExpired (clock (clock_reads q)) (q\<lparr>clock_reads := Suc (clock_reads q)\<rparr>) = (expired, q0\<lparr>clock_reads := Suc (clock_reads q)\<rparr>)"
    using ge by (auto simp: GetExpired_def Let_def)
  with r rs have run: "TimerQueue_HandleRead rnd clock run (q, w) = Inr (q', w1)"
    by (simp add: TimerQueue_HandleRead_def read_clock_def)
  have dom0: "dom (timer_heap q) = snd ` set (timers q0 @ expired)" using tq_invD(3) [OF inv0] by (simp add: heap0)
  have same: "timer_heap q1 a = timer_heap q a" if "a \<in> snd ` set (timers q0 @ expired)" for a
    using g that dom0 by (auto simp: grows_def heap0)
  have "e \<in> set (timers q') \<and> timer_heap q' (snd e) = timer_heap q (snd e)" if e: "e \<in> set (timers q0)" for e
  proof -
    have "snd e \<notin> snd ` set expired" using tq_invD(2) [OF inv0] imageI [OF e, of snd] by (simp add: disjoint_iff)
    then show ?thesis using heap same [of "snd e"] e g sub by (auto simp: grows_def)
  qed
  moreover have "reset_result rnd clock q q' e" if "e \<in> set expired" for e
    using res that same [of "snd e"] by (simp add: reset_result_def)
  ultimately show ?thesis using r run inv' arm by blast
qed

end

text \<open>Callbacks that append their number to a log and then add timers, from within the loop thread.\<close>

datatype action = Action (action_id: nat) "(action \<times> timestamp \<times> rat) list"

definition run_action :: "(nat \<Rightarrow> timestamp) \<Rightarrow> action \<Rightarrow> action timer_queue \<times> nat list \<Rightarrow> (action timer_queue \<times> nat list) result" where
  "run_action clock a s =
     (case a of Action n adds \<Rightarrow>
        bindr (foldr_result (\<lambda>q (cb, when, interval). AddTimer (\<lambda>f. f) clock cb when interval q) (fst s) adds)
          (\<lambda>q. Inr (q, snd s @ [n])))"

lemma add_timers_ok:
  assumes "tq_inv q pend"
  shows "\<exists>q'. foldr_result (\<lambda>q (cb, when, interval). AddTimer (\<lambda>f. f) clock cb when interval q) q adds = Inr q'
    \<and> tq_inv q' pend \<and> grows q q'"
  using assms
proof (induction adds arbitrary: q)
  case (Cons x xs)
  obtain cb wh i where x: "x = (cb, wh, i)" by (cases x)
  from AddTimer_ok [OF Cons.prems, of clock cb wh i] obtain q1 where q1: "AddTimer (\<lambda>f. f) clock cb wh i q = Inr q1"
    "tq_inv q1 pend" "grows q q1" by blast
  from Cons.IH [OF q1(2)] q1 show ?case by (auto simp: x intro: grows_trans)
qed simp

interpretation actions: timer_callbacks "run_action cl" for cl
proof
  fix q :: "action timer_queue" and pend c and w :: "nat list"
  assume "tq_inv q pend"
  from add_timers_ok [OF this] show "\<exists>q' w'. run_action cl c (q, w) = Inr (q', w') \<and> tq_inv q' pend \<and> grows q q'"
    by (cases c) (fastforce simp: run_action_def)
qed

text \<open>The log after the due timers have run.\<close>

lemma run_actions_log:
  assumes "foldr_result (run_timer (run_action clock)) (q, w) es = Inr (q', w')" and "tq_inv q pend"
    and "snd ` set es \<subseteq> dom (timer_heap q)"
  shows "w' = w @ map (\<lambda>e. action_id (timer_callback (the (timer_heap q (snd e))))) es"
  using assms
proof (induction es arbitrary: q w)
  case (Cons e es)
  from Cons.prems(3) obtain t where t: "timer_heap q (snd e) = Some t" by auto
  from actions.run_ok [OF Cons.prems(2)] obtain q1 w1 where r: "run_action clock (timer_callback t) (q, w) = Inr (q1, w1)"
    and inv1: "tq_inv q1 pend" and g: "grows q q1" by blast
  have w1: "w1 = w @ [action_id (timer_callback t)]" using r by (auto simp: run_action_def split: action.splits)
  have step: "run_timer (run_action clock) (q, w) e = Inr (q1, w1)" using t r by (simp add: run_timer_def)
  have same: "timer_heap q1 (snd x) = timer_heap q (snd x)" if "x \<in> set es" for x
    using g that Cons.prems(3) by (auto simp: grows_def)
  have "snd ` set es \<subseteq> dom (timer_heap q1)" using Cons.prems(3) g by (fastforce simp: grows_def dom_def)
  with Cons.IH [of q1 w1] Cons.prems(1) step inv1 have "w' = w1 @ map (\<lambda>e. action_id (timer_callback (the (timer_heap q1 (snd e))))) es"
    by simp
  with same t show ?case by (simp add: w1)
qed simp

section \<open>Properties\<close>

lemma due_entries:
  assumes ge: "GetExpired now q = (expired, q0)" and inv: "tq_inv q []"
    and addr: "\<forall>e\<in>set (timers q). snd e < UINTPTR_MAX"
  shows "expired = [e\<leftarrow>timers q. fst e \<le> now]" "timers q0 = [e\<leftarrow>timers q. now < fst e]"
proof -
  note S = GetExpired_split [OF ge]
  have "fst e \<le> now" if "e \<in> set expired" for e using S(3) that by (auto simp: less_prod_def split: prod.splits)
  moreover have "now < fst e" if e: "e \<in> set (timers q0)" for e
    using GetExpired_rest [OF ge tq_invD(1) [OF inv] e] bspec [OF addr, of e] e
    by (cases e) (auto simp: S(1) less_eq_prod_def order.order_iff_strict)
  ultimately show "expired = [e\<leftarrow>timers q. fst e \<le> now]" "timers q0 = [e\<leftarrow>timers q. now < fst e]"
    by (auto simp: S(1) filter_empty_conv filter_id_conv not_le not_less)
qed

text \<open>
  Property C12. When the timerfd fires, \<open>HandleRead\<close> runs the callback of every timer whose expiration is not after the
  current time exactly once, in order of expiration, and of no other timer; callbacks may add timers meanwhile. No
  freed timer is touched. Afterwards a due one-shot timer is freed, a due repeating timer is in the queue again with
  its interval added to a later clock reading, the timers that were not due are unchanged, the queue is well-formed
  without leaked timers, and if any timer was due the kernel timer is armed for the earliest remaining one.
\<close>

theorem HandleRead_runs_due_timers:
  assumes inv: "tq_inv q []" and addr: "\<forall>e\<in>set (timers q). snd e < UINTPTR_MAX"
  shows "\<exists>q'. TimerQueue_HandleRead rnd clock (run_action clock) (q, logged)
      = Inr (q', logged @ map (\<lambda>e. action_id (timer_callback (the (timer_heap q (snd e))))) [e\<leftarrow>timers q. fst e \<le> clock (clock_reads q)])
    \<and> tq_inv q' []
    \<and> (\<forall>e\<in>set (timers q). clock (clock_reads q) < fst e \<longrightarrow> e \<in> set (timers q') \<and> timer_heap q' (snd e) = timer_heap q (snd e))
    \<and> (\<forall>e\<in>set (timers q). fst e \<le> clock (clock_reads q) \<longrightarrow> reset_result rnd clock q q' e)
    \<and> ((\<exists>e\<in>set (timers q). fst e \<le> clock (clock_reads q)) \<longrightarrow> armed_for_earliest clock q')"
proof -
  obtain expired q0 where ge: "GetExpired (clock (clock_reads q)) q = (expired, q0)" by fastforce
  note due = due_entries [OF ge inv addr] and S = GetExpired_split [OF ge]
  let ?q0 = "q0\<lparr>clock_reads := Suc (clock_reads q), calling_expired_timers := True\<rparr>"
  from actions.handle_read [where clock = clock and cl = clock and w = logged and rnd = rnd, OF inv ge] obtain q1 w1 q'
    where r: "foldr_result (run_timer (run_action clock)) (?q0, logged) expired = Inr (q1, w1)"
      and run: "TimerQueue_HandleRead rnd clock (run_action clock) (q, logged) = Inr (q', w1)" and inv': "tq_inv q' []"
      and keep: "\<forall>e\<in>set (timers q0). e \<in> set (timers q') \<and> timer_heap q' (snd e) = timer_heap q (snd e)"
      and res: "\<forall>e\<in>set expired. reset_result rnd clock q q' e" and arm: "expired \<noteq> [] \<longrightarrow> armed_for_earliest clock q'"
    by blast
  have inv0: "tq_inv ?q0 expired" using GetExpired_inv [OF ge inv] by simp
  have "snd ` set expired \<subseteq> dom (timer_heap ?q0)" using tq_invD(3) [OF inv0] by auto
  from run_actions_log [OF r inv0 this]
  have "w1 = logged @ map (\<lambda>e. action_id (timer_callback (the (timer_heap q0 (snd e))))) expired" by simp
  moreover have "timer_heap q0 = timer_heap q" by (subst S(2), simp)
  ultimately show ?thesis using run inv' keep res arm by (auto simp: due filter_empty_conv)
qed

definition example_queue :: "action timer_queue" where
  "example_queue = \<lparr>timers = [(Timestamp 50, 5), (Timestamp 60, 6), (Timestamp 200, 7)],
     timer_heap = [5 \<mapsto> Timer_new (Action 10 [(Action 40 [], Timestamp 300, 0)]) (Timestamp 50) 0,
                   6 \<mapsto> Timer_new (Action 20 []) (Timestamp 60) 1, 7 \<mapsto> Timer_new (Action 30 []) (Timestamp 200) 0],
     next_addr = 8, timerfd = None, calling_expired_timers = False, clock_reads = 0\<rparr>"

lemma example_queue_inv: "tq_inv example_queue []"
  by (auto simp: tq_inv_def example_queue_def Timer_new_def less_prod_def less_timestamp_def less_eq_timestamp_def)

theorem HandleRead_runs_due_timers_witness:
  "\<exists>q'. TimerQueue_HandleRead id (\<lambda>k. Timestamp (100 + int k)) (run_action (\<lambda>k. Timestamp (100 + int k))) (example_queue, [])
      = Inr (q', [10, 20]) \<and> tq_inv q' [] \<and> (Timestamp 200, 7) \<in> set (timers q') \<and> timer_heap q' 5 = None"
proof -
  have due: "[e\<leftarrow>timers example_queue. fst e \<le> Timestamp (100 + int (clock_reads example_queue))] = [(Timestamp 50, 5), (Timestamp 60, 6)]"
    by (simp add: example_queue_def less_eq_timestamp_def)
  have heap: "timer_heap example_queue 5 = Some (Timer_new (Action 10 [(Action 40 [], Timestamp 300, 0)]) (Timestamp 50) 0)"
    "timer_heap example_queue 6 = Some (Timer_new (Action 20 []) (Timestamp 60) 1)" by (simp_all add: example_queue_def)
  have mem: "(Timestamp 200, 7) \<in> set (timers example_queue)" "(Timestamp 50, 5) \<in> set (timers example_queue)"
    by (simp_all add: example_queue_def)
  have lt: "Timestamp (100 + int (clock_reads example_queue)) < Timestamp 200" "Timestamp 50 \<le> Timestamp (100 + int (clock_reads example_queue))"
    by (simp_all add: example_queue_def less_timestamp_def less_eq_timestamp_def)
  have addr: "\<forall>e\<in>set (timers example_queue). snd e < UINTPTR_MAX" by (simp add: example_queue_def UINTPTR_MAX_def)
  from HandleRead_runs_due_timers [OF example_queue_inv addr, of id "\<lambda>k. Timestamp (100 + int k)" "[]"] obtain q' where
    "TimerQueue_HandleRead id (\<lambda>k. Timestamp (100 + int k)) (run_action (\<lambda>k. Timestamp (100 + int k))) (example_queue, []) = Inr (q', [10, 20])"
    "tq_inv q' []" "(Timestamp 200, 7) \<in> set (timers q')"
    "reset_result id (\<lambda>k. Timestamp (100 + int k)) example_queue q' (Timestamp 50, 5)"
    unfolding due using mem lt by (auto simp: heap Timer_new_def)
  then show ?thesis by (auto simp: reset_result_def heap Timer_new_def)
qed

text \<open>
  The kernel timer is one-shot and \<open>Reset\<close> arms it only inside its loop over the due timers. If no timer is
  due when the timerfd fires, because the wall clock was set back while the timerfd counts monotonic time, \<open>HandleRead\<close>
  changes nothing but its clock count: the timerfd stays disarmed and the queue, however full, is never served again
  unless a new timer becomes the earliest.
\<close>

theorem HandleRead_clock_set_back:
  assumes inv: "tq_inv q []" and addr: "\<forall>e\<in>set (timers q). snd e < UINTPTR_MAX"
    and late: "\<forall>e\<in>set (timers q). clock (clock_reads q) < fst e"
    and fired: "timerfd q = None"
  shows "\<exists>q'. TimerQueue_HandleRead rnd clock run (q, w) = Inr (q', w)
    \<and> timers q' = timers q \<and> timer_heap q' = timer_heap q \<and> timerfd q' = None"
proof -
  obtain expired q0 where ge: "GetExpired (clock (clock_reads q)) q = (expired, q0)" by fastforce
  have e: "expired = []" using due_entries(1) [OF ge inv addr] late by (auto simp: filter_empty_conv not_le)
  have "GetExpired (clock (clock_reads q)) (q\<lparr>clock_reads := Suc (clock_reads q)\<rparr>) = ([], q0\<lparr>clock_reads := Suc (clock_reads q)\<rparr>)"
    using ge e by (auto simp: GetExpired_def Let_def)
  moreover have "timers q0 = timers q" "timer_heap q0 = timer_heap q" "timerfd q0 = timerfd q"
    using GetExpired_split [OF ge] by (auto simp: e GetExpired_def Let_def) (metis timer_queue.select_convs timer_queue.surjective timer_queue.update_convs(1))+
  ultimately show ?thesis using fired by (simp add: TimerQueue_HandleRead_def read_clock_def Reset_def)
qed

theorem HandleRead_clock_set_back_witness:
  "\<exists>q'. TimerQueue_HandleRead id (\<lambda>k. Timestamp 40) (run_action (\<lambda>k. Timestamp 40)) (example_queue, []) = Inr (q', [])
    \<and> timers q' = [(Timestamp 50, 5), (Timestamp 60, 6), (Timestamp 200, 7)] \<and> timerfd q' = None"
  using HandleRead_clock_set_back [OF example_queue_inv, of "\<lambda>k. Timestamp 40" id "run_action (\<lambda>k. Timestamp 40)" "[]"]
  by (auto simp: example_queue_def UINTPTR_MAX_def less_timestamp_def)

text \<open>
  Timers added from within the loop thread, in any number and order, keep the queue well-formed and the
  timerfd armed for the earliest expiration, with a valid delay of at least 100 microseconds.
\<close>

theorem AddTimer_keeps_armed:
  assumes "tq_inv q []" and "armed_for_earliest clock q"
  shows "\<exists>q'. foldr_result (\<lambda>q (cb, when, interval). AddTimer (\<lambda>f. f) clock cb when interval q) q adds = Inr q'
    \<and> tq_inv q' [] \<and> armed_for_earliest clock q'"
  using assms
proof (induction adds arbitrary: q)
  case (Cons x xs)
  obtain cb wh i where x: "x = (cb, wh, i)" by (cases x)
  from AddTimer_ok [OF Cons.prems(1), of clock cb wh i] Cons.prems(2) obtain q1 where
    "AddTimer (\<lambda>f. f) clock cb wh i q = Inr q1" "tq_inv q1 []" "armed_for_earliest clock q1" by blast
  with Cons.IH show ?case by (simp add: x)
qed simp

theorem AddTimer_keeps_armed_witness:
  "\<exists>q'. foldr_result (\<lambda>q (cb, when, interval). AddTimer (\<lambda>f. f) (\<lambda>k. Timestamp 10) cb when interval q)
      (TimerQueue_new :: nat timer_queue) [(1, Timestamp 300, 0), (2, Timestamp 200, 5)] = Inr q'
    \<and> tq_inv q' [] \<and> armed_for_earliest (\<lambda>k. Timestamp 10) q'"
  by (rule AddTimer_keeps_armed) (simp_all add: TimerQueue_new_def tq_inv_def armed_for_earliest_def)

end
