(* ===== verification/Poller.thy ===== *)
theory Poller
  imports Channel
begin

text \<open>
  \<open>net/poller.h\<close>, \<open>net/poller.cc\<close>, \<open>net/epoll_poller.cc\<close>, \<open>net/poll_poller.cc\<close> and
  \<open>net/default_poller.cc\<close>: the two implementations of the poller interface. The state of a poller
  is its members together with the channel store it shares with the channels' owners; the epoll
  poller's state includes the kernel's interest list, which \<open>epoll_ctl\<close> reads and writes.
  Each operation takes the answer of \<open>IsInLoopThread()\<close> as its first argument.

  The locale \<open>poller\<close> is the contract of the abstract class: after \<open>UpdateChannel\<close> exactly the
  channel's events are monitored on its descriptor, after \<open>RemoveChannel\<close> none, and no other
  descriptor is touched. Both implementations are interpretations (\<open>epoll\<close> and \<open>poll\<close>).
\<close>

section \<open>The interface\<close>

definition kNew :: int where "kNew = -1"
definition kAdded :: int where "kAdded = 1"
definition kDeleted :: int where "kDeleted = 2"

definition HasChannel :: "(int \<rightharpoonup> ptr) \<Rightarrow> ptr \<Rightarrow> store \<Rightarrow> bool" where
  "HasChannel channels c st \<longleftrightarrow> channels (ch_fd (st c)) = Some c"

definition AssertInLoopThread :: "bool \<Rightarrow> 'a result \<Rightarrow> 'a result" where
  "AssertInLoopThread in_loop r = (if in_loop then r else Inl Fatal)"

section \<open>EpollPoller\<close>

datatype epoll_op = EPOLL_CTL_ADD | EPOLL_CTL_MOD | EPOLL_CTL_DEL

record epoll_poller =
  ep_channels :: "int \<rightharpoonup> ptr"
  ep_events_size :: nat
  ep_kernel :: "int \<rightharpoonup> events \<times> ptr"

type_synonym epoll_state = "store \<times> epoll_poller"

definition kInitEventListSize :: nat where "kInitEventListSize = 16"

definition EpollPoller_new :: "int \<Rightarrow> epoll_poller result" where
  "EpollPoller_new epollfd =
     (if epollfd < 0 then Inl Fatal
      else Inr \<lparr>ep_channels = Map.empty, ep_events_size = kInitEventListSize, ep_kernel = Map.empty\<rparr>)"

text \<open>\<open>epoll_ctl\<close> of the kernel: \<open>None\<close> is a negative result (\<open>EEXIST\<close>, \<open>ENOENT\<close>).\<close>

definition epoll_ctl :: "epoll_op \<Rightarrow> int \<Rightarrow> events \<times> ptr \<Rightarrow> (int \<rightharpoonup> events \<times> ptr) \<Rightarrow> (int \<rightharpoonup> events \<times> ptr) option" where
  "epoll_ctl operation fd ev k =
     (case operation of
        EPOLL_CTL_ADD \<Rightarrow> if k fd = None then Some (k(fd \<mapsto> ev)) else None
      | EPOLL_CTL_MOD \<Rightarrow> if k fd = None then None else Some (k(fd \<mapsto> ev))
      | EPOLL_CTL_DEL \<Rightarrow> if k fd = None then None else Some (k(fd := None)))"

definition Epoll_Update :: "epoll_op \<Rightarrow> ptr \<Rightarrow> epoll_state \<Rightarrow> epoll_state result" where
  "Epoll_Update operation c s =
     (let ch = fst s c
      in case epoll_ctl operation (ch_fd ch) (ch_events ch, c) (ep_kernel (snd s)) of
           None \<Rightarrow> if operation = EPOLL_CTL_DEL then Inr s else Inl Fatal
         | Some k \<Rightarrow> Inr (fst s, (snd s)\<lparr>ep_kernel := k\<rparr>))"

definition Epoll_UpdateChannel :: "bool \<Rightarrow> ptr \<Rightarrow> epoll_state \<Rightarrow> epoll_state result" where
  "Epoll_UpdateChannel in_loop c s =
     AssertInLoopThread in_loop
       (let st = fst s; ep = snd s; index = ch_index (st c); fd = ch_fd (st c)
        in if index = kNew \<or> index = kDeleted
           then bindr
                  (if index = kNew
                   then assertr (ep_channels ep fd = None) (Inr (ep\<lparr>ep_channels := (ep_channels ep)(fd \<mapsto> c)\<rparr>))
                   else assertr (ep_channels ep fd \<noteq> None) (assertr (ep_channels ep fd = Some c) (Inr ep)))
                  (\<lambda>ep. Epoll_Update EPOLL_CTL_ADD c (set_index c kAdded st, ep))
           else assertr (ep_channels ep fd \<noteq> None) (assertr (ep_channels ep fd = Some c) (assertr (index = kAdded)
                  (if IsNoneEvent (st c)
                   then bindr (Epoll_Update EPOLL_CTL_DEL c s) (\<lambda>s'. Inr (set_index c kDeleted (fst s'), snd s'))
                   else Epoll_Update EPOLL_CTL_MOD c s))))"

definition Epoll_RemoveChannel :: "bool \<Rightarrow> ptr \<Rightarrow> epoll_state \<Rightarrow> epoll_state result" where
  "Epoll_RemoveChannel in_loop c s =
     AssertInLoopThread in_loop
       (let st = fst s; ep = snd s; fd = ch_fd (st c); index = ch_index (st c)
        in assertr (ep_channels ep fd \<noteq> None) (assertr (ep_channels ep fd = Some c) (assertr (IsNoneEvent (st c))
           (assertr (index = kAdded \<or> index = kDeleted)
             (let ep = ep\<lparr>ep_channels := (ep_channels ep)(fd := None)\<rparr>
              in bindr (if index = kAdded then Epoll_Update EPOLL_CTL_DEL c (st, ep) else Inr (st, ep))
                   (\<lambda>s'. Inr (set_index c kNew (fst s'), snd s')))))))"

fun Epoll_FillActiveChannels :: "(events \<times> ptr) list \<Rightarrow> store \<Rightarrow> store \<times> ptr list" where
  "Epoll_FillActiveChannels [] st = (st, [])"
| "Epoll_FillActiveChannels ((ev, c) # evs) st =
     (let (st', active) = Epoll_FillActiveChannels evs (set_revents c ev st) in (st', c # active))"

datatype poll_log = Log_timeout | Log_poll_failed

definition EINTR :: int where "EINTR = 4"

text \<open>
  \<open>epoll_wait\<close> gets the capacity of \<open>events_\<close> and answers with an error number or the ready
  events. The source stores its \<open>int\<close> result in a \<open>size_t\<close>, so \<open>-1\<close> becomes \<open>2 ^ 64 - 1\<close>, and
  passes that back as the \<open>int\<close> count to \<open>FillActiveChannels\<close>.
\<close>

definition Epoll_Poll :: "(nat \<Rightarrow> int + (events \<times> ptr) list) \<Rightarrow> epoll_state \<Rightarrow> epoll_state \<times> ptr list \<times> poll_log list" where
  "Epoll_Poll epoll_wait s =
     (let ready = epoll_wait (ep_events_size (snd s));
          num_events = (case ready of Inl _ \<Rightarrow> size_of_int (-1) | Inr evs \<Rightarrow> length evs);
          evs = (case ready of Inl _ \<Rightarrow> [] | Inr evs \<Rightarrow> evs);
          saveErrno = (case ready of Inl e \<Rightarrow> e | Inr _ \<Rightarrow> 0)
      in if num_events > 0
         then (let (st, active) = Epoll_FillActiveChannels (take (nat (int_of_size num_events)) evs) (fst s);
                   ep = (if num_events = ep_events_size (snd s)
                         then (snd s)\<lparr>ep_events_size := ep_events_size (snd s) * 2\<rparr> else snd s)
               in ((st, ep), active, []))
         else if num_events = 0 then (s, [], [Log_timeout])
         else (s, [], if saveErrno \<noteq> EINTR then [Log_poll_failed] else []))"

section \<open>PollPoller\<close>

record pollfd =
  pfd_fd :: int
  pfd_events :: "16 word"
  pfd_revents :: "16 word"

record poll_poller =
  pp_channels :: "int \<rightharpoonup> ptr"
  pp_fds :: "pollfd list"

type_synonym poll_state = "store \<times> poll_poller"

definition PollPoller_new :: poll_poller where
  "PollPoller_new = \<lparr>pp_channels = Map.empty, pp_fds = []\<rparr>"

definition Poll_UpdateChannel :: "bool \<Rightarrow> ptr \<Rightarrow> poll_state \<Rightarrow> poll_state result" where
  "Poll_UpdateChannel in_loop c s =
     AssertInLoopThread in_loop
       (let st = fst s; pp = snd s; fd = ch_fd (st c); short_events = ucast (ch_events (st c))
        in if ch_index (st c) < 0
           then assertr (pp_channels pp fd = None)
                  (Inr (set_index c (int (length (pp_fds pp))) st,
                        pp\<lparr>pp_fds := pp_fds pp @ [\<lparr>pfd_fd = fd, pfd_events = short_events, pfd_revents = 0\<rparr>],
                           pp_channels := (pp_channels pp)(fd \<mapsto> c)\<rparr>))
           else (let idx = ch_index (st c); i = nat idx
                 in assertr (pp_channels pp fd \<noteq> None) (assertr (pp_channels pp fd = Some c)
                    (assertr (0 \<le> idx \<and> idx < int (length (pp_fds pp)))
                    (assertr (pfd_fd (pp_fds pp ! i) = fd \<or> pfd_fd (pp_fds pp ! i) = - fd - 1)
                      (Inr (st, pp\<lparr>pp_fds := (pp_fds pp)[i :=
                         \<lparr>pfd_fd = (if IsNoneEvent (st c) then - fd - 1 else fd), pfd_events = short_events, pfd_revents = 0\<rparr>]\<rparr>)))))))"

text \<open>\<open>channelAtEnd\<close>: the descriptor of the last slot, decoded when it is an ignored one.\<close>

definition decode_fd :: "int \<Rightarrow> int" where
  "decode_fd fd = (if fd < 0 then - fd - 1 else fd)"

definition Poll_RemoveChannel :: "bool \<Rightarrow> ptr \<Rightarrow> poll_state \<Rightarrow> poll_state result" where
  "Poll_RemoveChannel in_loop c s =
     AssertInLoopThread in_loop
       (let st = fst s; pp = snd s; fd = ch_fd (st c); idx = ch_index (st c); i = nat idx; fds = pp_fds pp
        in assertr (pp_channels pp fd \<noteq> None) (assertr (pp_channels pp fd = Some c) (assertr (IsNoneEvent (st c))
           (assertr (0 \<le> idx \<and> idx < int (length fds))
           (assertr (pfd_fd (fds ! i) = - fd - 1 \<and> scast (pfd_events (fds ! i)) = ch_events (st c))
             (let channels = (pp_channels pp)(fd := None)
              in if i = length fds - 1
                 then Inr (st, pp\<lparr>pp_channels := channels, pp_fds := butlast fds\<rparr>)
                 else (let channelAtEnd = decode_fd (pfd_fd (last fds));
                           swapped = (fds[i := last fds])[length fds - 1 := fds ! i]
                       in case channels channelAtEnd of
                            None \<Rightarrow> Inl Null_pointer
                          | Some d \<Rightarrow> Inr (set_index d idx st, pp\<lparr>pp_channels := channels, pp_fds := butlast swapped\<rparr>))))))))"

fun Poll_FillActiveChannels :: "nat \<Rightarrow> pollfd list \<Rightarrow> (int \<rightharpoonup> ptr) \<Rightarrow> store \<Rightarrow> (store \<times> ptr list) result" where
  "Poll_FillActiveChannels num_events [] channels st = Inr (st, [])"
| "Poll_FillActiveChannels num_events (pfd # pfds) channels st =
     (if num_events = 0 then Inr (st, [])
      else if sint (pfd_revents pfd) > 0
      then (case channels (pfd_fd pfd) of
              None \<Rightarrow> Inl Assert_failed
            | Some c \<Rightarrow> assertr (ch_fd (st c) = pfd_fd pfd)
                (bindr (Poll_FillActiveChannels (num_events - 1) pfds channels (set_revents c (scast (pfd_revents pfd)) st))
                  (\<lambda>r. Inr (fst r, c # snd r))))
      else Poll_FillActiveChannels num_events pfds channels st)"

text \<open>\<open>poll\<close> of the kernel rewrites the \<open>revents\<close> of the array and answers with an error or a count.\<close>

definition Poll_Poll :: "(pollfd list \<Rightarrow> int + nat \<times> pollfd list) \<Rightarrow> poll_state \<Rightarrow> (poll_state \<times> ptr list) result" where
  "Poll_Poll poll_call s =
     (case poll_call (pp_fds (snd s)) of
        Inl _ \<Rightarrow> Inr (s, [])
      | Inr (num_events, fds) \<Rightarrow>
          (let pp = (snd s)\<lparr>pp_fds := fds\<rparr>
           in if num_events > 0
              then bindr (Poll_FillActiveChannels num_events fds (pp_channels pp) (fst s)) (\<lambda>r. Inr ((fst r, pp), snd r))
              else Inr ((fst s, pp), [])))"

datatype poller_kind = Use_poll | Use_epoll

definition NewDefaultPoller :: "bool \<Rightarrow> poller_kind" where
  "NewDefaultPoller muduo_use_poll = (if muduo_use_poll then Use_poll else Use_epoll)"

section \<open>Abstraction\<close>

text \<open>
  The descriptors the kernel watches for a poller, with the mask it was given: the entries of the interest list, and the slots
  with a descriptor that is not negative. An entry with an empty mask is still watched, for hang-ups and errors.
\<close>

definition epoll_interest :: "epoll_state \<Rightarrow> int \<rightharpoonup> events" where
  "epoll_interest s = (\<lambda>fd. map_option fst (ep_kernel (snd s) fd))"

definition poll_interest :: "poll_state \<Rightarrow> int \<rightharpoonup> events" where
  "poll_interest s = (\<lambda>fd. case pp_channels (snd s) fd of None \<Rightarrow> None
     | Some c \<Rightarrow> (let pfd = pp_fds (snd s) ! nat (ch_index (fst s c))
                  in if pfd_fd pfd = fd then Some (ucast (pfd_events pfd)) else None))"

text \<open>
  What is watched after an update with mask \<open>ev\<close>, where \<open>known\<close> says that the channel was added before and \<open>old\<close> what was
  watched: emptying the mask ends the watching; emptying it once more while nothing is watched leaves \<open>bare\<close>, the one
  point in which the implementations differ.
\<close>

definition new_interest :: "events option \<Rightarrow> bool \<Rightarrow> events option \<Rightarrow> events \<Rightarrow> events option" where
  "new_interest bare known old ev = (if ev \<noteq> 0 \<or> \<not> known then Some ev else if old = None then bare else None)"

text \<open>Well-formed states.\<close>

definition epoll_fd_ok :: "store \<Rightarrow> int \<Rightarrow> ptr option \<Rightarrow> (events \<times> ptr) option \<Rightarrow> bool" where
  "epoll_fd_ok st fd ch k =
     (case ch of None \<Rightarrow> k = None
      | Some c \<Rightarrow> ch_fd (st c) = fd
          \<and> (if k = None then ch_index (st c) = kDeleted else ch_index (st c) = kAdded \<and> snd (the k) = c))"

definition epoll_inv :: "epoll_state \<Rightarrow> bool" where
  "epoll_inv s \<longleftrightarrow> (\<forall>fd. epoll_fd_ok (fst s) fd (ep_channels (snd s) fd) (ep_kernel (snd s) fd))"

definition poll_inv :: "poll_state \<Rightarrow> bool" where
  "poll_inv s \<longleftrightarrow>
     (\<forall>fd c. pp_channels (snd s) fd = Some c \<longrightarrow> ch_fd (fst s c) = fd \<and> 0 \<le> fd \<and> 0 \<le> ch_index (fst s c)
        \<and> nat (ch_index (fst s c)) < length (pp_fds (snd s))
        \<and> decode_fd (pfd_fd (pp_fds (snd s) ! nat (ch_index (fst s c)))) = fd)
     \<and> (\<forall>i < length (pp_fds (snd s)). \<exists>c. pp_channels (snd s) (decode_fd (pfd_fd (pp_fds (snd s) ! i))) = Some c
        \<and> ch_index (fst s c) = int i)"

text \<open>A channel that was never added, and one that may be removed.\<close>

definition epoll_fresh :: "epoll_state \<Rightarrow> ptr \<Rightarrow> bool" where
  "epoll_fresh s c \<longleftrightarrow> ch_index (fst s c) = kNew \<and> ep_channels (snd s) (ch_fd (fst s c)) = None \<and> 0 \<le> ch_fd (fst s c)"

definition poll_fresh :: "poll_state \<Rightarrow> ptr \<Rightarrow> bool" where
  "poll_fresh s c \<longleftrightarrow> ch_index (fst s c) = kNew \<and> pp_channels (snd s) (ch_fd (fst s c)) = None \<and> 0 \<le> ch_fd (fst s c)"

definition epoll_has :: "epoll_state \<Rightarrow> ptr \<Rightarrow> bool" where
  "epoll_has s c \<longleftrightarrow> HasChannel (ep_channels (snd s)) c (fst s)"

definition poll_has :: "poll_state \<Rightarrow> ptr \<Rightarrow> bool" where
  "poll_has s c \<longleftrightarrow> HasChannel (pp_channels (snd s)) c (fst s)"

definition epoll_removable :: "epoll_state \<Rightarrow> ptr \<Rightarrow> bool" where
  "epoll_removable s c \<longleftrightarrow> epoll_has s c \<and> ch_events (fst s c) = 0"

definition poll_removable :: "poll_state \<Rightarrow> ptr \<Rightarrow> bool" where
  "poll_removable s c \<longleftrightarrow> poll_has s c \<and> ch_events (fst s c) = 0
     \<and> pfd_fd (pp_fds (snd s) ! nat (ch_index (fst s c))) = - ch_fd (fst s c) - 1
     \<and> pfd_events (pp_fds (snd s) ! nat (ch_index (fst s c))) = 0"

text \<open>
  The operations a channel's owner applies, and what they promise: a channel is fresh, live with a
  mask, or removed for good. A fresh channel is first given some event, and a channel is removed
  only when its mask is empty.
\<close>

datatype mask_op = Enable_reading | Disable_reading | Enable_writing | Disable_writing | Disable_all

datatype channel_op = Op_mask mask_op ptr | Op_remove ptr

fun mask_fun :: "mask_op \<Rightarrow> events \<Rightarrow> events" where
  "mask_fun Enable_reading = enable_reading"
| "mask_fun Disable_reading = disable_reading"
| "mask_fun Enable_writing = enable_writing"
| "mask_fun Disable_writing = disable_writing"
| "mask_fun Disable_all = disable_all"

fun channel_step :: "(ptr \<Rightarrow> store \<times> 'p \<Rightarrow> (store \<times> 'p) result) \<Rightarrow> (ptr \<Rightarrow> store \<times> 'p \<Rightarrow> (store \<times> 'p) result)
    \<Rightarrow> store \<times> 'p \<Rightarrow> channel_op \<Rightarrow> (store \<times> 'p) result" where
  "channel_step update remove s (Op_mask Enable_reading c) = EnableReading update c s"
| "channel_step update remove s (Op_mask Disable_reading c) = DisableReading update c s"
| "channel_step update remove s (Op_mask Enable_writing c) = EnableWriting update c s"
| "channel_step update remove s (Op_mask Disable_writing c) = DisableWriting update c s"
| "channel_step update remove s (Op_mask Disable_all c) = DisableAll update c s"
| "channel_step update remove s (Op_remove c) = remove c s"

text \<open>\<open>Bare\<close> is a channel whose empty mask was emptied again.\<close>

datatype life = Fresh | Live events | Bare | Gone

fun life_events :: "life \<Rightarrow> events" where
  "life_events (Live ev) = ev"
| "life_events _ = 0"

definition life_next :: "life \<Rightarrow> events \<Rightarrow> life" where
  "life_next l ev = (if ev = 0 \<and> l = Live 0 then Bare else Live ev)"

fun life_step :: "channel_op \<Rightarrow> (ptr \<Rightarrow> life) \<Rightarrow> (ptr \<Rightarrow> life) option" where
  "life_step (Op_mask m c) L =
     (let ev = mask_fun m (life_events (L c))
      in if L c = Gone \<or> L c = Fresh \<and> ev = 0 then None else Some (L(c := life_next (L c) ev)))"
| "life_step (Op_remove c) L = (if L c = Live 0 \<or> L c = Bare then Some (L(c := Gone)) else None)"

fun life_run :: "channel_op list \<Rightarrow> (ptr \<Rightarrow> life) \<Rightarrow> (ptr \<Rightarrow> life) option" where
  "life_run [] L = Some L"
| "life_run (op1 # ops) L = (case life_step op1 L of None \<Rightarrow> None | Some L' \<Rightarrow> life_run ops L')"

definition life_interest :: "events option \<Rightarrow> life \<Rightarrow> events option" where
  "life_interest bare l = (case l of Live ev \<Rightarrow> if ev = 0 then None else Some ev | Bare \<Rightarrow> bare | _ \<Rightarrow> None)"

locale poller =
  fixes inv :: "store \<times> 'p \<Rightarrow> bool"
    and interest :: "store \<times> 'p \<Rightarrow> int \<rightharpoonup> events"
    and bare :: "events option"
    and has :: "store \<times> 'p \<Rightarrow> ptr \<Rightarrow> bool"
    and fresh :: "store \<times> 'p \<Rightarrow> ptr \<Rightarrow> bool"
    and removable :: "store \<times> 'p \<Rightarrow> ptr \<Rightarrow> bool"
    and update :: "bool \<Rightarrow> ptr \<Rightarrow> store \<times> 'p \<Rightarrow> (store \<times> 'p) result"
    and remove :: "bool \<Rightarrow> ptr \<Rightarrow> store \<times> 'p \<Rightarrow> (store \<times> 'p) result"
  assumes set_events_inv: "inv (st, p) \<Longrightarrow> inv (set_events c ev st, p)"
    and set_events_interest: "interest (set_events c ev st, p) = interest (st, p)"
    and set_events_has: "has (set_events c ev st, p) d = has (st, p) d"
    and set_events_fresh: "fresh (set_events c ev st, p) d = fresh (st, p) d"
    and set_events_removable: "d \<noteq> c \<Longrightarrow> removable (set_events c ev st, p) d = removable (st, p) d"
    and update_ok: "inv s \<Longrightarrow> fresh s c \<or> has s c \<Longrightarrow> valid_events (ch_events (fst s c)) \<Longrightarrow>
      \<exists>s'. update True c s = Inr s' \<and> inv s' \<and> has s' c
        \<and> (\<forall>d. ch_fd (fst s' d) = ch_fd (fst s d) \<and> ch_events (fst s' d) = ch_events (fst s d))
        \<and> interest s' = (interest s)(ch_fd (fst s c) := new_interest bare (has s c) (interest s (ch_fd (fst s c))) (ch_events (fst s c)))
        \<and> (has s c \<and> ch_events (fst s c) = 0 \<longrightarrow> removable s' c)
        \<and> (\<forall>d. ch_fd (fst s d) \<noteq> ch_fd (fst s c) \<longrightarrow>
             fresh s' d = fresh s d \<and> has s' d = has s d \<and> removable s' d = removable s d)"
    and remove_ok: "inv s \<Longrightarrow> removable s c \<Longrightarrow>
      \<exists>s'. remove True c s = Inr s' \<and> inv s' \<and> \<not> has s' c
        \<and> (\<forall>d. ch_fd (fst s' d) = ch_fd (fst s d) \<and> ch_events (fst s' d) = ch_events (fst s d))
        \<and> interest s' = (interest s)(ch_fd (fst s c) := None)
        \<and> (\<forall>d. ch_fd (fst s d) \<noteq> ch_fd (fst s c) \<longrightarrow>
             fresh s' d = fresh s d \<and> has s' d = has s d \<and> removable s' d = removable s d)"
    and wrong_thread: "update False c s = Inl Fatal \<and> remove False c s = Inl Fatal"
    and tie_same: "inv (tie_at c obj st, p) = inv (st, p) \<and> interest (tie_at c obj st, p) = interest (st, p)
      \<and> has (tie_at c obj st, p) d = has (st, p) d \<and> fresh (tie_at c obj st, p) d = fresh (st, p) d"
    and bare_mask: "bare = None \<or> bare = Some 0"
begin

text \<open>Changing the mask of a known channel and updating monitors the new mask, and nothing else changes.\<close>

lemma change_events:
  assumes "inv s" and "fresh s c \<or> has s c" and "valid_events ev"
  shows "\<exists>s'. update True c (set_events c ev (fst s), snd s) = Inr s' \<and> inv s' \<and> has s' c
    \<and> (\<forall>d. ch_fd (fst s' d) = ch_fd (fst s d)) \<and> ch_events (fst s' c) = ev
    \<and> interest s' = (interest s)(ch_fd (fst s c) := new_interest bare (has s c) (interest s (ch_fd (fst s c))) ev)
    \<and> (has s c \<and> ev = 0 \<longrightarrow> removable s' c)"
  using update_ok [of "(set_events c ev (fst s), snd s)" c] assms
    set_events_inv [of "fst s" "snd s" c ev] set_events_interest [of c ev "fst s" "snd s"]
    set_events_has [of c ev "fst s" "snd s"] set_events_fresh [of c ev "fst s" "snd s"]
  by fastforce

text \<open>The state \<open>s\<close> of the poller agrees with the lives \<open>L\<close> of the channels in \<open>C\<close>.\<close>

definition agrees1 :: "life \<Rightarrow> ptr \<Rightarrow> store \<times> 'p \<Rightarrow> bool" where
  "agrees1 l c s \<longleftrightarrow> (l = Fresh \<longrightarrow> fresh s c \<and> ch_events (fst s c) = 0)
     \<and> (l \<noteq> Fresh \<and> l \<noteq> Gone \<longrightarrow> has s c \<and> ch_events (fst s c) = life_events l \<and> valid_events (life_events l)
          \<and> (life_events l = 0 \<longrightarrow> removable s c))"

definition agrees :: "ptr set \<Rightarrow> (ptr \<Rightarrow> int) \<Rightarrow> (ptr \<Rightarrow> life) \<Rightarrow> store \<times> 'p \<Rightarrow> bool" where
  "agrees C fd_of L s \<longleftrightarrow> inv s \<and> inj_on fd_of C \<and> (\<forall>c. c \<notin> C \<longrightarrow> L c = Gone)
     \<and> (\<forall>c. ch_fd (fst s c) = fd_of c) \<and> (\<forall>c. agrees1 (L c) c s)
     \<and> (\<forall>c\<in>C. interest s (fd_of c) = life_interest bare (L c))
     \<and> (\<forall>fd. fd \<notin> fd_of ` C \<longrightarrow> interest s fd = None)"

lemma agreesD:
  assumes "agrees C fd_of L s"
  shows "inv s" "ch_fd (fst s c) = fd_of c" "L c \<noteq> Gone \<Longrightarrow> c \<in> C"
    "L c = Fresh \<Longrightarrow> fresh s c \<and> ch_events (fst s c) = 0"
    "L c \<noteq> Fresh \<Longrightarrow> L c \<noteq> Gone \<Longrightarrow> has s c \<and> ch_events (fst s c) = life_events (L c) \<and> valid_events (life_events (L c))
       \<and> (life_events (L c) = 0 \<longrightarrow> removable s c)"
    "c \<in> C \<Longrightarrow> interest s (fd_of c) = life_interest bare (L c)"
  using assms by (auto simp: agrees_def agrees1_def)

text \<open>A step on one live channel that leaves the other descriptors alone keeps the agreement.\<close>

lemma agrees_step:
  assumes ag: "agrees C fd_of L s" and c: "c \<in> C" and inv': "inv s'"
    and fd: "\<And>d. ch_fd (fst s' d) = ch_fd (fst s d)"
    and ev: "\<And>d. d \<noteq> c \<Longrightarrow> ch_events (fst s' d) = ch_events (fst s d)"
    and other: "\<And>d. fd_of d \<noteq> fd_of c \<Longrightarrow> fresh s' d = fresh s d \<and> has s' d = has s d \<and> removable s' d = removable s d"
    and int: "interest s' = (interest s)(fd_of c := life_interest bare l)"
    and this_ok: "agrees1 l c s'"
  shows "agrees C fd_of (L(c := l)) s'"
proof -
  have inj: "fd_of d \<noteq> fd_of c" if "d \<in> C" "d \<noteq> c" for d
    using ag c that by (auto simp: agrees_def dest: inj_onD)
  have "agrees1 (L d) d s'" if "d \<noteq> c" for d
    using agreesD(3-5) [OF ag, of d] other [OF inj] ev that by (auto simp: agrees1_def)
  with this_ok have "agrees1 ((L(c := l)) d) d s'" for d by (cases "d = c") auto
  moreover have "\<forall>d\<in>C. interest s' (fd_of d) = life_interest bare ((L(c := l)) d)"
    using ag inj by (auto simp: agrees_def int)
  ultimately show ?thesis
    using ag c inv' fd by (auto simp: agrees_def int)
qed

lemma mask_agrees:
  assumes ag: "agrees C fd_of L s" and known: "L c = Fresh \<and> ev \<noteq> 0 \<or> L c \<noteq> Fresh \<and> L c \<noteq> Gone" and ev: "valid_events ev"
  shows "\<exists>s'. update True c (set_events c ev (fst s), snd s) = Inr s' \<and> agrees C fd_of (L(c := life_next (L c) ev)) s'"
proof -
  let ?s = "(set_events c ev (fst s), snd s)"
  note D = agreesD [OF ag] and se = set_events_has [of c ev "fst s" "snd s"] set_events_fresh [of c ev "fst s" "snd s"]
    set_events_interest [of c ev "fst s" "snd s"] set_events_removable [of _ c ev "fst s" "snd s"]
  have k: "fresh s c \<or> has s c" and cC: "c \<in> C" using known D(3-5) [of c] by auto
  have rem: "ev = 0 \<longrightarrow> has s c" using known D(5) by auto
  have pre: "inv ?s" "fresh ?s c \<or> has ?s c" "valid_events (ch_events (fst ?s c))"
    using set_events_inv [of "fst s" "snd s" c ev] D(1) k ev se by simp_all
  obtain s' where s': "update True c ?s = Inr s'" "inv s'" "has s' c"
    and st: "\<forall>d. ch_fd (fst s' d) = ch_fd (fst ?s d) \<and> ch_events (fst s' d) = ch_events (fst ?s d)"
    and int: "interest s' = (interest ?s)(ch_fd (fst ?s c) := new_interest bare (has ?s c) (interest ?s (ch_fd (fst ?s c))) (ch_events (fst ?s c)))"
    and rm: "has ?s c \<and> ch_events (fst ?s c) = 0 \<longrightarrow> removable s' c"
    and oth: "\<forall>d. ch_fd (fst ?s d) \<noteq> ch_fd (fst ?s c) \<longrightarrow>
      fresh s' d = fresh ?s d \<and> has s' d = has ?s d \<and> removable s' d = removable ?s d"
    using update_ok [OF pre] by blast
  have "new_interest bare (has s c) (life_interest bare (L c)) ev = life_interest bare (life_next (L c) ev)"
    if "bare = None \<or> bare = Some 0"
    using known rem that by (cases "L c") (auto simp: new_interest_def life_interest_def life_next_def)
  then have ni: "new_interest bare (has s c) (interest s (fd_of c)) ev = life_interest bare (life_next (L c) ev)"
    using bare_mask D(6) [OF cC] by simp
  have "agrees C fd_of (L(c := life_next (L c) ev)) s'"
  proof (rule agrees_step [OF ag cC s'(2)])
    show "fresh s' d = fresh s d \<and> has s' d = has s d \<and> removable s' d = removable s d" if "fd_of d \<noteq> fd_of c" for d
      using oth se that D(2) by (metis fst_conv prod.collapse store_ops(1))
    show "interest s' = (interest s)(fd_of c := life_interest bare (life_next (L c) ev))"
      using int se(1,3) D(2) ni by simp
    show "agrees1 (life_next (L c) ev) c s'"
      using st s' ev rem rm se by (auto simp: agrees1_def life_next_def)
  qed (use st s' in auto)
  with s' show ?thesis by blast
qed

lemma step_agrees:
  assumes ag: "agrees C fd_of L s" and L': "life_step op1 L = Some L'"
  shows "\<exists>s'. channel_step (update True) (remove True) s op1 = Inr s' \<and> agrees C fd_of L' s'"
proof (cases op1)
  case (Op_mask m c)
  define ev where "ev = mask_fun m (ch_events (fst s c))"
  note D = agreesD [OF ag]
  have run: "channel_step (update True) (remove True) s op1 = update True c (set_events c ev (fst s), snd s)"
    by (cases m) (simp_all add: Op_mask ev_def EnableReading_def DisableReading_def EnableWriting_def DisableWriting_def DisableAll_def)
  have "ch_events (fst s c) = life_events (L c)" if "L c \<noteq> Gone" using D(4,5) [of c] that by (cases "L c = Fresh") auto
  then have known: "L c = Fresh \<and> ev \<noteq> 0 \<or> L c \<noteq> Fresh \<and> L c \<noteq> Gone" and L'_eq: "L' = L(c := life_next (L c) ev)"
    using L' by (auto simp: Op_mask ev_def Let_def split: if_splits)
  have "valid_events (ch_events (fst s c))" using known D(4,5) [of c] valid_events_ops(1) by auto
  then have "valid_events ev" unfolding ev_def by (cases m) (simp_all add: valid_events_ops)
  from mask_agrees [OF ag known this] show ?thesis by (simp add: run L'_eq)
next
  case (Op_remove c)
  note D = agreesD [OF ag]
  have L: "L c = Live 0 \<or> L c = Bare" "L' = L(c := Gone)" using L' by (auto simp: Op_remove split: if_splits)
  then have rem: "removable s c" and cC: "c \<in> C" using D(3,5) [of c] by auto
  obtain s' where s': "remove True c s = Inr s'" "inv s'"
    and st: "\<forall>d. ch_fd (fst s' d) = ch_fd (fst s d) \<and> ch_events (fst s' d) = ch_events (fst s d)"
    and int: "interest s' = (interest s)(ch_fd (fst s c) := None)"
    and oth: "\<forall>d. ch_fd (fst s d) \<noteq> ch_fd (fst s c) \<longrightarrow>
      fresh s' d = fresh s d \<and> has s' d = has s d \<and> removable s' d = removable s d"
    using remove_ok [OF D(1) rem] by blast
  have "agrees C fd_of (L(c := Gone)) s'"
    by (rule agrees_step [OF ag cC s'(2)]) (use st int oth D(2) in \<open>auto simp: life_interest_def agrees1_def\<close>)
  with s' L show ?thesis by (simp add: Op_remove)
qed

lemma run_agrees:
  "agrees C fd_of L s \<Longrightarrow> life_run ops L = Some L' \<Longrightarrow>
    \<exists>s'. foldr_result (channel_step (update True) (remove True)) s ops = Inr s' \<and> agrees C fd_of L' s'"
proof (induction ops arbitrary: L s)
  case (Cons op1 ops)
  then obtain L1 where "life_step op1 L = Some L1" "life_run ops L1 = Some L'" by (auto split: option.splits)
  with Cons step_agrees [OF Cons.prems(1)] show ?case by fastforce
qed simp

end

section \<open>Lemmas\<close>

lemmas index_consts = kNew_def kAdded_def kDeleted_def

lemma decode_fd_simps: "0 \<le> fd \<Longrightarrow> decode_fd fd = fd" "0 \<le> fd \<Longrightarrow> decode_fd (- fd - 1) = fd"
  by (simp_all add: decode_fd_def)

lemma ucast_valid_events: "valid_events ev \<Longrightarrow> ucast (ucast ev :: 16 word) = ev"
  by (auto simp: valid_events_def)

text \<open>One case of \<open>EpollPoller::UpdateChannel\<close> at a time: new, deleted, added with and without events.\<close>

lemma epoll_inv_at: "epoll_inv (st, ep) \<Longrightarrow> epoll_fd_ok st fd (ep_channels ep fd) (ep_kernel ep fd)"
  by (simp add: epoll_inv_def)

text \<open>Changing one channel's index and its descriptor's entries leaves the other descriptors well-formed.\<close>

lemma epoll_inv_upd:
  assumes inv: "epoll_inv (st, ep)"
    and other: "\<And>fd. fd \<noteq> ch_fd (st c) \<Longrightarrow> ep_channels ep' fd = ep_channels ep fd \<and> ep_kernel ep' fd = ep_kernel ep fd"
    and here: "epoll_fd_ok (set_index c i st) (ch_fd (st c)) (ep_channels ep' (ch_fd (st c))) (ep_kernel ep' (ch_fd (st c)))"
  shows "epoll_inv (set_index c i st, ep')"
proof -
  have "epoll_fd_ok (set_index c i st) fd (ep_channels ep' fd) (ep_kernel ep' fd)" for fd
  proof (cases "fd = ch_fd (st c)")
    case False
    with epoll_inv_at [OF inv, of fd] other [OF False] show ?thesis
      by (auto simp: epoll_fd_ok_def split: option.splits if_splits)
  qed (use here in simp)
  then show ?thesis by (simp add: epoll_inv_def)
qed

lemma epoll_update_new:
  assumes inv: "epoll_inv (st, ep)" and fresh: "epoll_fresh (st, ep) c"
  shows "Epoll_UpdateChannel True c (st, ep) = Inr (set_index c kAdded st,
      ep\<lparr>ep_channels := (ep_channels ep)(ch_fd (st c) \<mapsto> c),
         ep_kernel := (ep_kernel ep)(ch_fd (st c) \<mapsto> (ch_events (st c), c))\<rparr>)"
    and "epoll_inv (set_index c kAdded st,
      ep\<lparr>ep_channels := (ep_channels ep)(ch_fd (st c) \<mapsto> c),
         ep_kernel := (ep_kernel ep)(ch_fd (st c) \<mapsto> (ch_events (st c), c))\<rparr>)"
proof -
  have "ep_kernel ep (ch_fd (st c)) = None"
    using epoll_inv_at [OF inv, of "ch_fd (st c)"] fresh by (simp add: epoll_fd_ok_def epoll_fresh_def)
  then show "Epoll_UpdateChannel True c (st, ep) = Inr (set_index c kAdded st,
      ep\<lparr>ep_channels := (ep_channels ep)(ch_fd (st c) \<mapsto> c),
         ep_kernel := (ep_kernel ep)(ch_fd (st c) \<mapsto> (ch_events (st c), c))\<rparr>)"
    using fresh by (simp add: Epoll_UpdateChannel_def AssertInLoopThread_def epoll_fresh_def Epoll_Update_def epoll_ctl_def Let_def)
  show "epoll_inv (set_index c kAdded st,
      ep\<lparr>ep_channels := (ep_channels ep)(ch_fd (st c) \<mapsto> c),
         ep_kernel := (ep_kernel ep)(ch_fd (st c) \<mapsto> (ch_events (st c), c))\<rparr>)"
    by (rule epoll_inv_upd [OF inv]) (simp_all add: epoll_fd_ok_def)
qed

lemma epoll_update_known:
  assumes inv: "epoll_inv (st, ep)" and has: "epoll_has (st, ep) c"
  shows "\<exists>st' ep'. Epoll_UpdateChannel True c (st, ep) = Inr (st', ep') \<and> epoll_inv (st', ep')
    \<and> (\<exists>i. st' = set_index c i st) \<and> ep_channels ep' = ep_channels ep
    \<and> map_option fst (ep_kernel ep' (ch_fd (st c)))
        = (if ch_index (st c) = kAdded \<and> ch_events (st c) = 0 then None else Some (ch_events (st c)))
    \<and> (\<forall>fd. fd \<noteq> ch_fd (st c) \<longrightarrow> ep_kernel ep' fd = ep_kernel ep fd)"
proof -
  let ?fd = "ch_fd (st c)"
  have reg: "ep_channels ep ?fd = Some c" using has by (simp add: epoll_has_def HasChannel_def)
  with inv have ok: "epoll_fd_ok st ?fd (Some c) (ep_kernel ep ?fd)" using epoll_inv_at by metis
  then consider (added) ev where "ch_index (st c) = kAdded" "ep_kernel ep ?fd = Some (ev, c)"
    | (deleted) "ch_index (st c) = kDeleted" "ep_kernel ep ?fd = None"
    by (cases "ep_kernel ep ?fd") (auto simp: epoll_fd_ok_def)
  then show ?thesis
  proof cases
    case added
    let ?ep = "ep\<lparr>ep_kernel := (ep_kernel ep)(?fd := (if ch_events (st c) = 0 then None else Some (ch_events (st c), c)))\<rparr>"
    let ?st = "set_index c (if ch_events (st c) = 0 then kDeleted else kAdded) st"
    have st: "?st = st" if "ch_events (st c) \<noteq> 0"
      using that added by (simp add: set_index_def) (metis channel.surjective channel.update_convs(4) fun_upd_triv)
    have "Epoll_UpdateChannel True c (st, ep) = Inr (?st, ?ep)"
      using added reg st
      by (simp add: Epoll_UpdateChannel_def AssertInLoopThread_def Epoll_Update_def epoll_ctl_def Let_def index_consts
          IsNoneEvent_def kNoneEvent_def)
    moreover have "epoll_inv (?st, ?ep)"
      using reg by (intro epoll_inv_upd [OF inv]) (simp_all add: epoll_fd_ok_def)
    ultimately show ?thesis using added by auto
  next
    case deleted
    let ?ep = "ep\<lparr>ep_kernel := (ep_kernel ep)(?fd \<mapsto> (ch_events (st c), c))\<rparr>"
    have "Epoll_UpdateChannel True c (st, ep) = Inr (set_index c kAdded st, ?ep)"
      using deleted reg
      by (simp add: Epoll_UpdateChannel_def AssertInLoopThread_def Epoll_Update_def epoll_ctl_def Let_def index_consts)
    moreover have "epoll_inv (set_index c kAdded st, ?ep)"
      using reg by (intro epoll_inv_upd [OF inv]) (simp_all add: epoll_fd_ok_def)
    ultimately show ?thesis using deleted by (auto simp: index_consts)
  qed
qed

lemma epoll_remove:
  assumes inv: "epoll_inv (st, ep)" and rem: "epoll_removable (st, ep) c"
  shows "\<exists>ep'. Epoll_RemoveChannel True c (st, ep) = Inr (set_index c kNew st, ep') \<and> epoll_inv (set_index c kNew st, ep')
    \<and> ep_channels ep' = (ep_channels ep)(ch_fd (st c) := None) \<and> ep_kernel ep' = (ep_kernel ep)(ch_fd (st c) := None)"
proof -
  let ?fd = "ch_fd (st c)"
  let ?ep = "ep\<lparr>ep_channels := (ep_channels ep)(?fd := None), ep_kernel := (ep_kernel ep)(?fd := None)\<rparr>"
  have reg: "ep_channels ep ?fd = Some c" and ev: "ch_events (st c) = 0"
    using rem by (simp_all add: epoll_removable_def epoll_has_def HasChannel_def)
  with inv have ok: "epoll_fd_ok st ?fd (Some c) (ep_kernel ep ?fd)" using epoll_inv_at by metis
  then consider (added) e where "ch_index (st c) = kAdded" "ep_kernel ep ?fd = Some (e, c)"
    | (deleted) "ch_index (st c) = kDeleted" "ep_kernel ep ?fd = None"
    by (cases "ep_kernel ep ?fd") (auto simp: epoll_fd_ok_def)
  then have "Epoll_RemoveChannel True c (st, ep) = Inr (set_index c kNew st, ?ep)"
  proof cases
    case added
    with reg ev show ?thesis
      by (simp add: Epoll_RemoveChannel_def AssertInLoopThread_def Epoll_Update_def epoll_ctl_def Let_def IsNoneEvent_def kNoneEvent_def)
  next
    case deleted
    then have "(ep_kernel ep)(?fd := None) = ep_kernel ep" by auto
    with deleted reg ev show ?thesis
      by (simp add: Epoll_RemoveChannel_def AssertInLoopThread_def Let_def IsNoneEvent_def kNoneEvent_def index_consts)
  qed
  moreover have "epoll_inv (set_index c kNew st, ?ep)"
    by (intro epoll_inv_upd [OF inv]) (simp_all add: epoll_fd_ok_def)
  ultimately show ?thesis by auto
qed

lemma epoll_interest_upd:
  assumes "map_option fst (ep_kernel ep' fd) = e" and "\<forall>fd'. fd' \<noteq> fd \<longrightarrow> ep_kernel ep' fd' = ep_kernel ep fd'"
  shows "epoll_interest (st', ep') = (epoll_interest (st, ep))(fd := e)"
  using assms by (auto simp: epoll_interest_def fun_eq_iff)

lemma epoll_fd_ok_set_events: "epoll_fd_ok (set_events c ev st) = epoll_fd_ok st"
  by (intro ext) (auto simp: epoll_fd_ok_def split: option.split)

lemma epoll_known_added:
  assumes inv: "epoll_inv (st, ep)" and has: "epoll_has (st, ep) c"
  shows "ch_index (st c) = kAdded \<longleftrightarrow> ep_kernel ep (ch_fd (st c)) \<noteq> None"
  using epoll_inv_at [OF inv, of "ch_fd (st c)"] has
  by (auto simp: epoll_has_def HasChannel_def epoll_fd_ok_def index_consts split: if_splits)

interpretation epoll: poller epoll_inv epoll_interest "Some 0" epoll_has epoll_fresh epoll_removable
  Epoll_UpdateChannel Epoll_RemoveChannel
proof (unfold_locales, goal_cases)
  case (1 st p c ev)
  then show ?case by (simp add: epoll_inv_def epoll_fd_ok_set_events)
next
  case (6 s c)
  obtain st ep where s: "s = (st, ep)" by (cases s)
  show ?case
  proof (cases "epoll_has s c")
    case True
    with 6 s obtain st' ep' i where u: "Epoll_UpdateChannel True c s = Inr (st', ep')" "epoll_inv (st', ep')"
      "st' = set_index c i st" "ep_channels ep' = ep_channels ep"
      "map_option fst (ep_kernel ep' (ch_fd (st c)))
        = (if ch_index (st c) = kAdded \<and> ch_events (st c) = 0 then None else Some (ch_events (st c)))"
      "\<forall>fd. fd \<noteq> ch_fd (st c) \<longrightarrow> ep_kernel ep' fd = ep_kernel ep fd"
      using epoll_update_known [of st ep c] by blast
    have "ch_index (st c) = kAdded \<longleftrightarrow> epoll_interest s (ch_fd (st c)) \<noteq> None"
      using epoll_known_added [of st ep c] 6 True s by (simp add: epoll_interest_def)
    then have "epoll_interest (st', ep') = (epoll_interest s)(ch_fd (st c) := new_interest (Some 0) True (epoll_interest s (ch_fd (st c))) (ch_events (st c)))"
      using epoll_interest_upd [OF u(5,6), of st' st] s by (auto simp: new_interest_def)
    with True u s show ?thesis
      by (auto simp: epoll_has_def HasChannel_def epoll_removable_def epoll_fresh_def)
  next
    case False
    with 6 s have fresh: "epoll_fresh (st, ep) c" and inv: "epoll_inv (st, ep)" by auto
    note u = epoll_update_new [OF inv fresh]
    show ?thesis
      unfolding s u(1) using u(2) False
      by (auto simp: s epoll_has_def HasChannel_def epoll_interest_def new_interest_def epoll_removable_def epoll_fresh_def fun_eq_iff)
  qed
next
  case (7 s c)
  obtain st ep where s: "s = (st, ep)" by (cases s)
  with 7 obtain ep' where u: "Epoll_RemoveChannel True c s = Inr (set_index c kNew st, ep')" "epoll_inv (set_index c kNew st, ep')"
    "ep_channels ep' = (ep_channels ep)(ch_fd (st c) := None)" "ep_kernel ep' = (ep_kernel ep)(ch_fd (st c) := None)"
    using epoll_remove [of st ep c] by blast
  then show ?case
    by (auto simp: s epoll_has_def HasChannel_def epoll_interest_def epoll_removable_def epoll_fresh_def fun_eq_iff)
next
  case (8 c s)
  then show ?case by (simp add: Epoll_UpdateChannel_def Epoll_RemoveChannel_def AssertInLoopThread_def)
next
  case (9 c obj st p d)
  have "epoll_fd_ok (tie_at c obj st) = epoll_fd_ok st"
    by (intro ext) (auto simp: epoll_fd_ok_def split: option.split)
  then show ?case by (simp add: epoll_inv_def epoll_interest_def epoll_has_def epoll_fresh_def HasChannel_def)
qed (simp_all add: epoll_interest_def epoll_has_def epoll_fresh_def epoll_removable_def HasChannel_def)

text \<open>The slots of \<open>PollPoller\<close>.\<close>

abbreviation slot_fd :: "pollfd list \<Rightarrow> nat \<Rightarrow> int" where
  "slot_fd fds i \<equiv> decode_fd (pfd_fd (fds ! i))"

lemma poll_inv_channel:
  assumes "poll_inv (st, pp)" and "pp_channels pp fd = Some c"
  shows "ch_fd (st c) = fd" "0 \<le> fd" "0 \<le> ch_index (st c)" "nat (ch_index (st c)) < length (pp_fds pp)"
    "slot_fd (pp_fds pp) (nat (ch_index (st c))) = fd"
  using assms by (auto simp: poll_inv_def)

lemma poll_inv_slot:
  assumes "poll_inv (st, pp)" and "i < length (pp_fds pp)"
  obtains c where "pp_channels pp (slot_fd (pp_fds pp) i) = Some c" "ch_index (st c) = int i"
  using assms by (auto simp: poll_inv_def)

lemma poll_inv_slot_inj:
  assumes inv: "poll_inv (st, pp)" and "i < length (pp_fds pp)" and "j < length (pp_fds pp)"
    and "slot_fd (pp_fds pp) i = slot_fd (pp_fds pp) j"
  shows "i = j"
  using poll_inv_slot [OF inv assms(2)] poll_inv_slot [OF inv assms(3)] assms(4) by (metis of_nat_eq_iff option.inject)

lemma poll_invI:
  assumes "\<And>fd c. pp_channels pp fd = Some c \<Longrightarrow> ch_fd (st c) = fd \<and> 0 \<le> fd \<and> 0 \<le> ch_index (st c)
      \<and> nat (ch_index (st c)) < length (pp_fds pp) \<and> slot_fd (pp_fds pp) (nat (ch_index (st c))) = fd"
    and "\<And>i. i < length (pp_fds pp) \<Longrightarrow> \<exists>c. pp_channels pp (slot_fd (pp_fds pp) i) = Some c \<and> ch_index (st c) = int i"
  shows "poll_inv (st, pp)"
  using assms by (simp add: poll_inv_def)

lemma poll_update_new:
  fixes st :: store and pp :: poll_poller
  defines "st' c \<equiv> set_index c (int (length (pp_fds pp))) st"
    and "pp' c \<equiv> pp\<lparr>pp_fds := pp_fds pp @ [\<lparr>pfd_fd = ch_fd (st c), pfd_events = ucast (ch_events (st c)), pfd_revents = 0\<rparr>],
           pp_channels := (pp_channels pp)(ch_fd (st c) \<mapsto> c)\<rparr>"
  assumes inv: "poll_inv (st, pp)" and fresh: "poll_fresh (st, pp) c"
  shows "Poll_UpdateChannel True c (st, pp) = Inr (st' c, pp' c)" and "poll_inv (st' c, pp' c)"
proof -
  have none: "pp_channels pp (ch_fd (st c)) = None" and fd: "0 \<le> ch_fd (st c)"
    using fresh by (simp_all add: poll_fresh_def)
  show "Poll_UpdateChannel True c (st, pp) = Inr (st' c, pp' c)"
    using fresh by (simp add: Poll_UpdateChannel_def AssertInLoopThread_def poll_fresh_def Let_def kNew_def st'_def pp'_def)
  have other: "d \<noteq> c" if "pp_channels pp fd = Some d" for fd d
    using poll_inv_channel(1) [OF inv that] that none by auto
  show "poll_inv (st' c, pp' c)"
  proof (rule poll_invI)
    fix fd d assume "pp_channels (pp' c) fd = Some d"
    then show "ch_fd (st' c d) = fd \<and> 0 \<le> fd \<and> 0 \<le> ch_index (st' c d) \<and> nat (ch_index (st' c d)) < length (pp_fds (pp' c))
        \<and> slot_fd (pp_fds (pp' c)) (nat (ch_index (st' c d))) = fd"
      using poll_inv_channel [OF inv, of fd d] other [of fd d] fd
      by (auto simp: st'_def pp'_def nth_append decode_fd_simps split: if_splits)
  next
    fix i assume i: "i < length (pp_fds (pp' c))"
    show "\<exists>d. pp_channels (pp' c) (slot_fd (pp_fds (pp' c)) i) = Some d \<and> ch_index (st' c d) = int i"
    proof (cases "i = length (pp_fds pp)")
      case True
      with fd show ?thesis by (simp add: st'_def pp'_def decode_fd_simps)
    next
      case False
      with i have i': "i < length (pp_fds pp)" by (simp add: pp'_def)
      from poll_inv_slot [OF inv this] obtain d
        where d: "pp_channels pp (slot_fd (pp_fds pp) i) = Some d" "ch_index (st d) = int i" .
      with none other [OF d(1)] i' show ?thesis by (auto simp: st'_def pp'_def nth_append)
    qed
  qed
qed

lemma poll_update_known:
  fixes st :: store and pp :: poll_poller
  defines "pp' c \<equiv> pp\<lparr>pp_fds := (pp_fds pp)[nat (ch_index (st c)) :=
      \<lparr>pfd_fd = (if ch_events (st c) = 0 then - ch_fd (st c) - 1 else ch_fd (st c)),
       pfd_events = ucast (ch_events (st c)), pfd_revents = 0\<rparr>]\<rparr>"
  assumes inv: "poll_inv (st, pp)" and has: "poll_has (st, pp) c"
  shows "Poll_UpdateChannel True c (st, pp) = Inr (st, pp' c)" and "poll_inv (st, pp' c)"
proof -
  have reg: "pp_channels pp (ch_fd (st c)) = Some c" using has by (simp add: poll_has_def HasChannel_def)
  note ch = poll_inv_channel [OF inv reg]
  have "pfd_fd (pp_fds pp ! nat (ch_index (st c))) = ch_fd (st c) \<or> pfd_fd (pp_fds pp ! nat (ch_index (st c))) = - ch_fd (st c) - 1"
    using ch(5) by (auto simp: decode_fd_def split: if_splits)
  with reg ch show "Poll_UpdateChannel True c (st, pp) = Inr (st, pp' c)"
    by (simp add: Poll_UpdateChannel_def AssertInLoopThread_def Let_def pp'_def IsNoneEvent_def kNoneEvent_def)
  have "slot_fd (pp_fds (pp' c)) i = slot_fd (pp_fds pp) i" if "i < length (pp_fds pp)" for i
    using ch(2,4,5) that by (auto simp: pp'_def nth_list_update decode_fd_simps)
  then show "poll_inv (st, pp' c)"
    using inv by (simp add: poll_inv_def pp'_def)
qed

lemma butlast_swap:
  assumes "i < length xs - 1"
  shows "butlast ((xs[i := last xs])[length xs - 1 := xs ! i]) = take (length xs - 1) (xs[i := last xs])"
  using assms by (simp add: butlast_conv_take)

lemma poll_remove_last:
  assumes inv: "poll_inv (st, pp)" and reg: "pp_channels pp (ch_fd (st c)) = Some c"
    and i: "nat (ch_index (st c)) = length (pp_fds pp) - 1"
  shows "poll_inv (st, pp\<lparr>pp_channels := (pp_channels pp)(ch_fd (st c) := None), pp_fds := butlast (pp_fds pp)\<rparr>)"
    (is "poll_inv (st, ?pp)")
proof -
  let ?fds = "pp_fds pp"
  note ch = poll_inv_channel [OF inv reg]
  have slot: "slot_fd (butlast ?fds) j = slot_fd ?fds j" if "j < length ?fds - 1" for j
    using that by (simp add: nth_butlast)
  show ?thesis
  proof (rule poll_invI)
    fix fd d assume "pp_channels ?pp fd = Some d"
    then have d: "fd \<noteq> ch_fd (st c)" "pp_channels pp fd = Some d" by (auto split: if_splits)
    note dd = poll_inv_channel [OF inv d(2)]
    have "nat (ch_index (st d)) \<noteq> length ?fds - 1" using dd(5) ch(5) d(1) i by auto
    with dd slot show "ch_fd (st d) = fd \<and> 0 \<le> fd \<and> 0 \<le> ch_index (st d) \<and> nat (ch_index (st d)) < length (pp_fds ?pp)
        \<and> slot_fd (pp_fds ?pp) (nat (ch_index (st d))) = fd" by simp
  next
    fix j assume "j < length (pp_fds ?pp)"
    then have j: "j < length ?fds - 1" by simp
    then have "j < length ?fds" by simp
    from poll_inv_slot [OF inv this] obtain d where d: "pp_channels pp (slot_fd ?fds j) = Some d" "ch_index (st d) = int j" .
    have "slot_fd ?fds j \<noteq> ch_fd (st c)" using poll_inv_slot_inj [OF inv, of j "length ?fds - 1"] ch(4,5) i j by auto
    with d j slot show "\<exists>d. pp_channels ?pp (slot_fd (pp_fds ?pp) j) = Some d \<and> ch_index (st d) = int j" by auto
  qed
qed

lemma poll_remove_swap:
  assumes inv: "poll_inv (st, pp)" and reg: "pp_channels pp (ch_fd (st c)) = Some c"
    and i: "nat (ch_index (st c)) < length (pp_fds pp) - 1"
    and e: "pp_channels pp (slot_fd (pp_fds pp) (length (pp_fds pp) - 1)) = Some e"
  shows "poll_inv (set_index e (ch_index (st c)) st, pp\<lparr>pp_channels := (pp_channels pp)(ch_fd (st c) := None),
      pp_fds := take (length (pp_fds pp) - 1) ((pp_fds pp)[nat (ch_index (st c)) := last (pp_fds pp)])\<rparr>)"
    (is "poll_inv (?st, ?pp)")
proof -
  let ?fds = "pp_fds pp" and ?i = "nat (ch_index (st c))" and ?n = "length (pp_fds pp) - 1"
  note ch = poll_inv_channel [OF inv reg] and ce = poll_inv_channel [OF inv e]
  have last: "last ?fds = ?fds ! ?n" using i by (cases ?fds) (auto simp: last_conv_nth)
  have slot: "slot_fd (pp_fds ?pp) j = (if j = ?i then slot_fd ?fds ?n else slot_fd ?fds j)" if "j < ?n" for j
    using that i by (auto simp: last nth_list_update)
  have ifd: "slot_fd ?fds j \<noteq> ch_fd (st c)" if "j < length ?fds" "j \<noteq> ?i" for j
    using poll_inv_slot_inj [OF inv that(1) ch(4)] ch(5) that(2) by auto
  have ei: "nat (ch_index (st e)) = ?n" using poll_inv_slot_inj [OF inv ce(4) _ ce(5)] i by simp
  show ?thesis
  proof (rule poll_invI)
    fix fd d assume "pp_channels ?pp fd = Some d"
    then have d: "fd \<noteq> ch_fd (st c)" "pp_channels pp fd = Some d" by (auto split: if_splits)
    note dd = poll_inv_channel [OF inv d(2)]
    have ni: "nat (ch_index (st d)) \<noteq> ?i" using dd(5) ch(5) d(1) by auto
    have nn: "nat (ch_index (st d)) < ?n" if "d \<noteq> e" using dd(4,5) e d(2) that by (cases "nat (ch_index (st d)) = ?n") auto
    show "ch_fd (?st d) = fd \<and> 0 \<le> fd \<and> 0 \<le> ch_index (?st d) \<and> nat (ch_index (?st d)) < length (pp_fds ?pp)
        \<and> slot_fd (pp_fds ?pp) (nat (ch_index (?st d))) = fd"
      using slot [OF i] slot [OF nn] dd ce nn ni i ch(3) by (cases "d = e") auto
  next
    fix j assume "j < length (pp_fds ?pp)"
    then have j: "j < ?n" "j < length ?fds" by simp_all
    show "\<exists>d. pp_channels ?pp (slot_fd (pp_fds ?pp) j) = Some d \<and> ch_index (?st d) = int j"
    proof (cases "j = ?i")
      case True
      with slot [OF j(1)] e ifd [of ?n] i ch(3) show ?thesis by auto
    next
      case False
      from poll_inv_slot [OF inv j(2)] obtain d where d: "pp_channels pp (slot_fd ?fds j) = Some d" "ch_index (st d) = int j" .
      with ei j have "d \<noteq> e" by auto
      with d False ifd [OF j(2) False] slot [OF j(1)] show ?thesis by auto
    qed
  qed
qed

lemma poll_remove:
  assumes inv: "poll_inv (st, pp)" and rem: "poll_removable (st, pp) c"
  shows "\<exists>st' pp'. Poll_RemoveChannel True c (st, pp) = Inr (st', pp') \<and> poll_inv (st', pp')
    \<and> pp_channels pp' = (pp_channels pp)(ch_fd (st c) := None)
    \<and> (\<exists>d i. st' = set_index d i st \<and> pp_channels pp (ch_fd (st d)) = Some d)
    \<and> (\<forall>fd d. pp_channels pp' fd = Some d \<longrightarrow>
         pp_fds pp' ! nat (ch_index (st' d)) = pp_fds pp ! nat (ch_index (st d)))"
proof -
  let ?fds = "pp_fds pp" and ?i = "nat (ch_index (st c))" and ?n = "length (pp_fds pp) - 1"
  have reg: "pp_channels pp (ch_fd (st c)) = Some c" and ev: "ch_events (st c) = 0"
    and slot: "pfd_fd (?fds ! ?i) = - ch_fd (st c) - 1" "pfd_events (?fds ! ?i) = 0"
    using rem by (simp_all add: poll_removable_def poll_has_def HasChannel_def)
  note ch = poll_inv_channel [OF inv reg]
  have asserts: "0 \<le> ch_index (st c) \<and> ch_index (st c) < int (length ?fds)" using ch by auto
  show ?thesis
  proof (cases "?i = ?n")
    case True
    let ?pp = "pp\<lparr>pp_channels := (pp_channels pp)(ch_fd (st c) := None), pp_fds := butlast ?fds\<rparr>"
    have run: "Poll_RemoveChannel True c (st, pp) = Inr (st, ?pp)"
      using reg ev slot asserts True
      by (simp add: Poll_RemoveChannel_def AssertInLoopThread_def Let_def IsNoneEvent_def kNoneEvent_def)
    have "poll_inv (st, ?pp)" by (rule poll_remove_last [OF inv reg True])
    moreover from this have "butlast ?fds ! nat (ch_index (st d)) = ?fds ! nat (ch_index (st d))"
      if "pp_channels ?pp fd = Some d" for fd d
      using poll_inv_channel(4) [OF _ that] by (simp add: nth_butlast)
    moreover have "st = set_index c (ch_index (st c)) st" by (simp add: set_index_def)
    ultimately show ?thesis using run reg by auto
  next
    case False
    with ch(4) have i: "?i < ?n" by simp
    then have "?n < length ?fds" by simp
    from poll_inv_slot [OF inv this] obtain e where e: "pp_channels pp (slot_fd ?fds ?n) = Some e" "ch_index (st e) = int ?n" .
    have last: "last ?fds = ?fds ! ?n" using i by (cases ?fds) (auto simp: last_conv_nth)
    have efd: "slot_fd ?fds ?n \<noteq> ch_fd (st c)" using poll_inv_slot_inj [OF inv \<open>?n < length ?fds\<close> ch(4)] ch(5) i by auto
    let ?st = "set_index e (ch_index (st c)) st"
    let ?pp = "pp\<lparr>pp_channels := (pp_channels pp)(ch_fd (st c) := None), pp_fds := take ?n (?fds[?i := last ?fds])\<rparr>"
    have run: "Poll_RemoveChannel True c (st, pp) = Inr (?st, ?pp)"
      using reg ev slot asserts False e(1) efd butlast_swap [OF i]
      by (simp add: Poll_RemoveChannel_def AssertInLoopThread_def Let_def IsNoneEvent_def kNoneEvent_def last)
    have inv': "poll_inv (?st, ?pp)" by (rule poll_remove_swap [OF inv reg i e(1)])
    have "pp_fds ?pp ! nat (ch_index (?st d)) = ?fds ! nat (ch_index (st d))" if d: "pp_channels ?pp fd = Some d" for fd d
    proof (cases "d = e")
      case True
      with i e(2) show ?thesis by (simp add: last nat_diff_distrib)
    next
      case False
      from d have d': "fd \<noteq> ch_fd (st c)" "pp_channels pp fd = Some d" by (auto split: if_splits)
      have "nat (ch_index (st d)) \<noteq> ?i" using poll_inv_channel(5) [OF inv d'(2)] ch(5) d'(1) by auto
      with poll_inv_channel(4) [OF inv' d] False show ?thesis by simp
    qed
    with run inv' e(1) poll_inv_channel(1) [OF inv e(1)] show ?thesis by auto
  qed
qed

lemma poll_interest_at:
  "poll_interest (st, pp) fd = (case pp_channels pp fd of None \<Rightarrow> None
     | Some c \<Rightarrow> if pfd_fd (pp_fds pp ! nat (ch_index (st c))) = fd
         then Some (ucast (pfd_events (pp_fds pp ! nat (ch_index (st c))))) else None)"
  by (auto simp: poll_interest_def Let_def split: option.splits)

lemmas poll_preds = poll_has_def poll_fresh_def poll_removable_def HasChannel_def

text \<open>Two states with the same channels and slots on a descriptor agree on it.\<close>

lemma poll_same_slot:
  assumes "pp_channels pp' fd = pp_channels pp fd"
    and "\<And>d. pp_channels pp fd = Some d \<Longrightarrow> pp_fds pp' ! nat (ch_index (st' d)) = pp_fds pp ! nat (ch_index (st d))"
  shows "poll_interest (st', pp') fd = poll_interest (st, pp) fd"
  using assms by (simp add: poll_interest_at split: option.split)

lemma poll_update_slots:
  assumes inv: "poll_inv (st, pp)" and known: "poll_fresh (st, pp) c \<or> poll_has (st, pp) c"
  shows "\<exists>st' pp'. Poll_UpdateChannel True c (st, pp) = Inr (st', pp') \<and> poll_inv (st', pp')
    \<and> (\<exists>i. st' = set_index c i st) \<and> pp_channels pp' = (pp_channels pp)(ch_fd (st c) \<mapsto> c)
    \<and> (\<forall>fd d. fd \<noteq> ch_fd (st c) \<longrightarrow> pp_channels pp fd = Some d \<longrightarrow>
         pp_fds pp' ! nat (ch_index (st' d)) = pp_fds pp ! nat (ch_index (st d)))
    \<and> pp_fds pp' ! nat (ch_index (st' c))
       = \<lparr>pfd_fd = (if ch_events (st c) = 0 \<and> poll_has (st, pp) c then - ch_fd (st c) - 1 else ch_fd (st c)),
          pfd_events = ucast (ch_events (st c)), pfd_revents = 0\<rparr>"
proof (cases "poll_has (st, pp) c")
  case True
  then have reg: "pp_channels pp (ch_fd (st c)) = Some c" by (simp add: poll_preds)
  note ch = poll_inv_channel [OF inv reg] and u = poll_update_known [OF inv True]
  have "st = set_index c (ch_index (st c)) st" by (simp add: set_index_def)
  moreover have "(pp_channels pp)(ch_fd (st c) \<mapsto> c) = pp_channels pp" using reg by auto
  moreover have "(pp_fds pp)[nat (ch_index (st c)) := x] ! nat (ch_index (st d)) = pp_fds pp ! nat (ch_index (st d))"
    if "fd \<noteq> ch_fd (st c)" "pp_channels pp fd = Some d" for fd d x
    using poll_inv_channel(5) [OF inv that(2)] ch(5) that(1) by (metis nth_list_update_neq)
  ultimately show ?thesis unfolding u(1) using u(2) ch(4) True by auto
next
  case False
  with known have fresh: "poll_fresh (st, pp) c" by simp
  note u = poll_update_new [OF inv fresh]
  have "d \<noteq> c \<and> nat (ch_index (st d)) < length (pp_fds pp)" if "pp_channels pp fd = Some d" for fd d
    using poll_inv_channel(1,4) [OF inv that] that fresh by (auto simp: poll_preds)
  then show ?thesis unfolding u(1) using u(2) False by (fastforce simp: nth_append)
qed

interpretation poll: poller poll_inv poll_interest None poll_has poll_fresh poll_removable
  Poll_UpdateChannel Poll_RemoveChannel
proof (unfold_locales, goal_cases)
  case (6 s c)
  obtain st pp where s: "s = (st, pp)" by (cases s)
  with 6 obtain st' pp' i where u: "Poll_UpdateChannel True c s = Inr (st', pp')" "poll_inv (st', pp')"
    and st': "st' = set_index c i st" and ch: "pp_channels pp' = (pp_channels pp)(ch_fd (st c) \<mapsto> c)"
    and oth: "\<And>fd d. fd \<noteq> ch_fd (st c) \<Longrightarrow> pp_channels pp fd = Some d \<Longrightarrow>
         pp_fds pp' ! nat (ch_index (st' d)) = pp_fds pp ! nat (ch_index (st d))"
    and slot: "pp_fds pp' ! nat (ch_index (st' c))
       = \<lparr>pfd_fd = (if ch_events (st c) = 0 \<and> poll_has s c then - ch_fd (st c) - 1 else ch_fd (st c)),
          pfd_events = ucast (ch_events (st c)), pfd_revents = 0\<rparr>"
    using poll_update_slots [of st pp c] by auto
  let ?new = "new_interest None (poll_has s c) (poll_interest s (ch_fd (st c))) (ch_events (st c))"
  have "0 \<le> ch_fd (st c)" using 6 s poll_inv_channel(2) [of st pp "ch_fd (st c)" c] by (auto simp: poll_fresh_def poll_has_def HasChannel_def)
  then have "poll_interest (st', pp') (ch_fd (st c)) = ?new"
    using slot ch 6 s by (auto simp: poll_interest_at new_interest_def ucast_valid_events)
  then have "poll_interest (st', pp') fd = ((poll_interest s)(ch_fd (st c) := ?new)) fd" for fd
    using poll_same_slot [of pp' fd pp st' st] oth [of fd] ch s by auto
  then have "poll_interest (st', pp') = (poll_interest s)(ch_fd (st c) := ?new)" ..
  moreover have "poll_removable (st', pp') d = poll_removable s d" if "ch_fd (st d) \<noteq> ch_fd (st c)" for d
    using oth [of "ch_fd (st d)" d] that by (auto simp: s st' ch poll_preds)
  moreover have "poll_removable (st', pp') c" if "poll_has s c" "ch_events (st c) = 0"
    using slot that by (simp add: s st' ch poll_preds)
  ultimately show ?case unfolding u(1) using u(2) by (auto simp: s st' ch poll_preds)
next
  case (7 s c)
  obtain st pp where s: "s = (st, pp)" by (cases s)
  with 7 obtain st' pp' where u: "Poll_RemoveChannel True c s = Inr (st', pp')" "poll_inv (st', pp')"
    and ch: "pp_channels pp' = (pp_channels pp)(ch_fd (st c) := None)"
    and st': "\<exists>d i. st' = set_index d i st \<and> pp_channels pp (ch_fd (st d)) = Some d"
    and oth: "\<And>fd d. pp_channels pp' fd = Some d \<Longrightarrow> pp_fds pp' ! nat (ch_index (st' d)) = pp_fds pp ! nat (ch_index (st d))"
    using poll_remove [of st pp c] by blast
  from st' have same: "ch_fd (st' d) = ch_fd (st d)" "ch_events (st' d) = ch_events (st d)"
    "pp_channels pp (ch_fd (st d)) = None \<Longrightarrow> ch_index (st' d) = ch_index (st d)" for d by auto
  have "poll_interest (st', pp') fd = ((poll_interest s)(ch_fd (st c) := None)) fd" for fd
    using poll_same_slot [of pp' fd pp st' st] oth [of fd] ch s by (auto simp: poll_interest_at)
  then have "poll_interest (st', pp') = (poll_interest s)(ch_fd (st c) := None)" ..
  moreover have "poll_removable (st', pp') d = poll_removable s d" "poll_has (st', pp') d = poll_has s d"
    "poll_fresh (st', pp') d = poll_fresh s d" if "ch_fd (st d) \<noteq> ch_fd (st c)" for d
    using oth [of "ch_fd (st d)" d] that by (auto simp: s same ch poll_preds)
  moreover have "\<not> poll_has (st', pp') c" by (simp add: poll_preds same ch)
  ultimately show ?case unfolding u(1) using u(2) by (simp add: s same)
next
  case (8 c s)
  then show ?case by (simp add: Poll_UpdateChannel_def Poll_RemoveChannel_def AssertInLoopThread_def)
next
  case (2 c ev st p)
  show ?case by (rule ext) (simp add: poll_interest_at split: option.split)
next
  case (9 c obj st p d)
  have "poll_interest (tie_at c obj st, p) = poll_interest (st, p)"
    by (rule ext) (simp add: poll_interest_at split: option.split)
  then show ?case by (simp add: poll_inv_def poll_preds)
qed (simp_all add: poll_inv_def poll_preds)

text \<open>The empty pollers agree with fresh channels on distinct descriptors.\<close>

definition fresh_store :: "(ptr \<Rightarrow> int) \<Rightarrow> store" where
  "fresh_store fd_of = (\<lambda>c. Channel_new (fd_of c))"

definition fresh_lives :: "ptr set \<Rightarrow> ptr \<Rightarrow> life" where
  "fresh_lives C c = (if c \<in> C then Fresh else Gone)"

lemmas fresh_defs = fresh_store_def fresh_lives_def Channel_new_def life_interest_def

lemma epoll_agrees_init:
  assumes "inj_on fd_of C" and "\<forall>c\<in>C. 0 \<le> fd_of c" and "EpollPoller_new epollfd = Inr ep"
  shows "epoll.agrees C fd_of (fresh_lives C) (fresh_store fd_of, ep)"
  using assms
  by (auto simp: epoll.agrees_def epoll.agrees1_def EpollPoller_new_def fresh_defs epoll_inv_def epoll_fd_ok_def epoll_fresh_def
      epoll_interest_def kNew_def split: if_splits)

lemma poll_agrees_init:
  assumes "inj_on fd_of C" and "\<forall>c\<in>C. 0 \<le> fd_of c"
  shows "poll.agrees C fd_of (fresh_lives C) (fresh_store fd_of, PollPoller_new)"
  using assms
  by (auto simp: poll.agrees_def poll.agrees1_def PollPoller_new_def fresh_defs poll_inv_def poll_fresh_def poll_interest_def kNew_def)

section \<open>Properties\<close>


lemma example_channel_ops:
  "life_run [Op_mask Enable_reading 1, Op_mask Enable_reading 2, Op_mask Enable_writing 2, Op_mask Disable_all 1,
     Op_mask Disable_all 1, Op_mask Disable_reading 2] (fresh_lives {1, 2}) = Some ((fresh_lives {1, 2})(1 := Bare, 2 := Live 4))"
  by (auto simp: fresh_lives_def event_ops event_consts life_next_def fun_eq_iff)


text \<open>
  The pollers differ outside that discipline: a channel whose mask is emptied before it ever asked for an
  event (as \<open>~Acceptor\<close> does when \<open>Listen\<close> was never called) is then removed by \<open>EpollPoller\<close>, but \<open>PollPoller\<close>
  stops on the assertion that the slot is an ignored one.
\<close>

theorem poll_remove_never_enabled:
  assumes "0 \<le> fd" and "EpollPoller_new epollfd = Inr ep"
  shows "(\<exists>s. foldr_result (channel_step (Epoll_UpdateChannel True) (Epoll_RemoveChannel True))
        ((\<lambda>_. Channel_new fd), ep) [Op_mask Disable_all c, Op_remove c] = Inr s)
    \<and> foldr_result (channel_step (Poll_UpdateChannel True) (Poll_RemoveChannel True))
      ((\<lambda>_. Channel_new fd), PollPoller_new) [Op_mask Disable_all c, Op_remove c] = Inl Assert_failed"
  using assms
  by (auto simp: DisableAll_def event_ops event_consts Channel_new_def EpollPoller_new_def PollPoller_new_def Let_def
      Epoll_UpdateChannel_def Epoll_RemoveChannel_def Poll_UpdateChannel_def Poll_RemoveChannel_def AssertInLoopThread_def
      Epoll_Update_def epoll_ctl_def index_consts set_index_def set_events_def IsNoneEvent_def split: if_splits)

theorem poll_remove_never_enabled_witness:
  "foldr_result (channel_step (Poll_UpdateChannel True) (Poll_RemoveChannel True))
      ((\<lambda>_. Channel_new 7), PollPoller_new) [Op_mask Disable_all 5, Op_remove 5] = Inl Assert_failed"
  using poll_remove_never_enabled [of 7 3 "\<lparr>ep_channels = Map.empty, ep_events_size = 16, ep_kernel = Map.empty\<rparr>" 5]
  by (simp add: EpollPoller_new_def kInitEventListSize_def)

text \<open>
  \<open>EpollPoller::Poll\<close> never reports a failed \<open>epoll_wait\<close>: the \<open>-1\<close> is stored in a \<open>size_t\<close> and taken
  for a positive count, so the branch that logs the error is never entered; the call returns no active channel and
  leaves the state unchanged. A successful wait with \<open>n\<close> ready events marks exactly those channels, in order, and
  doubles the event array when it was full.
\<close>

theorem Epoll_Poll_results:
  assumes "ep_events_size (snd s) < 2 ^ 31" and "evs \<noteq> []" and "length evs \<le> ep_events_size (snd s)"
  shows "Epoll_Poll (\<lambda>_. Inl e) s = (s, [], [])
    \<and> Epoll_Poll (\<lambda>_. Inr []) s = (s, [], [Log_timeout])
    \<and> Epoll_Poll (\<lambda>_. Inr evs) s = ((fold (\<lambda>(ev, c). set_revents c ev) evs (fst s),
        if length evs = ep_events_size (snd s) then (snd s)\<lparr>ep_events_size := 2 * length evs\<rparr> else snd s), map snd evs, [])"
proof -
  have "Epoll_FillActiveChannels evs st = (fold (\<lambda>(ev, c). set_revents c ev) evs st, map snd evs)" for evs st
    by (induction evs st rule: Epoll_FillActiveChannels.induct) simp_all
  then show ?thesis
    using assms by (simp add: Epoll_Poll_def Let_def net_simps size_of_int_def mult.commute)
qed

theorem Epoll_Poll_results_witness:
  "Epoll_Poll (\<lambda>_. Inr [(1, 4), (5, 6)]) (fresh_store int, \<lparr>ep_channels = [4 \<mapsto> 4, 6 \<mapsto> 6], ep_events_size = 2, ep_kernel = Map.empty\<rparr>)
    = ((set_revents 6 5 (set_revents 4 1 (fresh_store int)),
        \<lparr>ep_channels = [4 \<mapsto> 4, 6 \<mapsto> 6], ep_events_size = 4, ep_kernel = Map.empty\<rparr>), [4, 6], [])"
  using Epoll_Poll_results [of "(fresh_store int, \<lparr>ep_channels = [4 \<mapsto> 4, 6 \<mapsto> 6], ep_events_size = 2, ep_kernel = Map.empty\<rparr>)"
      "[(1, 4), (5, 6)]" 4]
  by simp

end
