(* ===== verification/Event_Loop.thy ===== *)
theory Event_Loop
  imports Timer_Queue Poller
begin

text \<open>
  \<open>net/event_loop.h\<close> and \<open>net/event_loop.cc\<close>: the reactor of one thread. The first part models each
  operation as a function on the loop's members, where \<open>in_loop\<close> is the answer of \<open>IsInLoopThread()\<close> and
  the eventfd's counter is part of the state. Functors are values \<open>'f\<close>; what they do is an argument.

  The second part is the concurrent program: the loop thread runs \<open>Loop()\<close> one atomic action at a time and may
  queue functors outside of it (the init callback of \<open>EventLoopThread::ThreadFunc\<close> runs before \<open>Loop()\<close>),
  other threads call \<open>QueueInLoop\<close> (whose append and wake-up are two actions) and \<open>Quit\<close>. The invariants
  are proved by rule induction over the steps.
\<close>

section \<open>The operations\<close>

record 'f event_loop =
  looping :: bool
  quit :: bool
  calling_pending_functors :: bool
  pending_functors :: "'f list"
  wakeup_count :: nat   \<comment> \<open>the counter of \<open>wakeup_fd_\<close>\<close>

definition kPollTimeMs :: int where "kPollTimeMs = 10000"

definition EventLoop_init :: "'f event_loop" where
  "EventLoop_init = \<lparr>looping = False, quit = False, calling_pending_functors = False, pending_functors = [], wakeup_count = 0\<rparr>"

text \<open>The thread-local \<open>t_loop_in_this_thread\<close> of every thread, and construction and destruction of a loop.\<close>

definition EventLoop_new :: "nat \<Rightarrow> ptr \<Rightarrow> (nat \<rightharpoonup> ptr) \<Rightarrow> ((nat \<rightharpoonup> ptr) \<times> 'f event_loop) result" where
  "EventLoop_new tid loop t_loop =
     (if t_loop tid \<noteq> None then Inl Fatal else Inr (t_loop(tid \<mapsto> loop), EventLoop_init))"

definition EventLoop_destroy :: "nat \<Rightarrow> (nat \<rightharpoonup> ptr) \<Rightarrow> (nat \<rightharpoonup> ptr)" where
  "EventLoop_destroy tid t_loop = t_loop(tid := None)"

definition GetEventLoopOfCurrentThread :: "nat \<Rightarrow> (nat \<rightharpoonup> ptr) \<Rightarrow> ptr option" where
  "GetEventLoopOfCurrentThread tid t_loop = t_loop tid"

text \<open>A write of 1 to an eventfd fails when the counter is at its maximum \<open>2 ^ 64 - 2\<close>; a read clears it.\<close>

definition Wakeup :: "'f event_loop \<Rightarrow> 'f event_loop" where
  "Wakeup l = (if wakeup_count l < 2 ^ 64 - 2 then l\<lparr>wakeup_count := Suc (wakeup_count l)\<rparr> else l)"

definition EventLoop_HandleRead :: "'f event_loop \<Rightarrow> 'f event_loop" where
  "EventLoop_HandleRead l = l\<lparr>wakeup_count := 0\<rparr>"

definition Quit :: "bool \<Rightarrow> 'f event_loop \<Rightarrow> 'f event_loop" where
  "Quit in_loop l = (let l = l\<lparr>quit := True\<rparr> in if in_loop then Wakeup l else l)"

definition queue_push :: "'f \<Rightarrow> 'f event_loop \<Rightarrow> 'f event_loop" where
  "queue_push cb l = l\<lparr>pending_functors := pending_functors l @ [cb]\<rparr>"

definition queue_wake :: "bool \<Rightarrow> 'f event_loop \<Rightarrow> 'f event_loop" where
  "queue_wake in_loop l = (if \<not> in_loop \<or> calling_pending_functors l then Wakeup l else l)"

definition QueueInLoop :: "bool \<Rightarrow> 'f \<Rightarrow> 'f event_loop \<Rightarrow> 'f event_loop" where
  "QueueInLoop in_loop cb l = queue_wake in_loop (queue_push cb l)"

text \<open>\<open>run cb\<close> is the call \<open>cb()\<close>; it acts on the loop and on the rest of the program.\<close>

definition RunInLoop :: "('f \<Rightarrow> 'f event_loop \<times> 'w \<Rightarrow> ('f event_loop \<times> 'w) result) \<Rightarrow> bool \<Rightarrow> 'f
    \<Rightarrow> 'f event_loop \<times> 'w \<Rightarrow> ('f event_loop \<times> 'w) result" where
  "RunInLoop run in_loop cb s = (if in_loop then run cb s else Inr (QueueInLoop in_loop cb (fst s), snd s))"

definition swap_pending :: "'f event_loop \<Rightarrow> 'f list \<times> 'f event_loop" where
  "swap_pending l = (pending_functors l, l\<lparr>pending_functors := []\<rparr>)"

definition DoPendingFunctors :: "('f \<Rightarrow> 'f event_loop \<times> 'w \<Rightarrow> ('f event_loop \<times> 'w) result)
    \<Rightarrow> 'f event_loop \<times> 'w \<Rightarrow> ('f event_loop \<times> 'w) result" where
  "DoPendingFunctors run s =
     (let (functors, l) = swap_pending ((fst s)\<lparr>calling_pending_functors := True\<rparr>)
      in bindr (foldr_result (\<lambda>s f. run f s) (l, snd s) functors)
           (\<lambda>s. Inr ((fst s)\<lparr>calling_pending_functors := False\<rparr>, snd s)))"

text \<open>\<open>Loop\<close>: \<open>poll\<close> is \<open>Poller::Poll\<close>, \<open>handle\<close> is \<open>Channel::HandleEvent\<close>. \<open>None\<close> is a loop that never quits.\<close>

definition loop_body :: "('w \<Rightarrow> timestamp \<times> ptr list \<times> 'w) \<Rightarrow> (ptr \<Rightarrow> timestamp \<Rightarrow> 'f event_loop \<times> 'w \<Rightarrow> ('f event_loop \<times> 'w) result)
    \<Rightarrow> ('f \<Rightarrow> 'f event_loop \<times> 'w \<Rightarrow> ('f event_loop \<times> 'w) result) \<Rightarrow> 'f event_loop \<times> 'w \<Rightarrow> ('f event_loop \<times> 'w) result" where
  "loop_body poll handle run s =
     (let (poll_return_time, active_channels, w) = poll (snd s)
      in bindr (foldr_result (\<lambda>s c. handle c poll_return_time s) (fst s, w) active_channels) (DoPendingFunctors run))"

partial_function (option) loop_while :: "('w \<Rightarrow> timestamp \<times> ptr list \<times> 'w) \<Rightarrow> (ptr \<Rightarrow> timestamp \<Rightarrow> 'f event_loop \<times> 'w \<Rightarrow> ('f event_loop \<times> 'w) result)
    \<Rightarrow> ('f \<Rightarrow> 'f event_loop \<times> 'w \<Rightarrow> ('f event_loop \<times> 'w) result) \<Rightarrow> 'f event_loop \<times> 'w \<Rightarrow> ('f event_loop \<times> 'w) result option" where
  "loop_while poll handle run s =
     (if quit (fst s) then Some (Inr s)
      else (case loop_body poll handle run s of Inl e \<Rightarrow> Some (Inl e) | Inr s' \<Rightarrow> loop_while poll handle run s'))"

definition Loop :: "('w \<Rightarrow> timestamp \<times> ptr list \<times> 'w) \<Rightarrow> (ptr \<Rightarrow> timestamp \<Rightarrow> 'f event_loop \<times> 'w \<Rightarrow> ('f event_loop \<times> 'w) result)
    \<Rightarrow> ('f \<Rightarrow> 'f event_loop \<times> 'w \<Rightarrow> ('f event_loop \<times> 'w) result) \<Rightarrow> bool \<Rightarrow> 'f event_loop \<times> 'w \<Rightarrow> ('f event_loop \<times> 'w) result option" where
  "Loop poll handle run in_loop s =
     (if looping (fst s) then Some (Inl Assert_failed)
      else if \<not> in_loop then Some (Inl Fatal)
      else (case loop_while poll handle run ((fst s)\<lparr>looping := True, quit := False\<rparr>, snd s) of
              None \<Rightarrow> None
            | Some r \<Rightarrow> Some (bindr r (\<lambda>s. Inr ((fst s)\<lparr>looping := False\<rparr>, snd s)))))"

text \<open>The timer interface; \<open>run_in_loop\<close> is \<open>RunInLoop\<close> and \<open>q\<close> the loop's timer queue.\<close>

definition RunAt ::
  "(('c timer_queue \<Rightarrow> 'c timer_queue result) \<Rightarrow> 'c timer_queue \<Rightarrow> 'c timer_queue result) \<Rightarrow> (nat \<Rightarrow> timestamp)
    \<Rightarrow> timestamp \<Rightarrow> 'c \<Rightarrow> 'c timer_queue \<Rightarrow> 'c timer_queue result" where
  "RunAt run_in_loop clock t cb q = AddTimer run_in_loop clock cb t 0 q"

definition RunAfter ::
  "(rat \<Rightarrow> rat) \<Rightarrow> (('c timer_queue \<Rightarrow> 'c timer_queue result) \<Rightarrow> 'c timer_queue \<Rightarrow> 'c timer_queue result) \<Rightarrow> (nat \<Rightarrow> timestamp)
    \<Rightarrow> rat \<Rightarrow> 'c \<Rightarrow> 'c timer_queue \<Rightarrow> 'c timer_queue result" where
  "RunAfter rnd run_in_loop clock wait_time cb q =
     (let (now, q) = read_clock clock q in RunAt run_in_loop clock (AddTime rnd now wait_time) cb q)"

definition RunEvery ::
  "(rat \<Rightarrow> rat) \<Rightarrow> (('c timer_queue \<Rightarrow> 'c timer_queue result) \<Rightarrow> 'c timer_queue \<Rightarrow> 'c timer_queue result) \<Rightarrow> (nat \<Rightarrow> timestamp)
    \<Rightarrow> rat \<Rightarrow> 'c \<Rightarrow> 'c timer_queue \<Rightarrow> 'c timer_queue result" where
  "RunEvery rnd run_in_loop clock interval cb q =
     (let (now, q) = read_clock clock q in AddTimer run_in_loop clock cb (AddTime rnd now interval) interval q)"

section \<open>The concurrent program\<close>

text \<open>
  The position of the loop thread in \<open>Loop()\<close>; \<open>Handling w\<close> says whether the wake-up channel is among the
  active ones still to be handled, \<open>Running fs\<close> which functors of the swapped vector are left.
\<close>

datatype 'f loop_pc = Before_loop | Test_quit | Polling | Handling bool | Swapping | Running "'f list" | After_loop

record 'f system =
  pc :: "'f loop_pc"
  the_loop :: "'f event_loop"
  wakers :: nat        \<comment> \<open>other threads between the two actions of \<open>QueueInLoop\<close>\<close>
  unannounced :: nat   \<comment> \<open>pending functors the loop thread queued outside of \<open>Loop()\<close>\<close>
  queued :: "'f list"  \<comment> \<open>every functor appended so far\<close>
  executed :: "'f list"

definition system_init :: "'f system" where
  "system_init = \<lparr>pc = Before_loop, the_loop = EventLoop_init, wakers = 0, unannounced = 0, queued = [], executed = []\<rparr>"

inductive loop_step :: "'f system \<Rightarrow> 'f system \<Rightarrow> bool" where
  start: "pc s = Before_loop \<or> pc s = After_loop \<Longrightarrow> \<not> looping (the_loop s) \<Longrightarrow>
    loop_step s (s\<lparr>pc := Test_quit, the_loop := (the_loop s)\<lparr>looping := True, quit := False\<rparr>\<rparr>)"
| test_go: "pc s = Test_quit \<Longrightarrow> \<not> quit (the_loop s) \<Longrightarrow> loop_step s (s\<lparr>pc := Polling\<rparr>)"
| test_stop: "pc s = Test_quit \<Longrightarrow> quit (the_loop s) \<Longrightarrow>
    loop_step s (s\<lparr>pc := After_loop, the_loop := (the_loop s)\<lparr>looping := False\<rparr>\<rparr>)"
| poll_wakeup: "pc s = Polling \<Longrightarrow> wakeup_count (the_loop s) > 0 \<Longrightarrow> loop_step s (s\<lparr>pc := Handling True\<rparr>)"
| poll_other: "pc s = Polling \<Longrightarrow> loop_step s (s\<lparr>pc := Handling False\<rparr>)"
| handle_wakeup: "pc s = Handling True \<Longrightarrow>
    loop_step s (s\<lparr>pc := Handling False, the_loop := EventLoop_HandleRead (the_loop s)\<rparr>)"
| handle_done: "pc s = Handling False \<Longrightarrow>
    loop_step s (s\<lparr>pc := Swapping, the_loop := (the_loop s)\<lparr>calling_pending_functors := True\<rparr>\<rparr>)"
| swap: "pc s = Swapping \<Longrightarrow> swap_pending (the_loop s) = (fs, l) \<Longrightarrow> loop_step s (s\<lparr>pc := Running fs, the_loop := l, unannounced := 0\<rparr>)"
| run_functor: "pc s = Running (f # fs) \<Longrightarrow> loop_step s (s\<lparr>pc := Running fs, executed := executed s @ [f]\<rparr>)"
| run_done: "pc s = Running [] \<Longrightarrow>
    loop_step s (s\<lparr>pc := Test_quit, the_loop := (the_loop s)\<lparr>calling_pending_functors := False\<rparr>\<rparr>)"
| callback_queues: "pc s = Handling w \<or> pc s = Running fs \<Longrightarrow>
    loop_step s (s\<lparr>the_loop := QueueInLoop True f (the_loop s), queued := queued s @ [f]\<rparr>)"
| outside_queues: "pc s = Before_loop \<or> pc s = After_loop \<Longrightarrow>
    loop_step s (s\<lparr>the_loop := QueueInLoop True f (the_loop s), unannounced := Suc (unannounced s), queued := queued s @ [f]\<rparr>)"
| callback_quits: "pc s = Handling w \<or> pc s = Running fs \<or> pc s = Before_loop \<or> pc s = After_loop \<Longrightarrow> loop_step s (s\<lparr>the_loop := Quit True (the_loop s)\<rparr>)"
| other_pushes: "loop_step s (s\<lparr>the_loop := queue_push f (the_loop s), wakers := Suc (wakers s), queued := queued s @ [f]\<rparr>)"
| other_wakes: "wakers s = Suc n \<Longrightarrow> loop_step s (s\<lparr>the_loop := queue_wake False (the_loop s), wakers := n\<rparr>)"
| other_quits: "loop_step s (s\<lparr>the_loop := Quit False (the_loop s)\<rparr>)"

inductive loop_steps :: "'f system \<Rightarrow> 'f system \<Rightarrow> bool" where
  no_step: "loop_steps s s"
| one_more: "loop_steps s s' \<Longrightarrow> loop_step s' s'' \<Longrightarrow> loop_steps s s''"

fun left_to_run :: "'f loop_pc \<Rightarrow> 'f list" where
  "left_to_run (Running fs) = fs"
| "left_to_run _ = []"

text \<open>The positions from which the loop thread may block in \<open>Poll\<close> without first swapping the vector.\<close>

fun may_block :: "'f loop_pc \<Rightarrow> bool" where
  "may_block Before_loop = True"
| "may_block Test_quit = True"
| "may_block Polling = True"
| "may_block (Running fs) = True"
| "may_block After_loop = True"
| "may_block _ = False"

definition loop_inv :: "'f system \<Rightarrow> bool" where
  "loop_inv s \<longleftrightarrow>
     queued s = executed s @ left_to_run (pc s) @ pending_functors (the_loop s)
     \<and> (calling_pending_functors (the_loop s) \<longleftrightarrow> (case pc s of Swapping \<Rightarrow> True | Running _ \<Rightarrow> True | _ \<Rightarrow> False))
     \<and> (may_block (pc s) \<longrightarrow> unannounced s < length (pending_functors (the_loop s)) \<longrightarrow> wakeup_count (the_loop s) > 0 \<or> wakers s > 0)"

lemma Wakeup_simps [simp]:
  "quit (Wakeup l) = quit l" "looping (Wakeup l) = looping l"
  "calling_pending_functors (Wakeup l) = calling_pending_functors l" "pending_functors (Wakeup l) = pending_functors l"
  "wakeup_count (Wakeup l) > 0"
  by (simp_all add: Wakeup_def)

lemmas loop_ops = QueueInLoop_def queue_wake_def queue_push_def Quit_def swap_pending_def EventLoop_HandleRead_def

lemma loop_step_inv: "loop_step s s' \<Longrightarrow> loop_inv s \<Longrightarrow> loop_inv s'"
  by (induction rule: loop_step.induct) (auto simp: loop_inv_def loop_ops Let_def)

lemma loop_steps_inv: "loop_steps s s' \<Longrightarrow> loop_inv s \<Longrightarrow> loop_inv s'"
  by (induction rule: loop_steps.induct) (blast intro: loop_step_inv)+

lemma loop_inv_init: "loop_inv system_init"
  by (simp add: loop_inv_def system_init_def EventLoop_init_def)

lemma loop_steps_trans: "loop_steps s s' \<Longrightarrow> loop_steps s' s'' \<Longrightarrow> loop_steps s s''"
  by (rotate_tac, induction rule: loop_steps.induct) (auto intro: loop_steps.intros)

text \<open>The loop thread, left alone, runs the functors it has swapped out.\<close>

lemma run_swapped: "pc s = Running fs \<Longrightarrow> loop_steps s (s\<lparr>pc := Running [], executed := executed s @ fs\<rparr>)"
proof (induction fs arbitrary: s)
  case Nil
  then have "s\<lparr>pc := Running [], executed := executed s @ []\<rparr> = s" by simp
  then show ?case by (simp add: no_step)
next
  case (Cons f fs)
  let ?s = "s\<lparr>pc := Running fs, executed := executed s @ [f]\<rparr>"
  have "loop_steps s ?s" by (rule one_more [OF no_step run_functor [OF Cons.prems]])
  moreover have "loop_steps ?s (?s\<lparr>pc := Running [], executed := executed ?s @ fs\<rparr>)" by (rule Cons.IH) simp
  ultimately show ?case by (auto intro: loop_steps_trans)
qed

text \<open>Once \<open>Poll\<close> has returned the wake-up channel, the loop thread alone runs everything pending.\<close>

lemma serve_pending:
  assumes handling: "pc s = Handling True"
  shows "\<exists>s'. loop_steps s s' \<and> pc s' = Running [] \<and> executed s' = executed s @ pending_functors (the_loop s)
    \<and> queued s' = queued s \<and> pending_functors (the_loop s') = []"
proof -
  let ?l1 = "EventLoop_HandleRead (the_loop s)"
  let ?l2 = "?l1\<lparr>calling_pending_functors := True\<rparr>"
  let ?fs = "pending_functors (the_loop s)"
  let ?s2 = "s\<lparr>pc := Handling False, the_loop := ?l1\<rparr>" and ?s3 = "s\<lparr>pc := Swapping, the_loop := ?l2\<rparr>"
  let ?s4 = "s\<lparr>pc := Running ?fs, the_loop := ?l2\<lparr>pending_functors := []\<rparr>, unannounced := 0\<rparr>"
  have b: "loop_step s ?s2" by (rule handle_wakeup [OF handling])
  have c: "loop_step ?s2 ?s3" using handle_done [of ?s2] by simp
  have d: "loop_step ?s3 ?s4"
    using swap [of ?s3 ?fs "?l2\<lparr>pending_functors := []\<rparr>"] by (simp add: swap_pending_def EventLoop_HandleRead_def)
  have "loop_steps s ?s4" by (rule one_more [OF one_more [OF one_more [OF no_step b] c] d])
  moreover have "loop_steps ?s4 (?s4\<lparr>pc := Running [], executed := executed ?s4 @ ?fs\<rparr>)" by (rule run_swapped) simp
  ultimately have "loop_steps s (?s4\<lparr>pc := Running [], executed := executed ?s4 @ ?fs\<rparr>)" by (rule loop_steps_trans)
  then show ?thesis by (intro exI [of _ "?s4\<lparr>pc := Running [], executed := executed ?s4 @ ?fs\<rparr>"] conjI) simp_all
qed

text \<open>
  Sequentially: functors that queue further functors. \<open>Task n fs\<close> logs \<open>n\<close> and queues \<open>fs\<close>.
\<close>

datatype task = Task (task_id: nat) (task_queues: "task list")

definition run_tasks :: "task \<Rightarrow> task event_loop \<times> nat list \<Rightarrow> (task event_loop \<times> nat list) result" where
  "run_tasks f s = Inr (fold (QueueInLoop True) (task_queues f) (fst s), snd s @ [task_id f])"

lemma fold_QueueInLoop:
  "calling_pending_functors l \<Longrightarrow>
    \<exists>n. fold (QueueInLoop True) fs l = l\<lparr>pending_functors := pending_functors l @ fs, wakeup_count := n\<rparr>
      \<and> (fs \<noteq> [] \<longrightarrow> 0 < n) \<and> wakeup_count l \<le> n"
proof (induction fs arbitrary: l)
  case Nil
  then show ?case by (intro exI [of _ "wakeup_count l"]) simp
next
  case (Cons f fs)
  obtain m where m: "QueueInLoop True f l = l\<lparr>pending_functors := pending_functors l @ [f], wakeup_count := m\<rparr>"
    "0 < m" "wakeup_count l \<le> m"
  proof (rule that)
    show "QueueInLoop True f l = l\<lparr>pending_functors := pending_functors l @ [f], wakeup_count := wakeup_count (Wakeup l)\<rparr>"
      using Cons.prems by (simp add: loop_ops Wakeup_def)
  qed (simp_all add: Wakeup_def)
  from Cons.IH [of "l\<lparr>pending_functors := pending_functors l @ [f], wakeup_count := m\<rparr>"] Cons.prems obtain n
    where "fold (QueueInLoop True) fs (l\<lparr>pending_functors := pending_functors l @ [f], wakeup_count := m\<rparr>)
        = l\<lparr>pending_functors := pending_functors l @ f # fs, wakeup_count := n\<rparr>" "m \<le> n" by auto
  with m show ?case by (intro exI [of _ n]) simp
qed

lemma run_tasks_all:
  "calling_pending_functors l \<Longrightarrow>
    \<exists>n. foldr_result (\<lambda>s f. run_tasks f s) (l, w) fs
      = Inr (l\<lparr>pending_functors := pending_functors l @ concat (map task_queues fs), wakeup_count := n\<rparr>, w @ map task_id fs)
    \<and> (concat (map task_queues fs) \<noteq> [] \<longrightarrow> 0 < n) \<and> wakeup_count l \<le> n"
proof (induction fs arbitrary: l w)
  case Nil
  then show ?case by (intro exI [of _ "wakeup_count l"]) simp
next
  case (Cons f fs)
  from fold_QueueInLoop [OF Cons.prems, of "task_queues f"] obtain m where
    m: "fold (QueueInLoop True) (task_queues f) l = l\<lparr>pending_functors := pending_functors l @ task_queues f, wakeup_count := m\<rparr>"
    "task_queues f \<noteq> [] \<longrightarrow> 0 < m" "wakeup_count l \<le> m" by blast
  let ?l1 = "l\<lparr>pending_functors := pending_functors l @ task_queues f, wakeup_count := m\<rparr>"
  from Cons.IH [of ?l1 "w @ [task_id f]"] Cons.prems obtain n where
    n: "foldr_result (\<lambda>s f. run_tasks f s) (?l1, w @ [task_id f]) fs
      = Inr (?l1\<lparr>pending_functors := pending_functors ?l1 @ concat (map task_queues fs), wakeup_count := n\<rparr>, (w @ [task_id f]) @ map task_id fs)"
    "concat (map task_queues fs) \<noteq> [] \<longrightarrow> 0 < n" "m \<le> n" by auto
  have "run_tasks f (l, w) = Inr (?l1, w @ [task_id f])" by (simp add: run_tasks_def m(1))
  with n m(2,3) show ?case by (intro exI [of _ n]) auto
qed

text \<open>Up to \<open>k\<close> iterations of the loop, stopping as soon as \<open>quit_\<close> is set.\<close>

fun iterations :: "nat \<Rightarrow> ('f event_loop \<times> 'w \<Rightarrow> ('f event_loop \<times> 'w) result) \<Rightarrow> 'f event_loop \<times> 'w \<Rightarrow> ('f event_loop \<times> 'w) result" where
  "iterations 0 body s = Inr s"
| "iterations (Suc k) body s = (if quit (fst s) then Inr s else bindr (body s) (iterations k body))"

lemma loop_while_iterations:
  "iterations k (loop_body poll handle run) s = Inr s' \<Longrightarrow> quit (fst s') \<Longrightarrow> loop_while poll handle run s = Some (Inr s')"
proof (induction k arbitrary: s)
  case 0
  then show ?case by (subst loop_while.simps) simp
next
  case (Suc k)
  show ?case
  proof (cases "quit (fst s)")
    case True
    with Suc show ?thesis by (subst loop_while.simps) simp
  next
    case False
    with Suc.prems obtain s1 where "loop_body poll handle run s = Inr s1" "iterations k (loop_body poll handle run) s1 = Inr s'"
      by (cases "loop_body poll handle run s") auto
    with Suc False show ?thesis by (subst loop_while.simps) simp
  qed
qed

section \<open>Properties\<close>

text \<open>
  Property C11. In every interleaving of the loop thread with threads that queue functors and ask it to quit, functors
  run exactly once and in the order in which they were queued: those executed, those swapped out and not yet run, and
  those still pending are together, in this order, everything that was queued.
\<close>

theorem functors_run_once_in_order:
  assumes "loop_steps system_init s"
  shows "queued s = executed s @ left_to_run (pc s) @ pending_functors (the_loop s)"
  using loop_steps_inv [OF assms loop_inv_init] by (simp add: loop_inv_def)

lemma example_interleaving:
  "\<exists>s. loop_steps system_init s \<and> pc s = Polling \<and> pending_functors (the_loop s) = [f] \<and> wakers s = 0
    \<and> unannounced s = 0 \<and> wakeup_count (the_loop s) = 1 \<and> queued s = [f]"
proof -
  let ?l = "EventLoop_init\<lparr>looping := True\<rparr>"
  let ?s1 = "system_init\<lparr>pc := Test_quit, the_loop := ?l\<rparr>"
  let ?s2 = "?s1\<lparr>pc := Polling\<rparr>"
  let ?s3 = "?s2\<lparr>the_loop := ?l\<lparr>pending_functors := [f]\<rparr>, wakers := 1, queued := [f]\<rparr>"
  let ?s4 = "?s3\<lparr>the_loop := ?l\<lparr>pending_functors := [f], wakeup_count := 1\<rparr>, wakers := 0\<rparr>"
  have a: "loop_step system_init ?s1" using start [of system_init] by (simp add: system_init_def EventLoop_init_def)
  have b: "loop_step ?s1 ?s2" using test_go [of ?s1] by (simp add: EventLoop_init_def)
  have c: "loop_step ?s2 ?s3" using other_pushes [of ?s2 f] by (simp add: queue_push_def EventLoop_init_def system_init_def)
  have d: "loop_step ?s3 ?s4" using other_wakes [of ?s3 0] by (simp add: queue_wake_def Wakeup_def EventLoop_init_def)
  have "loop_steps system_init ?s4"
    by (rule one_more [OF one_more [OF one_more [OF one_more [OF no_step a] b] c] d])
  then show ?thesis by (intro exI [of _ ?s4]) (simp add: system_init_def)
qed

theorem functors_run_once_in_order_witness:
  "\<exists>s. loop_steps system_init s \<and> queued s = [7 :: nat]
    \<and> queued s = executed s @ left_to_run (pc s) @ pending_functors (the_loop s)"
  using example_interleaving [of 7] functors_run_once_in_order by blast



text \<open>
  The exception is needed: a functor that the loop thread itself queues before \<open>Loop()\<close>, as the init callback of an
  \<open>EventLoopThread\<close> may do, is not announced on the eventfd, because \<open>QueueInLoop\<close> wakes the loop only for other threads
  and from within \<open>DoPendingFunctors\<close>. The loop then blocks in its first \<open>Poll\<close> with the functor pending.
\<close>

theorem queued_before_loop_not_announced:
  "\<exists>s. loop_steps system_init s \<and> pc s = Polling \<and> pending_functors (the_loop s) = [f]
    \<and> wakers s = 0 \<and> wakeup_count (the_loop s) = 0"
proof -
  let ?l = "EventLoop_init\<lparr>pending_functors := [f]\<rparr>"
  let ?s1 = "system_init\<lparr>the_loop := ?l, unannounced := 1, queued := [f]\<rparr>"
  let ?s2 = "?s1\<lparr>pc := Test_quit, the_loop := ?l\<lparr>looping := True\<rparr>\<rparr>"
  have a: "loop_step system_init ?s1"
    using outside_queues [of system_init f] by (simp add: system_init_def EventLoop_init_def loop_ops)
  have b: "loop_step ?s1 ?s2" using start [of ?s1] by (simp add: system_init_def EventLoop_init_def)
  have c: "loop_step ?s2 (?s2\<lparr>pc := Polling\<rparr>)" using test_go [of ?s2] by (simp add: EventLoop_init_def)
  have "loop_steps system_init (?s2\<lparr>pc := Polling\<rparr>)" by (rule one_more [OF one_more [OF one_more [OF no_step a] b] c])
  then show ?thesis by (intro exI [of _ "?s2\<lparr>pc := Polling\<rparr>"]) (simp add: system_init_def EventLoop_init_def)
qed

text \<open>
  \<open>Quit\<close> wakes the loop only when the caller is the loop thread itself, which cannot be blocked then; the
  comment above the test says the opposite. A \<open>Quit\<close> from another thread while the loop is blocked in \<open>Poll\<close> sets the
  flag and leaves the eventfd untouched, so the poll is not interrupted: the loop notices the request only after an
  unrelated event or the ten-second timeout.
\<close>

theorem quit_from_other_thread_not_woken:
  "\<exists>s. loop_steps system_init s \<and> pc s = Polling \<and> quit (the_loop s) \<and> wakeup_count (the_loop s) = 0 \<and> wakers s = 0
    \<and> Quit True EventLoop_init = (EventLoop_init :: 'f event_loop)\<lparr>quit := True, wakeup_count := 1\<rparr>"
proof -
  let ?l = "EventLoop_init\<lparr>looping := True\<rparr>"
  let ?s1 = "system_init\<lparr>pc := Test_quit, the_loop := ?l\<rparr>"
  let ?s2 = "?s1\<lparr>pc := Polling\<rparr>"
  let ?s3 = "?s2\<lparr>the_loop := ?l\<lparr>quit := True\<rparr>\<rparr>"
  have a: "loop_step system_init ?s1" using start [of system_init] by (simp add: system_init_def EventLoop_init_def)
  have b: "loop_step ?s1 ?s2" using test_go [of ?s1] by (simp add: EventLoop_init_def)
  have c: "loop_step ?s2 ?s3" using other_quits [of ?s2] by (simp add: Quit_def)
  have "loop_steps system_init ?s3"
    by (rule one_more [OF one_more [OF one_more [OF no_step a] b] c])
  then show ?thesis
    by (intro exI [of _ ?s3]) (simp add: system_init_def EventLoop_init_def Quit_def Wakeup_def)
qed

text \<open>
  \<open>DoPendingFunctors\<close> runs exactly the functors that were pending at its start, in order. Functors they queue
  are left for the next round, in order, and then the eventfd has been written, so that the next \<open>Poll\<close> returns at once.
\<close>

theorem DoPendingFunctors_runs_pending:
  "\<exists>l'. DoPendingFunctors run_tasks (l, w) = Inr (l', w @ map task_id (pending_functors l))
    \<and> pending_functors l' = concat (map task_queues (pending_functors l))
    \<and> \<not> calling_pending_functors l' \<and> (pending_functors l' = [] \<or> wakeup_count l' > 0)"
  using run_tasks_all [of "l\<lparr>calling_pending_functors := True, pending_functors := []\<rparr>" w "pending_functors l"]
  by (auto simp: DoPendingFunctors_def swap_pending_def)

text \<open>
  \<open>Loop\<close> ends: if after some number of successful iterations \<open>quit_\<close> is set, then \<open>Loop\<close> returns in the
  state of the first iteration after which it was set, no longer looping.
\<close>

theorem Loop_returns_after_quit:
  assumes "\<not> looping (fst s)" and "iterations k (loop_body poll handle run) ((fst s)\<lparr>looping := True, quit := False\<rparr>, snd s) = Inr s'"
    and "quit (fst s')"
  shows "Loop poll handle run True s = Some (Inr ((fst s')\<lparr>looping := False\<rparr>, snd s'))"
  using loop_while_iterations [OF assms(2,3)] assms(1) by (simp add: Loop_def)

theorem Loop_returns_after_quit_witness:
  "Loop (\<lambda>w. (Timestamp 0, [], w)) (\<lambda>c t s. Inr s) (\<lambda>f s. Inr (Quit True (fst s), snd s @ [f])) True
      (EventLoop_init\<lparr>pending_functors := [3 :: nat]\<rparr>, [])
    = Some (Inr (EventLoop_init\<lparr>quit := True, wakeup_count := 1\<rparr>, [3]))"
  using Loop_returns_after_quit [of "(EventLoop_init\<lparr>pending_functors := [3 :: nat]\<rparr>, [])" 1 "\<lambda>w. (Timestamp 0, [], w)" "\<lambda>c t s. Inr s"
      "\<lambda>f s. Inr (Quit True (fst s), snd s @ [f])" "(EventLoop_init\<lparr>looping := True, quit := True, wakeup_count := 1\<rparr>, [3])"]
  by (simp add: EventLoop_init_def loop_body_def DoPendingFunctors_def swap_pending_def Quit_def Wakeup_def)

end
