(* ===== verification/Tcp_Connection.thy ===== *)
theory Tcp_Connection
  imports Buffer Event_Loop
begin

text \<open>
  \<open>tcp_connection/tcp_connection.h\<close> and \<open>tcp_connection/tcp_connection.cc\<close>: one established connection. The
  state has the members of the class, the channel store and poller it works on, the bytes the kernel took
  from it, the functors it has put into its loop, the strings of its callers that are alive, and the
  calls of user callbacks it has made. The poller's operations are arguments (\<open>update\<close>, \<open>remove\<close>), so
  every lemma holds for both pollers; \<open>in_loop\<close> is the answer of \<open>IsInLoopThread()\<close>; \<open>write\<close> and
  \<open>readv\<close> are the kernel's. A functor records what \<open>std::bind\<close> captured: a copy of a string or only the
  address of its characters.
\<close>

section \<open>Data\<close>

datatype state_e = kDisconnected | kConnecting | kConnected | kDisconnecting

datatype conn_task =
    Task_send_copy string        \<comment> \<open>\<open>SendInLoop(const std::string&)\<close> with a copy of the string\<close>
  | Task_send_pointer ptr nat    \<comment> \<open>\<open>SendInLoop(const void*, size_t)\<close> with an address and a length\<close>
  | Task_shutdown
  | Task_force_close
  | Task_start_read
  | Task_stop_read
  | Task_write_complete
  | Task_high_watermark nat

datatype conn_event = Connection_up | Connection_down | Message_received | Connection_closed

record 'p tcp_connection =
  conn_state :: state_e
  conn_reading :: bool
  conn_channel :: ptr
  high_watermark :: nat
  input_buffer :: buffer
  output_buffer :: buffer
  has_write_complete :: bool
  has_high_watermark :: bool
  poll_state :: "store \<times> 'p"
  wire :: string               \<comment> \<open>the bytes the kernel has taken, in order\<close>
  write_shut :: bool           \<comment> \<open>\<open>shutdown(fd, SHUT_WR)\<close> was called\<close>
  conn_tasks :: "conn_task list"
  strings :: "ptr \<rightharpoonup> string"
  events_seen :: "conn_event list"

type_synonym 'p poll_op = "ptr \<Rightarrow> store \<times> 'p \<Rightarrow> (store \<times> 'p) result"

definition TcpConnection_new :: "ptr \<Rightarrow> store \<times> 'p \<Rightarrow> 'p tcp_connection" where
  "TcpConnection_new ch ps =
     \<lparr>conn_state = kConnecting, conn_reading = True, conn_channel = ch, high_watermark = 64 * 1024 * 1024,
      input_buffer = default_buffer, output_buffer = default_buffer, has_write_complete = False, has_high_watermark = False,
      poll_state = ps, wire = [], write_shut = False, conn_tasks = [], strings = Map.empty, events_seen = []\<rparr>"

definition Connected :: "'p tcp_connection \<Rightarrow> bool" where
  "Connected c \<longleftrightarrow> conn_state c = kConnected"

definition DisConnected :: "'p tcp_connection \<Rightarrow> bool" where
  "DisConnected c \<longleftrightarrow> conn_state c = kDisconnected"

fun StateToString :: "state_e \<Rightarrow> string" where
  "StateToString kDisconnected = ''kDisconnected''"
| "StateToString kConnecting = ''kConnecting''"
| "StateToString kConnected = ''kConnected''"
| "StateToString kDisconnecting = ''kDisconnecting''"

definition SetState :: "state_e \<Rightarrow> 'p tcp_connection \<Rightarrow> 'p tcp_connection" where
  "SetState s c = c\<lparr>conn_state := s\<rparr>"

definition the_channel :: "'p tcp_connection \<Rightarrow> channel" where
  "the_channel c = fst (poll_state c) (conn_channel c)"

definition on_channel :: "(ptr \<Rightarrow> store \<times> 'p \<Rightarrow> (store \<times> 'p) result) \<Rightarrow> 'p tcp_connection \<Rightarrow> 'p tcp_connection result" where
  "on_channel f c = bindr (f (conn_channel c) (poll_state c)) (\<lambda>ps. Inr (c\<lparr>poll_state := ps\<rparr>))"

definition queue_task :: "conn_task \<Rightarrow> 'p tcp_connection \<Rightarrow> 'p tcp_connection" where
  "queue_task t c = c\<lparr>conn_tasks := conn_tasks c @ [t]\<rparr>"

definition EWOULDBLOCK :: int where "EWOULDBLOCK = 11"
definition EPIPE :: int where "EPIPE = 32"
definition ECONNRESET :: int where "ECONNRESET = 104"

definition SetWriteCompleteCallback :: "bool \<Rightarrow> 'p tcp_connection \<Rightarrow> 'p tcp_connection" where
  "SetWriteCompleteCallback present c = c\<lparr>has_write_complete := present\<rparr>"

definition SetHighWatermarkCallback :: "bool \<Rightarrow> nat \<Rightarrow> 'p tcp_connection \<Rightarrow> 'p tcp_connection" where
  "SetHighWatermarkCallback present mark c = c\<lparr>has_high_watermark := present, high_watermark := mark\<rparr>"

section \<open>Sending\<close>

text \<open>\<open>SendInLoop\<close> writes to the socket first when nothing is pending: how much was taken, and whether it failed for good.\<close>

definition send_direct :: "(string \<Rightarrow> int + nat) \<Rightarrow> string \<Rightarrow> 'p tcp_connection \<Rightarrow> nat \<times> bool \<times> 'p tcp_connection" where
  "send_direct write data c =
     (if \<not> IsWriting (the_channel c) \<and> ReadableBytes (output_buffer c) = 0
      then (case write data of
              Inr n \<Rightarrow> (n, False, let c = c\<lparr>wire := wire c @ take n data\<rparr>
                              in if n = length data \<and> has_write_complete c then queue_task Task_write_complete c else c)
            | Inl err \<Rightarrow> (0, err \<noteq> EWOULDBLOCK \<and> (err = EPIPE \<or> err = ECONNRESET), c))
      else (0, False, c))"

text \<open>The rest goes into the output buffer, and the channel waits until the socket is writable.\<close>

definition send_rest :: "'p poll_op \<Rightarrow> string \<Rightarrow> 'p tcp_connection \<Rightarrow> 'p tcp_connection result" where
  "send_rest update rest c =
     (let remaining = length rest;
          oldLen = ReadableBytes (output_buffer c);
          c = (if oldLen + remaining \<ge> high_watermark c \<and> oldLen < high_watermark c \<and> has_high_watermark c
               then queue_task (Task_high_watermark (oldLen + remaining)) c else c)
      in bindr (Append rest (output_buffer c)) (\<lambda>b.
           let c = c\<lparr>output_buffer := b\<rparr>
           in if \<not> IsWriting (the_channel c) then on_channel (EnableWriting update) c else Inr c))"

definition SendInLoop :: "'p poll_op \<Rightarrow> (string \<Rightarrow> int + nat) \<Rightarrow> string \<Rightarrow> 'p tcp_connection \<Rightarrow> 'p tcp_connection result" where
  "SendInLoop update write data c =
     (if conn_state c = kDisconnected then Inr c
      else let (nwrote, faultError, c) = send_direct write data c
           in if \<not> faultError \<and> length data - nwrote > 0 then send_rest update (drop nwrote data) c else Inr c)"

text \<open>\<open>Send(const std::string&)\<close>; the string is the caller's, at address \<open>p\<close>.\<close>

definition Send_string :: "'p poll_op \<Rightarrow> (string \<Rightarrow> int + nat) \<Rightarrow> bool \<Rightarrow> ptr \<Rightarrow> 'p tcp_connection \<Rightarrow> 'p tcp_connection result" where
  "Send_string update write in_loop p c =
     (case strings c p of
        None \<Rightarrow> Inl Use_after_free
      | Some buf \<Rightarrow>
          if conn_state c = kConnected
          then if in_loop then SendInLoop update write buf c else Inr (queue_task (Task_send_pointer p (length buf)) c)
          else Inr c)"

text \<open>\<open>Send(const void*, int)\<close> builds a local string at a free address \<open>p\<close>, which dies when the call returns.\<close>

definition Send_data :: "'p poll_op \<Rightarrow> (string \<Rightarrow> int + nat) \<Rightarrow> bool \<Rightarrow> ptr \<Rightarrow> string \<Rightarrow> 'p tcp_connection \<Rightarrow> 'p tcp_connection result" where
  "Send_data update write in_loop p data c =
     bindr (Send_string update write in_loop p (c\<lparr>strings := (strings c)(p \<mapsto> data)\<rparr>))
       (\<lambda>c. Inr (c\<lparr>strings := (strings c)(p := None)\<rparr>))"

definition Send_buffer :: "'p poll_op \<Rightarrow> (string \<Rightarrow> int + nat) \<Rightarrow> bool \<Rightarrow> buffer \<Rightarrow> 'p tcp_connection \<Rightarrow> (buffer \<times> 'p tcp_connection) result" where
  "Send_buffer update write in_loop buf c =
     (if conn_state c = kConnected
      then if in_loop then bindr (SendInLoop update write (content buf) c) (\<lambda>c. Inr (RetrieveAll buf, c))
           else bindr (RetrieveAllAsString buf) (\<lambda>(s, buf). Inr (buf, queue_task (Task_send_copy s) c))
      else Inr (buf, c))"

section \<open>Shutting down, closing, pausing\<close>

definition ShutdownInLoop :: "'p tcp_connection \<Rightarrow> 'p tcp_connection" where
  "ShutdownInLoop c = (if \<not> IsWriting (the_channel c) then c\<lparr>write_shut := True\<rparr> else c)"

text \<open>
  The three calls that end a connection test \<open>state_\<close> and then set it, without a lock. In the loop thread nothing comes between
  the two; for a call from another thread they are two actions (see \<open>system_step\<close> below). The functions \<open>_set\<close> are what
  follows the test.
\<close>

definition Shutdown_set :: "bool \<Rightarrow> 'p tcp_connection \<Rightarrow> 'p tcp_connection" where
  "Shutdown_set in_loop c =
     (let c = SetState kDisconnecting c in if in_loop then ShutdownInLoop c else queue_task Task_shutdown c)"

definition Shutdown :: "bool \<Rightarrow> 'p tcp_connection \<Rightarrow> 'p tcp_connection" where
  "Shutdown in_loop c = (if conn_state c = kConnected then Shutdown_set in_loop c else c)"

definition ForceClose_set :: "'p tcp_connection \<Rightarrow> 'p tcp_connection" where
  "ForceClose_set c = queue_task Task_force_close (SetState kDisconnecting c)"

definition ForceClose :: "'p tcp_connection \<Rightarrow> 'p tcp_connection" where
  "ForceClose c = (if conn_state c = kConnected \<or> conn_state c = kDisconnecting then ForceClose_set c else c)"

text \<open>\<open>run_after\<close> is \<open>EventLoop::RunAfter\<close> with a weak callback that calls \<open>ForceClose\<close> if the object still exists.\<close>

definition ForceCloseWithDelay :: "(rat \<Rightarrow> 'p tcp_connection \<Rightarrow> 'p tcp_connection) \<Rightarrow> rat \<Rightarrow> 'p tcp_connection \<Rightarrow> 'p tcp_connection" where
  "ForceCloseWithDelay run_after seconds c =
     (if conn_state c = kConnected \<or> conn_state c = kDisconnecting
      then run_after seconds (SetState kDisconnecting c) else c)"

declare Shutdown_set_def [simp] ForceClose_set_def [simp]

text \<open>User callbacks; what they do to the connection is theirs.\<close>

record 'p user_callbacks =
  connection_callback :: "'p tcp_connection \<Rightarrow> 'p tcp_connection result"
  message_callback :: "timestamp \<Rightarrow> 'p tcp_connection \<Rightarrow> 'p tcp_connection result"
  conn_close_callback :: "'p tcp_connection \<Rightarrow> 'p tcp_connection result"

definition saw :: "conn_event \<Rightarrow> 'p tcp_connection \<Rightarrow> 'p tcp_connection" where
  "saw e c = c\<lparr>events_seen := events_seen c @ [e]\<rparr>"

definition HandleClose :: "'p poll_op \<Rightarrow> 'p user_callbacks \<Rightarrow> bool \<Rightarrow> 'p tcp_connection \<Rightarrow> 'p tcp_connection result" where
  "HandleClose update cb in_loop c =
     AssertInLoopThread in_loop
       (assertr (conn_state c = kConnected \<or> conn_state c = kDisconnecting)
         (bindr (on_channel (DisableAll update) (SetState kDisconnected c)) (\<lambda>c.
          bindr (connection_callback cb (saw Connection_down c)) (\<lambda>c.
          conn_close_callback cb (saw Connection_closed c)))))"

definition ForceCloseInLoop :: "'p poll_op \<Rightarrow> 'p user_callbacks \<Rightarrow> bool \<Rightarrow> 'p tcp_connection \<Rightarrow> 'p tcp_connection result" where
  "ForceCloseInLoop update cb in_loop c =
     AssertInLoopThread in_loop
       (if conn_state c = kConnected \<or> conn_state c = kDisconnecting then HandleClose update cb in_loop c else Inr c)"

definition StartReadInLoop :: "'p poll_op \<Rightarrow> bool \<Rightarrow> 'p tcp_connection \<Rightarrow> 'p tcp_connection result" where
  "StartReadInLoop update in_loop c =
     AssertInLoopThread in_loop
       (if \<not> conn_reading c \<or> \<not> IsReading (the_channel c)
        then bindr (on_channel (EnableReading update) c) (\<lambda>c. Inr (c\<lparr>conn_reading := True\<rparr>)) else Inr c)"

definition StopReadInLoop :: "'p poll_op \<Rightarrow> bool \<Rightarrow> 'p tcp_connection \<Rightarrow> 'p tcp_connection result" where
  "StopReadInLoop update in_loop c =
     AssertInLoopThread in_loop
       (if conn_reading c \<or> IsReading (the_channel c)
        then bindr (on_channel (DisableReading update) c) (\<lambda>c. Inr (c\<lparr>conn_reading := False\<rparr>)) else Inr c)"

definition StartRead :: "'p poll_op \<Rightarrow> bool \<Rightarrow> 'p tcp_connection \<Rightarrow> 'p tcp_connection result" where
  "StartRead update in_loop c = (if in_loop then StartReadInLoop update in_loop c else Inr (queue_task Task_start_read c))"

definition StopRead :: "'p poll_op \<Rightarrow> bool \<Rightarrow> 'p tcp_connection \<Rightarrow> 'p tcp_connection result" where
  "StopRead update in_loop c = (if in_loop then StopReadInLoop update in_loop c else Inr (queue_task Task_stop_read c))"

section \<open>Establishing and destroying\<close>

text \<open>A connection and its channel belong together; the channel's address stands for the tied object.\<close>

definition tie_channel :: "'p tcp_connection \<Rightarrow> 'p tcp_connection" where
  "tie_channel c =
     c\<lparr>poll_state := (tie_at (conn_channel c) (conn_channel c) (fst (poll_state c)), snd (poll_state c))\<rparr>"

definition ConnectEstablished :: "'p poll_op \<Rightarrow> 'p user_callbacks \<Rightarrow> 'p tcp_connection \<Rightarrow> 'p tcp_connection result" where
  "ConnectEstablished update cb c =
     bindr (on_channel (EnableReading update) (tie_channel (SetState kConnected c))) (\<lambda>c.
       connection_callback cb (saw Connection_up c))"

definition ConnectDestroyed :: "'p poll_op \<Rightarrow> 'p poll_op \<Rightarrow> 'p user_callbacks \<Rightarrow> 'p tcp_connection \<Rightarrow> 'p tcp_connection result" where
  "ConnectDestroyed update remove cb c =
     bindr (if conn_state c = kConnected
            then bindr (on_channel (DisableAll update) (SetState kDisconnected c)) (\<lambda>c.
                   connection_callback cb (saw Connection_down c))
            else Inr c)
       (on_channel remove)"

section \<open>Events of the channel\<close>

text \<open>\<open>HandleError\<close> only reads the socket's error and logs it.\<close>

definition HandleError :: "'p tcp_connection \<Rightarrow> 'p tcp_connection" where
  "HandleError c = c"

definition HandleRead :: "'p poll_op \<Rightarrow> 'p user_callbacks \<Rightarrow> bool \<Rightarrow> (nat list \<Rightarrow> int + string) \<Rightarrow> timestamp
    \<Rightarrow> 'p tcp_connection \<Rightarrow> 'p tcp_connection result" where
  "HandleRead update cb in_loop readv receiveTime c =
     bindr (ReadFd readv (input_buffer c)) (\<lambda>(b, n, savedErrno).
       let c = c\<lparr>input_buffer := b\<rparr>
       in if n > 0 then message_callback cb receiveTime (saw Message_received c)
          else if n = 0 then HandleClose update cb in_loop c
          else Inr (HandleError c))"

definition HandleWrite :: "'p poll_op \<Rightarrow> (string \<Rightarrow> int + nat) \<Rightarrow> 'p tcp_connection \<Rightarrow> 'p tcp_connection result" where
  "HandleWrite update write c =
     (if IsWriting (the_channel c)
      then (let (n, saveErrno) = WriteFd write (output_buffer c)
            in if n > 0
               then (let c = c\<lparr>wire := wire c @ take (nat n) (content (output_buffer c)),
                               output_buffer := Retrieve (nat n) (output_buffer c)\<rparr>
                     in if ReadableBytes (output_buffer c) = 0
                        then bindr (on_channel (DisableWriting update) c) (\<lambda>c.
                               let c = (if has_write_complete c then queue_task Task_write_complete c else c)
                               in Inr (if conn_state c = kDisconnecting then ShutdownInLoop c else c))
                        else Inr c)
               else Inr c)
      else Inr c)"

text \<open>A functor executed by the loop; for the two user callbacks it is only recorded that it ran.\<close>

fun run_task :: "'p poll_op \<Rightarrow> 'p user_callbacks \<Rightarrow> (string \<Rightarrow> int + nat) \<Rightarrow> conn_task \<Rightarrow> 'p tcp_connection \<Rightarrow> 'p tcp_connection result" where
  "run_task update cb write (Task_send_copy s) c = SendInLoop update write s c"
| "run_task update cb write (Task_send_pointer p len) c =
     (case strings c p of
        None \<Rightarrow> Inl Use_after_free
      | Some s \<Rightarrow> if len \<le> length s then SendInLoop update write (take len s) c else Inl Out_of_bounds)"
| "run_task update cb write Task_shutdown c = Inr (ShutdownInLoop c)"
| "run_task update cb write Task_force_close c = ForceCloseInLoop update cb True c"
| "run_task update cb write Task_start_read c = StartReadInLoop update True c"
| "run_task update cb write Task_stop_read c = StopReadInLoop update True c"
| "run_task update cb write Task_write_complete c = Inr c"
| "run_task update cb write (Task_high_watermark n) c = Inr c"

text \<open>Callbacks that leave the connection as it is; their calls are in \<open>events_seen\<close>.\<close>

definition silent_callbacks :: "'p user_callbacks" where
  "silent_callbacks = \<lparr>connection_callback = Inr, message_callback = (\<lambda>t. Inr), conn_close_callback = Inr\<rparr>"

text \<open>What the loop thread does with a connection after it is established.\<close>

datatype conn_op =
    Conn_send string "string \<Rightarrow> int + nat"
  | Conn_shutdown
  | Conn_force_close
  | Conn_force_close_delayed
  | Conn_readable "nat list \<Rightarrow> int + string" timestamp
  | Conn_writable "string \<Rightarrow> int + nat"
  | Conn_hangup
  | Conn_run_task "string \<Rightarrow> int + nat"
  | Conn_destroyed

fun conn_step :: "'p poll_op \<Rightarrow> 'p poll_op \<Rightarrow> 'p tcp_connection \<Rightarrow> conn_op \<Rightarrow> 'p tcp_connection result" where
  "conn_step update remove c (Conn_send d w) = (if Connected c then SendInLoop update w d c else Inr c)"
| "conn_step update remove c Conn_shutdown = Inr (Shutdown True c)"
| "conn_step update remove c Conn_force_close = Inr (ForceClose c)"
| "conn_step update remove c Conn_force_close_delayed = Inr (ForceCloseWithDelay (\<lambda>seconds c. c) 0 c)"
| "conn_step update remove c (Conn_readable readv t) = HandleRead update silent_callbacks True readv t c"
| "conn_step update remove c (Conn_writable w) = HandleWrite update w c"
| "conn_step update remove c Conn_hangup = HandleClose update silent_callbacks True c"
| "conn_step update remove c (Conn_run_task w) =
     (case conn_tasks c of
        [] \<Rightarrow> Inr c
      | t # ts \<Rightarrow> run_task update silent_callbacks w t (c\<lparr>conn_tasks := ts\<rparr>))"
| "conn_step update remove c Conn_destroyed = ConnectDestroyed update remove silent_callbacks c"

text \<open>
  The loop thread together with other threads that call \<open>Shutdown\<close>, \<open>ForceClose\<close> and \<open>ForceCloseWithDelay\<close>: such a call
  passes its test in one action and sets the state in a later one. \<open>late\<close> counts the calls that set the state of a connection
  that was closed in between.
\<close>

datatype close_call = By_shutdown | By_force_close | By_force_close_delayed

fun close_test :: "close_call \<Rightarrow> 'p tcp_connection \<Rightarrow> bool" where
  "close_test By_shutdown c \<longleftrightarrow> conn_state c = kConnected"
| "close_test By_force_close c \<longleftrightarrow> conn_state c = kConnected \<or> conn_state c = kDisconnecting"
| "close_test By_force_close_delayed c \<longleftrightarrow> conn_state c = kConnected \<or> conn_state c = kDisconnecting"

fun close_set :: "close_call \<Rightarrow> 'p tcp_connection \<Rightarrow> 'p tcp_connection" where
  "close_set By_shutdown c = Shutdown_set False c"
| "close_set By_force_close c = ForceClose_set c"
| "close_set By_force_close_delayed c = SetState kDisconnecting c"

datatype conn_action = Loop_does conn_op | Other_tests close_call | Other_sets nat

record 'p conn_system =
  sys_conn :: "'p tcp_connection"
  in_flight :: "close_call list"   \<comment> \<open>calls of other threads between test and set\<close>
  late :: nat

fun system_step :: "'p poll_op \<Rightarrow> 'p poll_op \<Rightarrow> 'p conn_system \<Rightarrow> conn_action \<Rightarrow> 'p conn_system result" where
  "system_step update remove s (Loop_does x) =
     bindr (conn_step update remove (sys_conn s) x) (\<lambda>c. Inr (s\<lparr>sys_conn := c\<rparr>))"
| "system_step update remove s (Other_tests k) =
     Inr (if close_test k (sys_conn s) then s\<lparr>in_flight := in_flight s @ [k]\<rparr> else s)"
| "system_step update remove s (Other_sets i) =
     Inr (if i < length (in_flight s)
          then \<lparr>sys_conn = close_set (in_flight s ! i) (sys_conn s),
                in_flight = take i (in_flight s) @ drop (Suc i) (in_flight s),
                late = late s + (if DisConnected (sys_conn s) then 1 else 0)\<rparr>
          else s)"

fun state_rank :: "state_e \<Rightarrow> nat" where
  "state_rank kConnecting = 0"
| "state_rank kConnected = 1"
| "state_rank kDisconnecting = 2"
| "state_rank kDisconnected = 3"

text \<open>The owner was told that the connection is down once for every time it got disconnected; \<open>n\<close> of these were undone.\<close>

definition told_down :: "nat \<Rightarrow> 'p tcp_connection \<Rightarrow> bool" where
  "told_down n c \<longleftrightarrow> conn_state c \<noteq> kConnecting
     \<and> count_list (events_seen c) Connection_down = n + (if conn_state c = kDisconnected then 1 else 0)"

text \<open>A connection on descriptor 5, registered for reading with the epoll poller, with output pending or not.\<close>

definition example_poll :: "epoll_state" where
  "example_poll = ((\<lambda>_. Channel_new 5), \<lparr>ep_channels = Map.empty, ep_events_size = 16, ep_kernel = Map.empty\<rparr>)"

definition example_conn :: "string \<Rightarrow> epoll_poller tcp_connection" where
  "example_conn out =
     (let ev = (if out = [] then 3 else 7)
      in (TcpConnection_new 1 ((\<lambda>_. Channel_new 5)(1 := (Channel_new 5)\<lparr>ch_events := ev, ch_index := 1\<rparr>),
            \<lparr>ep_channels = [5 \<mapsto> 1], ep_events_size = 16, ep_kernel = [5 \<mapsto> (ev, 1)]\<rparr>))
         \<lparr>conn_state := kConnected, output_buffer := buffer_of out, events_seen := [Connection_up]\<rparr>)"

section \<open>Streams\<close>

definition write_ok :: "(string \<Rightarrow> int + nat) \<Rightarrow> bool" where
  "write_ok write \<longleftrightarrow> (\<forall>d n. write d = Inr n \<longrightarrow> n \<le> length d) \<and> (\<forall>d. write d \<noteq> Inl EPIPE \<and> write d \<noteq> Inl ECONNRESET)"

text \<open>What the loop thread does with the output: send more, or serve a writable event.\<close>

datatype stream_op = Stream_send string "string \<Rightarrow> int + nat" | Stream_writable "string \<Rightarrow> int + nat"

fun stream_step :: "'p poll_op \<Rightarrow> 'p tcp_connection \<Rightarrow> stream_op \<Rightarrow> 'p tcp_connection result" where
  "stream_step update c (Stream_send d w) = SendInLoop update w d c"
| "stream_step update c (Stream_writable w) = HandleWrite update w c"

fun stream_sent :: "stream_op \<Rightarrow> string" where
  "stream_sent (Stream_send d w) = d"
| "stream_sent (Stream_writable w) = []"

fun stream_kernel :: "stream_op \<Rightarrow> string \<Rightarrow> int + nat" where
  "stream_kernel (Stream_send d w) = w"
| "stream_kernel (Stream_writable w) = w"

text \<open>A kernel that takes at least one byte of what it is offered.\<close>

definition takes_some :: "(string \<Rightarrow> int + nat) \<Rightarrow> bool" where
  "takes_some write \<longleftrightarrow> (\<forall>d. d \<noteq> [] \<longrightarrow> (\<exists>n>0. write d = Inr n))"

lemma IsWriting_bit: "valid_events ev \<Longrightarrow> ch_events ch = enable_writing ev \<Longrightarrow> IsWriting ch"
  "valid_events ev \<Longrightarrow> ch_events ch = disable_writing ev \<Longrightarrow> \<not> IsWriting ch"
  "ch_events ch = 0 \<Longrightarrow> \<not> IsWriting ch"
  by (simp_all add: IsWriting_def interest_bits)

lemma queue_task_simps [simp]:
  "conn_state (queue_task t c) = conn_state c" "conn_channel (queue_task t c) = conn_channel c"
  "output_buffer (queue_task t c) = output_buffer c" "poll_state (queue_task t c) = poll_state c" "wire (queue_task t c) = wire c"
  "the_channel (queue_task t c) = the_channel c" "events_seen (queue_task t c) = events_seen c" "strings (queue_task t c) = strings c"
  "write_shut (queue_task t c) = write_shut c" "has_write_complete (queue_task t c) = has_write_complete c"
  "high_watermark (queue_task t c) = high_watermark c" "has_high_watermark (queue_task t c) = has_high_watermark c"
  "conn_tasks (queue_task t c) = conn_tasks c @ [t]"
  by (simp_all add: queue_task_def the_channel_def)

lemma content_Nil_iff: "buffer_inv b \<Longrightarrow> ReadableBytes b = 0 \<longleftrightarrow> content b = []"
  using length_content [of b] by auto

text \<open>What the operations leave alone.\<close>

lemma on_channel_same:
  assumes "on_channel f c = Inr c'"
  shows "conn_state c' = conn_state c \<and> events_seen c' = events_seen c \<and> wire c' = wire c"
  using assms by (auto simp: on_channel_def)

lemma on_channel_frame: "on_channel f c = Inr c' \<Longrightarrow> \<exists>ps. c' = c\<lparr>poll_state := ps\<rparr>"
  by (auto simp: on_channel_def)

lemma send_rest_frame:
  assumes "send_rest update rest c = Inr c'"
  shows "\<exists>b ps ts. c' = c\<lparr>output_buffer := b, poll_state := ps, conn_tasks := conn_tasks c @ ts\<rparr> \<and> set ts \<subseteq> range Task_high_watermark"
proof -
  define ts where "ts = (if ReadableBytes (output_buffer c) + length rest \<ge> high_watermark c \<and> ReadableBytes (output_buffer c) < high_watermark c \<and> has_high_watermark c
    then [Task_high_watermark (ReadableBytes (output_buffer c) + length rest)] else [])"
  define c1 where "c1 = c\<lparr>conn_tasks := conn_tasks c @ ts\<rparr>"
  have c1: "(if ReadableBytes (output_buffer c) + length rest \<ge> high_watermark c \<and> ReadableBytes (output_buffer c) < high_watermark c \<and> has_high_watermark c
      then queue_task (Task_high_watermark (ReadableBytes (output_buffer c) + length rest)) c else c) = c1"
    by (simp add: c1_def ts_def queue_task_def)
  from assms obtain b where c': "(if \<not> IsWriting (the_channel (c1\<lparr>output_buffer := b\<rparr>)) then on_channel (EnableWriting update) (c1\<lparr>output_buffer := b\<rparr>)
      else Inr (c1\<lparr>output_buffer := b\<rparr>)) = Inr c'"
    unfolding send_rest_def Let_def c1 by (cases "Append rest (output_buffer c1)") simp_all
  have "\<exists>ps. c' = c1\<lparr>output_buffer := b\<rparr>\<lparr>poll_state := ps\<rparr>"
  proof (cases "IsWriting (the_channel (c1\<lparr>output_buffer := b\<rparr>))")
    case True
    then have "c' = c1\<lparr>output_buffer := b\<rparr>\<lparr>poll_state := poll_state c1\<rparr>" using c' by (cases c1) auto
    then show ?thesis by blast
  next
    case False
    then show ?thesis using c' on_channel_frame by fastforce
  qed
  then obtain ps where "c' = c1\<lparr>output_buffer := b\<rparr>\<lparr>poll_state := ps\<rparr>" by blast
  then have "c' = c\<lparr>output_buffer := b, poll_state := ps, conn_tasks := conn_tasks c @ ts\<rparr>" by (cases c) (simp add: c1_def)
  moreover have "set ts \<subseteq> range Task_high_watermark" by (auto simp: ts_def)
  ultimately show ?thesis by blast
qed

lemma SendInLoop_frame:
  assumes "SendInLoop update write d c = Inr c'"
  shows "\<exists>x b ps ts. c' = c\<lparr>wire := x, output_buffer := b, poll_state := ps, conn_tasks := conn_tasks c @ ts\<rparr>"
proof -
  obtain n f c1 where sd: "send_direct write d c = (n, f, c1)" by (cases "send_direct write d c")
  have self: "c = c\<lparr>wire := wire c, output_buffer := output_buffer c, poll_state := poll_state c, conn_tasks := conn_tasks c @ []\<rparr>" by (cases c) simp
  have "\<exists>x ts. c1 = c\<lparr>wire := x, conn_tasks := conn_tasks c @ ts\<rparr>"
  proof (cases "write d")
    case (Inr n)
    then show ?thesis
      using sd by (cases c) (auto simp: send_direct_def Let_def queue_task_def split: if_splits)
  qed (use sd in \<open>cases c; auto simp: send_direct_def split: if_splits\<close>)
  then obtain x ts where c1: "c1 = c\<lparr>wire := x, conn_tasks := conn_tasks c @ ts\<rparr>" by blast
  have "c' = c \<or> c' = c1 \<or> send_rest update (drop n d) c1 = Inr c'" using assms sd by (auto simp: SendInLoop_def split: if_splits)
  then consider "c' = c" | "c' = c1" | "send_rest update (drop n d) c1 = Inr c'" by blast
  then show ?thesis
  proof cases
    case 1
    then show ?thesis using self by blast
  next
    case 2
    then have "c' = c\<lparr>wire := x, output_buffer := output_buffer c, poll_state := poll_state c, conn_tasks := conn_tasks c @ ts\<rparr>" by (cases c) (simp add: c1)
    then show ?thesis by blast
  next
    case 3
    from send_rest_frame [OF this] obtain b ps us where "c' = c\<lparr>wire := x, output_buffer := b, poll_state := ps, conn_tasks := conn_tasks c @ ts @ us\<rparr>"
      by (auto simp: c1)
    then show ?thesis by blast
  qed
qed

lemma silent_simps [simp]:
  "connection_callback silent_callbacks c = Inr c" "message_callback silent_callbacks t c = Inr c"
  "conn_close_callback silent_callbacks c = Inr c"
  by (simp_all add: silent_callbacks_def)

lemma SendInLoop_same:
  assumes "SendInLoop update write d c = Inr c'"
  shows "conn_state c' = conn_state c \<and> events_seen c' = events_seen c"
proof -
  obtain n f c1 where sd: "send_direct write d c = (n, f, c1)" by (cases "send_direct write d c")
  then have c1: "conn_state c1 = conn_state c" "events_seen c1 = events_seen c"
    by (auto simp: send_direct_def Let_def split: if_splits sum.splits)
  have "conn_state c' = conn_state c2 \<and> events_seen c' = events_seen c2" if "send_rest update r c2 = Inr c'" for r c2
    using that by (auto simp: send_rest_def Let_def split: if_splits dest: on_channel_same)
  with assms sd c1 show ?thesis by (auto simp: SendInLoop_def split: if_splits)
qed

lemma HandleWrite_same:
  assumes "HandleWrite update write c = Inr c'"
  shows "conn_state c' = conn_state c \<and> events_seen c' = events_seen c"
proof -
  obtain n e where w: "WriteFd write (output_buffer c) = (n, e)" by (cases "WriteFd write (output_buffer c)")
  let ?c1 = "c\<lparr>wire := wire c @ take (nat n) (content (output_buffer c)), output_buffer := Retrieve (nat n) (output_buffer c)\<rparr>"
  show ?thesis
  proof (cases "IsWriting (the_channel c) \<and> n > 0 \<and> ReadableBytes (output_buffer ?c1) = 0")
    case True
    then have "bindr (on_channel (DisableWriting update) ?c1) (\<lambda>c. let c = (if has_write_complete c then queue_task Task_write_complete c else c)
        in Inr (if conn_state c = kDisconnecting then ShutdownInLoop c else c)) = Inr c'"
      using assms by (simp add: HandleWrite_def w)
    then obtain c2 where c2: "on_channel (DisableWriting update) ?c1 = Inr c2"
      and c': "c' = (let c = (if has_write_complete c2 then queue_task Task_write_complete c2 else c2)
        in if conn_state c = kDisconnecting then ShutdownInLoop c else c)"
      by (cases "on_channel (DisableWriting update) ?c1") (simp_all add: Let_def)
    from on_channel_same [OF c2] show ?thesis by (simp add: c' Let_def ShutdownInLoop_def)
  next
    case False
    then have "c' = c \<or> c' = ?c1" using assms by (auto simp: HandleWrite_def w Let_def split: if_splits)
    then show ?thesis by auto
  qed
qed

lemma HandleClose_same:
  assumes "HandleClose update silent_callbacks in_loop c = Inr c'"
  shows "conn_state c \<in> {kConnected, kDisconnecting} \<and> conn_state c' = kDisconnected
    \<and> events_seen c' = events_seen c @ [Connection_down, Connection_closed]"
  using assms
  by (auto simp: HandleClose_def AssertInLoopThread_def saw_def SetState_def split: if_splits dest!: on_channel_same)

lemma HandleRead_same:
  assumes "HandleRead update silent_callbacks in_loop readv t c = Inr c'"
  shows "conn_state c' = conn_state c \<and> (\<exists>es. events_seen c' = events_seen c @ es \<and> set es \<subseteq> {Message_received})
    \<or> (conn_state c \<in> {kConnected, kDisconnecting} \<and> conn_state c' = kDisconnected
       \<and> events_seen c' = events_seen c @ [Connection_down, Connection_closed])"
proof (cases "ReadFd readv (input_buffer c)")
  case (Inr r)
  obtain b n e where r: "r = (b, n, e)" by (cases r)
  consider "n > 0" | "n = 0" | "n < 0" by linarith
  then show ?thesis
  proof cases
    case 1
    then have "c' = saw Message_received (c\<lparr>input_buffer := b\<rparr>)" using assms by (simp add: HandleRead_def Inr r)
    then show ?thesis by (simp add: saw_def)
  next
    case 2
    then have "HandleClose update silent_callbacks in_loop (c\<lparr>input_buffer := b\<rparr>) = Inr c'" using assms by (simp add: HandleRead_def Inr r)
    from HandleClose_same [OF this] show ?thesis by simp
  next
    case 3
    then have "c' = c\<lparr>input_buffer := b\<rparr>" using assms by (simp add: HandleRead_def Inr r HandleError_def)
    then show ?thesis by simp
  qed
qed (use assms in \<open>simp add: HandleRead_def\<close>)

lemma ShutdownInLoop_same: "conn_state (ShutdownInLoop c) = conn_state c" "events_seen (ShutdownInLoop c) = events_seen c"
  by (simp_all add: ShutdownInLoop_def)

lemma read_ops_same:
  "StartReadInLoop update in_loop c = Inr c' \<Longrightarrow> conn_state c' = conn_state c \<and> events_seen c' = events_seen c"
  "StopReadInLoop update in_loop c = Inr c' \<Longrightarrow> conn_state c' = conn_state c \<and> events_seen c' = events_seen c"
  by (auto simp: StartReadInLoop_def StopReadInLoop_def AssertInLoopThread_def on_channel_def split: if_splits)

lemma run_task_same:
  assumes "run_task update silent_callbacks w t c = Inr c'"
  shows "conn_state c' = conn_state c \<and> events_seen c' = events_seen c
    \<or> (conn_state c \<in> {kConnected, kDisconnecting} \<and> conn_state c' = kDisconnected
       \<and> events_seen c' = events_seen c @ [Connection_down, Connection_closed])"
proof (cases t)
  case (Task_send_pointer p len)
  with assms obtain d where "SendInLoop update w d c = Inr c'" by (auto split: option.splits if_splits)
  then show ?thesis using SendInLoop_same by blast
next
  case Task_force_close
  with assms have "c' = c \<or> HandleClose update silent_callbacks True c = Inr c'"
    by (auto simp: ForceCloseInLoop_def AssertInLoopThread_def split: if_splits)
  then show ?thesis using HandleClose_same by blast
next
  case (Task_send_copy d)
  with assms SendInLoop_same [of update w d c c'] show ?thesis by simp
next
  case Task_start_read
  with assms read_ops_same(1) [of update True c c'] show ?thesis by simp
next
  case Task_stop_read
  with assms read_ops_same(2) [of update True c c'] show ?thesis by simp
qed (use assms in \<open>auto simp: ShutdownInLoop_same\<close>)

lemma ConnectDestroyed_same:
  assumes "ConnectDestroyed update remove silent_callbacks c = Inr c'"
  shows "conn_state c' = conn_state c \<and> events_seen c' = events_seen c
    \<or> conn_state c = kConnected \<and> conn_state c' = kDisconnected \<and> events_seen c' = events_seen c @ [Connection_down]"
proof (cases "conn_state c = kConnected")
  case True
  with assms obtain c1 where c1: "on_channel (DisableAll update) (SetState kDisconnected c) = Inr c1"
    and c': "on_channel remove (saw Connection_down c1) = Inr c'"
    by (cases "on_channel (DisableAll update) (SetState kDisconnected c)") (auto simp: ConnectDestroyed_def)
  from on_channel_same [OF c1] on_channel_same [OF c'] True show ?thesis by (simp add: saw_def SetState_def)
qed (use assms in \<open>auto simp: ConnectDestroyed_def dest: on_channel_same\<close>)

lemma conn_step_told:
  assumes told: "told_down n c" and step: "conn_step update remove c x = Inr c'"
  shows "told_down n c' \<and> state_rank (conn_state c) \<le> state_rank (conn_state c')"
proof (cases x)
  case (Conn_send d w)
  with step have "conn_state c' = conn_state c \<and> events_seen c' = events_seen c"
    using SendInLoop_same [of update w d c c'] by (simp split: if_splits)
  with told show ?thesis by (simp add: told_down_def)
next
  case Conn_shutdown
  with assms show ?thesis by (auto simp: told_down_def Shutdown_def SetState_def ShutdownInLoop_same Let_def split: if_splits)
next
  case Conn_force_close
  with assms show ?thesis by (auto simp: told_down_def ForceClose_def SetState_def split: if_splits)
next
  case Conn_force_close_delayed
  with assms show ?thesis by (auto simp: told_down_def ForceCloseWithDelay_def SetState_def split: if_splits)
next
  case (Conn_readable readv t)
  then have "HandleRead update silent_callbacks True readv t c = Inr c'" using step by simp
  from HandleRead_same [OF this] told show ?thesis by (auto simp: told_down_def count_list_0_iff)
next
  case (Conn_writable w)
  with step HandleWrite_same [of update w c c'] told show ?thesis by (simp add: told_down_def)
next
  case Conn_hangup
  with step HandleClose_same [of update True c c'] told show ?thesis by (auto simp: told_down_def)
next
  case (Conn_run_task w)
  with step consider "c' = c" | t ts where "conn_tasks c = t # ts" "run_task update silent_callbacks w t (c\<lparr>conn_tasks := ts\<rparr>) = Inr c'"
    by (auto split: list.splits)
  then show ?thesis
  proof cases
    case 2
    from run_task_same [OF 2(2)] told show ?thesis by (auto simp: told_down_def)
  qed (use told in simp)
next
  case Conn_destroyed
  with step have "ConnectDestroyed update remove silent_callbacks c = Inr c'" by simp
  from ConnectDestroyed_same [OF this] told show ?thesis by (auto simp: told_down_def)
qed

lemma close_set_same: "conn_state (close_set k c) = kDisconnecting" "events_seen (close_set k c) = events_seen c"
  by (cases k; simp add: SetState_def Let_def)+

lemma system_step_told:
  assumes told: "told_down (late s) (sys_conn s)" and step: "system_step update remove s x = Inr s'"
  shows "told_down (late s') (sys_conn s') \<and> late s \<le> late s'
    \<and> (late s' = late s \<longrightarrow> state_rank (conn_state (sys_conn s)) \<le> state_rank (conn_state (sys_conn s')))"
proof (cases x)
  case (Loop_does y)
  with step obtain c' where c': "conn_step update remove (sys_conn s) y = Inr c'" "s' = s\<lparr>sys_conn := c'\<rparr>"
    by (cases "conn_step update remove (sys_conn s) y") auto
  with conn_step_told [OF told c'(1)] show ?thesis by simp
next
  case (Other_tests k)
  with told step show ?thesis by auto
next
  case (Other_sets i)
  have "told_down (late s + (if DisConnected (sys_conn s) then 1 else 0)) (close_set k (sys_conn s))
      \<and> (\<not> DisConnected (sys_conn s) \<longrightarrow> state_rank (conn_state (sys_conn s)) \<le> state_rank (conn_state (close_set k (sys_conn s))))" for k
    using told by (cases "conn_state (sys_conn s)") (auto simp: told_down_def close_set_same DisConnected_def)
  with told step Other_sets show ?thesis by (auto split: if_splits)
qed

context poller
begin

text \<open>A connection whose channel is registered, with writing enabled exactly while output is pending.\<close>

definition conn_ok :: "'p tcp_connection \<Rightarrow> bool" where
  "conn_ok c \<longleftrightarrow> inv (poll_state c) \<and> has (poll_state c) (conn_channel c) \<and> valid_events (ch_events (the_channel c))
     \<and> buffer_inv (output_buffer c) \<and> (IsWriting (the_channel c) \<longleftrightarrow> content (output_buffer c) \<noteq> [])"

text \<open>Changing the channel's mask.\<close>

lemma on_channel_mask:
  assumes inv: "inv (poll_state c)" and has: "has (poll_state c) (conn_channel c)" and ev: "valid_events (f (ch_events (the_channel c)))"
    and op_def: "\<And>ch s. opn ch s = update True ch (set_events ch (f (ch_events (fst s ch))) (fst s), snd s)"
  shows "\<exists>ps. on_channel opn c = Inr (c\<lparr>poll_state := ps\<rparr>) \<and> inv ps \<and> has ps (conn_channel c)
    \<and> ch_events (fst ps (conn_channel c)) = f (ch_events (the_channel c))
    \<and> ch_fd (fst ps (conn_channel c)) = ch_fd (the_channel c)
    \<and> (f (ch_events (the_channel c)) = 0 \<longrightarrow> removable ps (conn_channel c))"
proof -
  from change_events [OF inv disjI2 [OF has] ev] has obtain ps where
    "update True (conn_channel c) (set_events (conn_channel c) (f (ch_events (the_channel c))) (fst (poll_state c)), snd (poll_state c)) = Inr ps"
    "inv ps" "has ps (conn_channel c)" "ch_fd (fst ps (conn_channel c)) = ch_fd (fst (poll_state c) (conn_channel c))"
    "ch_events (fst ps (conn_channel c)) = f (ch_events (the_channel c))" "f (ch_events (the_channel c)) = 0 \<longrightarrow> removable ps (conn_channel c)"
    by blast
  then show ?thesis by (intro exI [of _ ps]) (simp add: on_channel_def op_def the_channel_def)
qed

text \<open>Putting data into the output buffer.\<close>

lemma append_output:
  assumes ok: "conn_ok c" and room: "room (output_buffer c) (length d)" and d: "d \<noteq> []"
  shows "\<exists>c'. bindr (Append d (output_buffer c)) (\<lambda>b. let c = c\<lparr>output_buffer := b\<rparr>
        in if \<not> IsWriting (the_channel c) then on_channel (EnableWriting (update True)) c else Inr c) = Inr c'
    \<and> conn_ok c' \<and> wire c' = wire c \<and> content (output_buffer c') = content (output_buffer c) @ d
    \<and> conn_state c' = conn_state c
    \<and> length (buf_bytes (output_buffer c')) \<le> length (buf_bytes (output_buffer c)) + length d"
proof -
  have inv: "buffer_inv (output_buffer c)" using ok by (simp add: conn_ok_def)
  from Append_ok [OF this room] obtain b where b: "Append d (output_buffer c) = Inr b" "buffer_inv b"
    "content b = content (output_buffer c) @ d" "length (buf_bytes b) \<le> length (buf_bytes (output_buffer c)) + length d" by blast
  let ?c = "c\<lparr>output_buffer := b\<rparr>"
  have ch: "the_channel ?c = the_channel c" by (simp add: the_channel_def)
  show ?thesis
  proof (cases "IsWriting (the_channel c)")
    case True
    with b ch ok d show ?thesis by (simp add: conn_ok_def)
  next
    case False
    have ev: "valid_events (enable_writing (ch_events (the_channel ?c)))"
      using ok by (simp add: conn_ok_def ch valid_events_ops)
    obtain ps where ps: "on_channel (EnableWriting (update True)) ?c = Inr (?c\<lparr>poll_state := ps\<rparr>)" "inv ps" "has ps (conn_channel ?c)"
      "ch_events (fst ps (conn_channel ?c)) = enable_writing (ch_events (the_channel ?c))"
      using on_channel_mask [of ?c enable_writing "EnableWriting (update True)", OF _ _ ev EnableWriting_def] ok
      unfolding conn_ok_def by fastforce
    have "IsWriting (fst ps (conn_channel c))"
      by (rule IsWriting_bit(1) [of "ch_events (the_channel c)"]) (use ok ps(4) ch in \<open>simp_all add: conn_ok_def\<close>)
    with ps b d False ok show ?thesis
      by (simp add: ch conn_ok_def the_channel_def valid_events_ops)
  qed
qed

lemma send_rest_ok:
  assumes "conn_ok c" and "room (output_buffer c) (length d)" and "d \<noteq> []"
  shows "\<exists>c'. send_rest (update True) d c = Inr c'
    \<and> conn_ok c' \<and> wire c' = wire c \<and> content (output_buffer c') = content (output_buffer c) @ d
    \<and> conn_state c' = conn_state c
    \<and> length (buf_bytes (output_buffer c')) \<le> length (buf_bytes (output_buffer c)) + length d"
proof -
  have task: "conn_ok (queue_task t c)" for t using assms(1) by (simp add: conn_ok_def)
  let ?mark = "ReadableBytes (output_buffer c) + length d \<ge> high_watermark c \<and> ReadableBytes (output_buffer c) < high_watermark c
      \<and> has_high_watermark c"
  show ?thesis
  proof (cases ?mark)
    case True
    then show ?thesis
      using append_output [OF task, of "Task_high_watermark (ReadableBytes (output_buffer c) + length d)" d] assms(2,3)
      by (simp add: send_rest_def)
  next
    case False
    then show ?thesis unfolding send_rest_def Let_def if_not_P [OF False]
      using append_output [OF assms] by (simp add: Let_def)
  qed
qed

lemma send_direct_ok:
  assumes ok: "conn_ok c" and w: "write_ok write"
  shows "\<exists>n c'. send_direct write data c = (n, False, c') \<and> n \<le> length data \<and> conn_ok c' \<and> conn_state c' = conn_state c
    \<and> output_buffer c' = output_buffer c \<and> wire c' = wire c @ take n data \<and> (content (output_buffer c) = [] \<or> n = 0)"
proof (cases "\<not> IsWriting (the_channel c) \<and> ReadableBytes (output_buffer c) = 0")
  case True
  have "content (output_buffer c) = []" using True ok by (simp add: conn_ok_def)
  moreover have "conn_ok (c\<lparr>wire := x\<rparr>)" for x using ok by (simp add: conn_ok_def the_channel_def)
  moreover from this have "conn_ok (queue_task t (c\<lparr>wire := x\<rparr>))" for t x by (simp add: conn_ok_def)
  ultimately show ?thesis using True w ok
    by (cases "write data") (auto simp: send_direct_def write_ok_def Let_def)
next
  case False
  then have "send_direct write data c = (0, False, c)" unfolding send_direct_def by (rule if_not_P)
  with ok show ?thesis by simp
qed

text \<open>Either the kernel takes a first part of the data and the rest is buffered, or all of it is buffered.\<close>

lemma SendInLoop_ok:
  assumes ok: "conn_ok c" and st: "conn_state c \<noteq> kDisconnected" and w: "write_ok write"
    and room: "room (output_buffer c) (length data)"
  shows "\<exists>c'. SendInLoop (update True) write data c = Inr c' \<and> conn_ok c' \<and> conn_state c' = conn_state c
    \<and> wire c' @ content (output_buffer c') = wire c @ content (output_buffer c) @ data
    \<and> length (buf_bytes (output_buffer c')) \<le> length (buf_bytes (output_buffer c)) + length data"
proof -
  from send_direct_ok [OF ok w, of data] obtain n c1 where c1: "send_direct write data c = (n, False, c1)" "n \<le> length data" "conn_ok c1"
    "conn_state c1 = conn_state c" "output_buffer c1 = output_buffer c" "wire c1 = wire c @ take n data"
    and empty: "content (output_buffer c) = [] \<or> n = 0" by blast
  show ?thesis
  proof (cases "length data - n > 0")
    case True
    have "room (output_buffer c1) (length (drop n data))" using room by (auto simp: c1 room_def)
    from send_rest_ok [OF c1(3) this] True obtain c' where "send_rest (update True) (drop n data) c1 = Inr c'" "conn_ok c'"
      "wire c' = wire c1" "content (output_buffer c') = content (output_buffer c1) @ drop n data" "conn_state c' = conn_state c1"
      "length (buf_bytes (output_buffer c')) \<le> length (buf_bytes (output_buffer c1)) + length (drop n data)" by auto
    with empty True st c1 show ?thesis by (auto simp: SendInLoop_def)
  next
    case False
    with c1 st empty show ?thesis by (auto simp: SendInLoop_def)
  qed
qed

text \<open>A writable event moves a first part of the pending bytes to the kernel, and stops watching when none are left.\<close>

lemma HandleWrite_any:
  assumes ok: "conn_ok c"
  shows "\<exists>c'. HandleWrite (update True) write c = Inr c' \<and> conn_ok c' \<and> conn_state c' = conn_state c
    \<and> wire c' @ content (output_buffer c') = wire c @ content (output_buffer c)
    \<and> buf_bytes (output_buffer c') = buf_bytes (output_buffer c)
    \<and> (write (content (output_buffer c)) = Inr (length (content (output_buffer c))) \<longrightarrow> content (output_buffer c') = []
        \<and> (content (output_buffer c) \<noteq> [] \<and> conn_state c = kDisconnecting \<longrightarrow> write_shut c'))
    \<and> (content (output_buffer c') \<noteq> [] \<longrightarrow> write_shut c' = write_shut c)
    \<and> (content (output_buffer c) = [] \<longrightarrow> c' = c)
    \<and> (\<forall>n. write (content (output_buffer c)) = Inr n \<longrightarrow> content (output_buffer c') = drop n (content (output_buffer c)))
    \<and> (content (output_buffer c) \<noteq> [] \<and> content (output_buffer c') = [] \<and> conn_state c = kDisconnecting \<longrightarrow> write_shut c')"
proof -
  let ?out = "content (output_buffer c)"
  have inv: "buffer_inv (output_buffer c)" using ok by (simp add: conn_ok_def)
  note out = ContentToString_content [OF inv]
  show ?thesis
  proof (cases "IsWriting (the_channel c) \<and> (\<exists>n. write ?out = Inr n \<and> n > 0)")
    case False
    then have "HandleWrite (update True) write c = Inr c"
      by (auto simp: HandleWrite_def WriteFd_def out split: sum.splits)
    moreover have "?out = []" if "write ?out = Inr (length ?out)"
      using False ok that by (auto simp: conn_ok_def)
    moreover have "?out = drop n ?out" if "write ?out = Inr n" for n
      using False ok that by (cases n) (auto simp: conn_ok_def)
    ultimately show ?thesis using ok by auto
  next
    case True
    then obtain n where n: "write ?out = Inr n" "n > 0" and wr: "IsWriting (the_channel c)" by blast
    define c1 where "c1 = c\<lparr>wire := wire c @ take n ?out, output_buffer := Retrieve n (output_buffer c)\<rparr>"
    have c1: "conn_state c1 = conn_state c" "poll_state c1 = poll_state c" "conn_channel c1 = conn_channel c"
      "the_channel c1 = the_channel c" "content (output_buffer c1) = drop n ?out" "buffer_inv (output_buffer c1)"
      "buf_bytes (output_buffer c1) = buf_bytes (output_buffer c)" "wire c1 = wire c @ take n ?out" "write_shut c1 = write_shut c"
      by (simp_all add: c1_def the_channel_def Retrieve_content inv Retrieve_inv)
    have run: "HandleWrite (update True) write c = (if drop n ?out = [] then bindr (on_channel (DisableWriting (update True)) c1)
        (\<lambda>c. let c = (if has_write_complete c then queue_task Task_write_complete c else c)
             in Inr (if conn_state c = kDisconnecting then ShutdownInLoop c else c)) else Inr c1)"
      using wr n content_Nil_iff [OF c1(6)] by (simp add: HandleWrite_def WriteFd_def out c1_def [symmetric] c1(5))
    show ?thesis
    proof (cases "drop n ?out = []")
      case False
      with run ok wr n c1 show ?thesis by (auto simp: conn_ok_def)
    next
      case drained: True
      have ev: "valid_events (disable_writing (ch_events (the_channel c1)))"
        using ok by (simp add: conn_ok_def c1 valid_events_ops)
      obtain ps where ps: "on_channel (DisableWriting (update True)) c1 = Inr (c1\<lparr>poll_state := ps\<rparr>)" "inv ps" "has ps (conn_channel c1)"
        "ch_events (fst ps (conn_channel c1)) = disable_writing (ch_events (the_channel c1))"
        using on_channel_mask [of c1 disable_writing "DisableWriting (update True)", OF _ _ ev DisableWriting_def] ok
        unfolding conn_ok_def c1(2,3) by fastforce
      have nw: "\<not> IsWriting (fst ps (conn_channel c))"
        by (rule IsWriting_bit(2) [of "ch_events (the_channel c)"]) (use ok ps(4) c1 in \<open>simp_all add: conn_ok_def\<close>)
      define c2 where "c2 = (let c = c1\<lparr>poll_state := ps\<rparr> in if has_write_complete c then queue_task Task_write_complete c else c)"
      have c2: "conn_state c2 = conn_state c" "conn_channel c2 = conn_channel c" "poll_state c2 = ps" "output_buffer c2 = output_buffer c1"
        "wire c2 = wire c1" "\<not> IsWriting (the_channel c2)" "ch_events (the_channel c2) = disable_writing (ch_events (the_channel c))"
        using nw ps(4) c1 by (auto simp: c2_def Let_def the_channel_def)
      have "HandleWrite (update True) write c = Inr (if conn_state c = kDisconnecting then ShutdownInLoop c2 else c2)"
        using run drained ps(1) c2(1) by (simp add: c2_def Let_def)
      moreover have "conn_ok c2" using ps(2,3) c2 c1 drained ev ok by (simp add: conn_ok_def)
      moreover have "take n ?out = ?out" using drained by simp
      moreover have "?out \<noteq> []" using ok wr by (simp add: conn_ok_def)
      ultimately show ?thesis using c2 c1 drained n(1) by (auto simp: ShutdownInLoop_def conn_ok_def the_channel_def)
    qed
  qed
qed

lemma HandleWrite_ok:
  assumes "conn_ok c" and "write_ok write"
  shows "\<exists>c'. HandleWrite (update True) write c = Inr c' \<and> conn_ok c' \<and> conn_state c' = conn_state c
    \<and> wire c' @ content (output_buffer c') = wire c @ content (output_buffer c)
    \<and> buf_bytes (output_buffer c') = buf_bytes (output_buffer c)
    \<and> (write (content (output_buffer c)) = Inr (length (content (output_buffer c))) \<longrightarrow> content (output_buffer c') = []
        \<and> (content (output_buffer c) \<noteq> [] \<and> conn_state c = kDisconnecting \<longrightarrow> write_shut c'))
    \<and> (content (output_buffer c') \<noteq> [] \<longrightarrow> write_shut c' = write_shut c)"
  using HandleWrite_any [OF assms(1), of "write"] by blast

text \<open>Any interleaving of sends and writable events.\<close>

lemma stream_ok:
  assumes "conn_ok c" and "conn_state c \<noteq> kDisconnected" and "\<forall>x\<in>set ops. write_ok (stream_kernel x)"
    and "length (concat (map stream_sent ops)) < 2 ^ 31" and "length (buf_bytes (output_buffer c)) + length (concat (map stream_sent ops)) \<le> vec_max"
  shows "\<exists>c'. foldr_result (stream_step (update True)) c ops = Inr c' \<and> conn_ok c' \<and> conn_state c' = conn_state c
    \<and> wire c' @ content (output_buffer c') = wire c @ content (output_buffer c) @ concat (map stream_sent ops)"
  using assms
proof (induction ops arbitrary: c)
  case Nil
  then show ?case by simp
next
  case (Cons x ops)
  have "\<exists>c1. stream_step (update True) c x = Inr c1 \<and> conn_ok c1 \<and> conn_state c1 = conn_state c
    \<and> wire c1 @ content (output_buffer c1) = wire c @ content (output_buffer c) @ stream_sent x
    \<and> length (buf_bytes (output_buffer c1)) \<le> length (buf_bytes (output_buffer c)) + length (stream_sent x)"
  proof (cases x)
    case (Stream_send d w)
    have "room (output_buffer c) (length d)" using Cons.prems(4,5) Stream_send by (simp add: room_def)
    with SendInLoop_ok [OF Cons.prems(1,2), of w d] Cons.prems(3) Stream_send show ?thesis by simp
  next
    case (Stream_writable w)
    with HandleWrite_ok [OF Cons.prems(1), of w] Cons.prems(3) show ?thesis by auto
  qed
  then obtain c1 where c1: "stream_step (update True) c x = Inr c1" "conn_ok c1" "conn_state c1 = conn_state c"
    "wire c1 @ content (output_buffer c1) = wire c @ content (output_buffer c) @ stream_sent x"
    "length (buf_bytes (output_buffer c1)) \<le> length (buf_bytes (output_buffer c)) + length (stream_sent x)" by blast
  have "\<exists>c'. foldr_result (stream_step (update True)) c1 ops = Inr c' \<and> conn_ok c' \<and> conn_state c' = conn_state c1
    \<and> wire c' @ content (output_buffer c') = wire c1 @ content (output_buffer c1) @ concat (map stream_sent ops)"
    by (rule Cons.IH) (use c1 Cons.prems in auto)
  with c1 show ?case by (auto simp: append_assoc [symmetric] simp del: append_assoc)
qed

text \<open>
  A connection that is shutting down, through any number of writable events: the write end is closed by the event that takes the last
  byte, not before.
\<close>

lemma drain_ok:
  assumes "conn_ok c" and "conn_state c = kDisconnecting" and "write_shut c \<longleftrightarrow> content (output_buffer c) = []"
  shows "\<exists>c'. foldr_result (\<lambda>c w. HandleWrite (update True) w c) c ws = Inr c' \<and> conn_ok c' \<and> conn_state c' = kDisconnecting
    \<and> wire c' @ content (output_buffer c') = wire c @ content (output_buffer c)
    \<and> (write_shut c' \<longleftrightarrow> content (output_buffer c') = [])
    \<and> ((\<forall>w\<in>set ws. takes_some w) \<longrightarrow> length (content (output_buffer c')) \<le> length (content (output_buffer c)) - length ws)"
  using assms
proof (induction ws arbitrary: c)
  case (Cons w ws)
  from HandleWrite_any [OF Cons.prems(1), of w] obtain c1 where c1: "HandleWrite (update True) w c = Inr c1" "conn_ok c1"
    "conn_state c1 = conn_state c" "wire c1 @ content (output_buffer c1) = wire c @ content (output_buffer c)"
    and keep: "content (output_buffer c1) \<noteq> [] \<longrightarrow> write_shut c1 = write_shut c" "content (output_buffer c) = [] \<longrightarrow> c1 = c"
    and drop: "\<forall>n. w (content (output_buffer c)) = Inr n \<longrightarrow> content (output_buffer c1) = drop n (content (output_buffer c))"
    and shut: "content (output_buffer c) \<noteq> [] \<and> content (output_buffer c1) = [] \<and> conn_state c = kDisconnecting \<longrightarrow> write_shut c1"
    by blast
  have sh: "write_shut c1 \<longleftrightarrow> content (output_buffer c1) = []"
  proof (cases "content (output_buffer c) = []")
    case False
    then show ?thesis using keep(1) shut Cons.prems(2,3) by blast
  qed (use keep(2) Cons.prems(3) in simp)
  have "length (content (output_buffer c1)) \<le> length (content (output_buffer c)) - 1" if "takes_some w"
  proof (cases "content (output_buffer c) = []")
    case False
    with that obtain n where "w (content (output_buffer c)) = Inr n" "n > 0" by (auto simp: takes_some_def)
    with drop show ?thesis by simp
  qed (use keep(2) in simp)
  with Cons.IH [OF c1(2) _ sh] c1(1,3,4) Cons.prems(2) show ?case by fastforce
qed simp

lemma shutdown_drains:
  assumes ok: "conn_ok c" and st: "conn_state c = kConnected" and open_end: "\<not> write_shut c"
  shows "\<exists>c'. foldr_result (\<lambda>c w. HandleWrite (update True) w c) (Shutdown True c) ws = Inr c' \<and> conn_state c' = kDisconnecting
    \<and> wire c' @ content (output_buffer c') = wire c @ content (output_buffer c)
    \<and> (write_shut c' \<longleftrightarrow> content (output_buffer c') = [])
    \<and> ((\<forall>w\<in>set ws. takes_some w) \<and> length (content (output_buffer c)) \<le> length ws \<longrightarrow> content (output_buffer c') = [])"
proof -
  let ?c = "Shutdown True c"
  have same: "conn_ok ?c" "conn_state ?c = kDisconnecting" "output_buffer ?c = output_buffer c" "wire ?c = wire c"
    "write_shut ?c \<longleftrightarrow> content (output_buffer c) = []"
    using ok st open_end by (auto simp: Shutdown_def ShutdownInLoop_def SetState_def conn_ok_def the_channel_def)
  then have "write_shut ?c \<longleftrightarrow> content (output_buffer ?c) = []" by simp
  from drain_ok [OF same(1,2) this, of ws] show ?thesis unfolding same(3,4) by fastforce
qed

text \<open>The life of a connection with callbacks that do nothing to it: established, closed by the peer, destroyed.\<close>

lemma lifecycle_ok:
  assumes inv: "inv ps" and fresh: "fresh ps ch" and ev: "ch_events (fst ps ch) = 0"
  shows "\<exists>c1 c2 c3. ConnectEstablished (update True) silent_callbacks (TcpConnection_new ch ps) = Inr c1
    \<and> Connected c1 \<and> conn_ok c1 \<and> events_seen c1 = [Connection_up]
    \<and> interest (poll_state c1) = (interest ps)(ch_fd (fst ps ch) \<mapsto> kReadEvent)
    \<and> HandleClose (update True) silent_callbacks True c1 = Inr c2
    \<and> DisConnected c2 \<and> events_seen c2 = [Connection_up, Connection_down, Connection_closed]
    \<and> ConnectDestroyed (update True) (remove True) silent_callbacks c2 = Inr c3
    \<and> inv (poll_state c3) \<and> \<not> has (poll_state c3) ch \<and> interest (poll_state c3) = (interest ps)(ch_fd (fst ps ch) := None)"
proof -
  let ?c0 = "tie_channel (SetState kConnected (TcpConnection_new ch ps))"
  let ?ps0 = "(tie_at ch ch (fst ps), snd ps)"
  have c0: "conn_channel ?c0 = ch" "poll_state ?c0 = ?ps0" by (simp_all add: tie_channel_def SetState_def TcpConnection_new_def)
  have tie: "inv ?ps0" "fresh ?ps0 ch" "interest ?ps0 = interest ps" using tie_same [of ch ch "fst ps" "snd ps" ch] inv fresh by simp_all
  have ev0: "enable_reading (ch_events (fst ?ps0 ch)) = kReadEvent" using ev by (simp add: enable_reading_def)
  have v: "valid_events kReadEvent" by (simp add: valid_events_def event_consts)
  from change_events [OF tie(1) disjI1 [OF tie(2)] v] obtain p1 where
    p1: "update True ch (set_events ch kReadEvent (fst ?ps0), snd ?ps0) = Inr p1" "inv p1" "has p1 ch"
      "ch_fd (fst p1 ch) = ch_fd (fst ?ps0 ch)" "ch_events (fst p1 ch) = kReadEvent"
      "interest p1 = (interest ?ps0)(ch_fd (fst ?ps0 ch) := new_interest bare (has ?ps0 ch) (interest ?ps0 (ch_fd (fst ?ps0 ch))) kReadEvent)" by blast
  define c1 where "c1 = saw Connection_up (?c0\<lparr>poll_state := p1\<rparr>)"
  have e1: "ConnectEstablished (update True) silent_callbacks (TcpConnection_new ch ps) = Inr c1"
    using p1(1) ev0 by (simp add: ConnectEstablished_def on_channel_def EnableReading_def c0 silent_callbacks_def c1_def)
  have c1: "conn_channel c1 = ch" "poll_state c1 = p1" "the_channel c1 = fst p1 ch" "conn_state c1 = kConnected"
    "events_seen c1 = [Connection_up]" "output_buffer c1 = default_buffer"
    by (simp_all add: c1_def saw_def the_channel_def tie_channel_def SetState_def TcpConnection_new_def)
  have ok1: "conn_ok c1" using p1 v by (simp add: conn_ok_def c1 IsWriting_def event_consts)
  from change_events [OF p1(2) disjI2 [OF p1(3)] valid_events_ops(1)] p1(3) obtain p2 where
    p2: "update True ch (set_events ch 0 (fst p1), snd p1) = Inr p2" "inv p2" "removable p2 ch" "ch_fd (fst p2 ch) = ch_fd (fst p1 ch)"
      "interest p2 = (interest p1)(ch_fd (fst p1 ch) := new_interest bare (has p1 ch) (interest p1 (ch_fd (fst p1 ch))) 0)" by blast
  have d: "disable_all (ch_events (fst p1 ch)) = 0" using p1(5) by (simp add: disable_all_def event_consts)
  define c2 where "c2 = saw Connection_closed (saw Connection_down ((SetState kDisconnected c1)\<lparr>poll_state := p2\<rparr>))"
  have e2: "HandleClose (update True) silent_callbacks True c1 = Inr c2"
    using p2(1) d c1 by (simp add: HandleClose_def AssertInLoopThread_def on_channel_def DisableAll_def silent_callbacks_def c2_def SetState_def)
  have c2: "conn_channel c2 = ch" "poll_state c2 = p2" "conn_state c2 = kDisconnected"
    "events_seen c2 = [Connection_up, Connection_down, Connection_closed]"
    using c1 by (simp_all add: c2_def saw_def SetState_def)
  from remove_ok [OF p2(2,3)] obtain p3 where p3: "remove True ch p2 = Inr p3" "inv p3" "\<not> has p3 ch"
    "interest p3 = (interest p2)(ch_fd (fst p2 ch) := None)" by blast
  have e3: "ConnectDestroyed (update True) (remove True) silent_callbacks c2 = Inr (c2\<lparr>poll_state := p3\<rparr>)"
    using p3(1) c2 by (simp add: ConnectDestroyed_def on_channel_def)
  have i: "new_interest bare k e kReadEvent = Some kReadEvent" for k e by (simp add: new_interest_def event_consts)
  show ?thesis
    using e1 e2 e3 c1 c2 ok1 p1(4,6) p2(4,5) p3 tie(3) i
    by (intro exI [of _ c1] exI [of _ c2] exI [of _ "c2\<lparr>poll_state := p3\<rparr>"]) (simp add: Connected_def DisConnected_def)
qed

end

section \<open>Properties\<close>

text \<open>
  Property C2. Bytes leave a connection in the order they were sent, without loss or duplication. Take a connection whose
  channel is registered with the epoll poller and any interleaving of \<open>SendInLoop\<close> calls and writable events, with a
  kernel that takes any part of what it is offered or fails for the moment. Every operation succeeds, and what the
  kernel has taken followed by what is in the output buffer is always what it was before followed by everything sent;
  the channel waits for writability exactly while output is pending.
\<close>

theorem stream_order_epoll:
  assumes "epoll.conn_ok c" and "conn_state c \<noteq> kDisconnected" and "\<forall>x\<in>set ops. write_ok (stream_kernel x)"
    and "length (concat (map stream_sent ops)) < 2 ^ 31" and "length (buf_bytes (output_buffer c)) + length (concat (map stream_sent ops)) \<le> vec_max"
  shows "\<exists>c'. foldr_result (stream_step (Epoll_UpdateChannel True)) c ops = Inr c' \<and> epoll.conn_ok c' \<and> conn_state c' = conn_state c
    \<and> wire c' @ content (output_buffer c') = wire c @ content (output_buffer c) @ concat (map stream_sent ops)
    \<and> (IsWriting (the_channel c') \<longleftrightarrow> content (output_buffer c') \<noteq> [])"
  using epoll.stream_ok [OF assms] by (auto simp: epoll.conn_ok_def)

lemma example_conn_ok: "length out < 100 \<Longrightarrow> epoll.conn_ok (example_conn out)"
  by (auto simp: epoll.conn_ok_def example_conn_def Let_def TcpConnection_new_def epoll_inv_def epoll_fd_ok_def epoll_has_def HasChannel_def
      Channel_new_def the_channel_def valid_events_def IsWriting_def event_consts kAdded_def buffer_inv_buffer_of)

lemma example_conn_simps [simp]:
  "conn_state (example_conn out) = kConnected" "output_buffer (example_conn out) = buffer_of out"
  "wire (example_conn out) = []" "events_seen (example_conn out) = [Connection_up]" "write_shut (example_conn out) = False"
  by (simp_all add: example_conn_def Let_def TcpConnection_new_def)

theorem stream_order_epoll_witness:
  "\<exists>c'. foldr_result (stream_step (Epoll_UpdateChannel True)) (example_conn [])
      [Stream_send ''hello'' (\<lambda>d. Inr (min 2 (length d))), Stream_send ''world'' (\<lambda>d. Inl 11), Stream_writable (\<lambda>d. Inr (length d))] = Inr c'
    \<and> wire c' @ content (output_buffer c') = ''helloworld''"
proof -
  let ?ops = "[Stream_send ''hello'' (\<lambda>d. Inr (min 2 (length d))), Stream_send ''world'' (\<lambda>d. Inl 11), Stream_writable (\<lambda>d. Inr (length d))]"
  have "\<forall>x\<in>set ?ops. write_ok (stream_kernel x)" by (simp add: write_ok_def EPIPE_def ECONNRESET_def)
  moreover have "length (buf_bytes (buffer_of [])) + 10 \<le> vec_max" by (simp add: buffer_of_def vec_max_def)
  ultimately show ?thesis
    using stream_order_epoll [OF example_conn_ok [of "[]"], of ?ops] by fastforce
qed

text \<open>
  Property C21. \<open>Shutdown\<close> does not cut off pending output, and closes the write end as soon as there is none. Let a connected
  connection, with any output pending or none, be shut down, and then serve any number of writable events, in each of which the kernel takes
  any part of what it is offered, nothing, or fails. No byte is lost or reordered, and at every moment the write end is closed exactly
  if the last byte has been handed over: not after a partial write, and at once if nothing was pending. If every event takes at least
  one byte, as many events as there were bytes pending are enough. This holds for both pollers.
\<close>

theorem Shutdown_after_output:
  assumes "epoll.conn_ok c" and "conn_state c = kConnected" and "\<not> write_shut c"
    and "poll.conn_ok d" and "conn_state d = kConnected" and "\<not> write_shut d"
  shows "(\<exists>c'. foldr_result (\<lambda>c w. HandleWrite (Epoll_UpdateChannel True) w c) (Shutdown True c) ws = Inr c'
      \<and> wire c' @ content (output_buffer c') = wire c @ content (output_buffer c)
      \<and> (write_shut c' \<longleftrightarrow> content (output_buffer c') = [])
      \<and> ((\<forall>w\<in>set ws. takes_some w) \<and> length (content (output_buffer c)) \<le> length ws \<longrightarrow> content (output_buffer c') = []))
    \<and> (\<exists>d'. foldr_result (\<lambda>c w. HandleWrite (Poll_UpdateChannel True) w c) (Shutdown True d) ws = Inr d'
      \<and> wire d' @ content (output_buffer d') = wire d @ content (output_buffer d)
      \<and> (write_shut d' \<longleftrightarrow> content (output_buffer d') = [])
      \<and> ((\<forall>w\<in>set ws. takes_some w) \<and> length (content (output_buffer d)) \<le> length ws \<longrightarrow> content (output_buffer d') = []))"
  using epoll.shutdown_drains [OF assms(1-3), of ws] poll.shutdown_drains [OF assms(4-6), of ws] by blast

definition example_poll_conn :: "poll_poller tcp_connection" where
  "example_poll_conn = (TcpConnection_new 1 ((\<lambda>_. Channel_new 5)(1 := (Channel_new 5)\<lparr>ch_events := 7, ch_index := 0\<rparr>),
        \<lparr>pp_channels = [5 \<mapsto> 1], pp_fds = [\<lparr>pfd_fd = 5, pfd_events = 7, pfd_revents = 0\<rparr>]\<rparr>))
     \<lparr>conn_state := kConnected, output_buffer := buffer_of ''bye''\<rparr>"

lemma example_poll_conn_ok: "poll.conn_ok example_poll_conn"
  by (auto simp: poll.conn_ok_def example_poll_conn_def TcpConnection_new_def poll_inv_def poll_has_def HasChannel_def decode_fd_def
      Channel_new_def the_channel_def valid_events_def IsWriting_def event_consts buffer_inv_buffer_of)

theorem Shutdown_after_output_witness:
  "\<exists>c'. foldr_result (\<lambda>c w. HandleWrite (Epoll_UpdateChannel True) w c) (Shutdown True (example_conn ''bye''))
      [\<lambda>d. Inr 1, \<lambda>d. Inr 1, \<lambda>d. Inr 1] = Inr c' \<and> wire c' = ''bye'' \<and> write_shut c'"
proof -
  have p: "conn_state example_poll_conn = kConnected" "\<not> write_shut example_poll_conn"
    by (simp_all add: example_poll_conn_def TcpConnection_new_def)
  have "takes_some (\<lambda>d. Inr 1)" by (simp add: takes_some_def)
  then show ?thesis
    using Shutdown_after_output [OF example_conn_ok [of "''bye''"] _ _ example_poll_conn_ok p, of "[\<lambda>d. Inr 1, \<lambda>d. Inr 1, \<lambda>d. Inr 1]"]
    by auto
qed

lemma system_run_told:
  "told_down (late s) (sys_conn s) \<Longrightarrow> foldr_result (system_step update remove) s acts = Inr s' \<Longrightarrow>
    told_down (late s') (sys_conn s') \<and> late s \<le> late s'
    \<and> (late s' = late s \<longrightarrow> state_rank (conn_state (sys_conn s)) \<le> state_rank (conn_state (sys_conn s')))"
proof (induction acts arbitrary: s)
  case (Cons x acts)
  then obtain s1 where s1: "system_step update remove s x = Inr s1" "foldr_result (system_step update remove) s1 acts = Inr s'"
    by (cases "system_step update remove s x") auto
  from system_step_told [OF Cons.prems(1) s1(1)] Cons.IH [OF _ s1(2)] show ?case by auto
qed simp

lemma loop_only_not_late:
  "foldr_result (system_step update remove) s (map Loop_does xs) = Inr s' \<Longrightarrow> late s' = late s"
proof (induction xs arbitrary: s)
  case (Cons x xs)
  then show ?case by (cases "conn_step update remove (sys_conn s) x") fastforce+
qed simp


text \<open>
  The race is real: another thread's \<open>ForceClose\<close> passes its test, the peer hangs up and the connection is closed, and the call then
  sets the state back and queues a second close. The functor it queued finds the state disconnecting and closes the connection again:
  the owner is told twice.
\<close>

theorem ForceClose_race:
  "\<exists>s. foldr_result (system_step (Epoll_UpdateChannel True) (Epoll_RemoveChannel True)) \<lparr>sys_conn = example_conn [], in_flight = [], late = 0\<rparr>
      [Other_tests By_force_close, Loop_does Conn_hangup, Other_sets 0, Loop_does (Conn_run_task w)] = Inr s
    \<and> late s = 1 \<and> count_list (events_seen (sys_conn s)) Connection_down = 2"
  by (simp add: HandleClose_def ForceCloseInLoop_def AssertInLoopThread_def SetState_def queue_task_def saw_def example_conn_def Let_def TcpConnection_new_def
      Channel_new_def on_channel_def DisableAll_def disable_all_def event_consts DisConnected_def
      Epoll_UpdateChannel_def Epoll_Update_def epoll_ctl_def set_events_def set_index_def index_consts IsNoneEvent_def)


text \<open>
  With either poller a connection can be established, closed by its peer and destroyed: its channel is first
  watched for reading, the owner hears up, down and closed in this order, and in the end the poller has forgotten the
  channel and watches nothing on its descriptor.
\<close>

theorem connection_lifecycle:
  assumes "epoll_inv s" and "epoll_fresh s ch" and "ch_events (fst s ch) = 0"
    and "poll_inv t" and "poll_fresh t dh" and "ch_events (fst t dh) = 0"
  shows "(\<exists>c1 c2 c3. ConnectEstablished (Epoll_UpdateChannel True) silent_callbacks (TcpConnection_new ch s) = Inr c1
      \<and> epoll_interest (poll_state c1) = (epoll_interest s)(ch_fd (fst s ch) \<mapsto> kReadEvent)
      \<and> HandleClose (Epoll_UpdateChannel True) silent_callbacks True c1 = Inr c2
      \<and> events_seen c2 = [Connection_up, Connection_down, Connection_closed]
      \<and> ConnectDestroyed (Epoll_UpdateChannel True) (Epoll_RemoveChannel True) silent_callbacks c2 = Inr c3
      \<and> \<not> epoll_has (poll_state c3) ch \<and> epoll_interest (poll_state c3) = (epoll_interest s)(ch_fd (fst s ch) := None))
    \<and> (\<exists>d1 d2 d3. ConnectEstablished (Poll_UpdateChannel True) silent_callbacks (TcpConnection_new dh t) = Inr d1
      \<and> poll_interest (poll_state d1) = (poll_interest t)(ch_fd (fst t dh) \<mapsto> kReadEvent)
      \<and> HandleClose (Poll_UpdateChannel True) silent_callbacks True d1 = Inr d2
      \<and> events_seen d2 = [Connection_up, Connection_down, Connection_closed]
      \<and> ConnectDestroyed (Poll_UpdateChannel True) (Poll_RemoveChannel True) silent_callbacks d2 = Inr d3
      \<and> \<not> poll_has (poll_state d3) dh \<and> poll_interest (poll_state d3) = (poll_interest t)(ch_fd (fst t dh) := None))"
  using epoll.lifecycle_ok [OF assms(1-3)] poll.lifecycle_ok [OF assms(4-6)] by meson

theorem connection_lifecycle_witness:
  "\<exists>c1 c2 c3. ConnectEstablished (Epoll_UpdateChannel True) silent_callbacks (TcpConnection_new 1 example_poll) = Inr c1
      \<and> HandleClose (Epoll_UpdateChannel True) silent_callbacks True c1 = Inr c2
      \<and> ConnectDestroyed (Epoll_UpdateChannel True) (Epoll_RemoveChannel True) silent_callbacks c2 = Inr c3"
proof -
  have "epoll_inv example_poll" "epoll_fresh example_poll 1" "ch_events (fst example_poll 1) = 0"
    by (simp_all add: example_poll_def epoll_inv_def epoll_fd_ok_def epoll_fresh_def Channel_new_def kNew_def)
  moreover have "poll_inv ((\<lambda>_. Channel_new 5), PollPoller_new)" "poll_fresh ((\<lambda>_. Channel_new 5), PollPoller_new) 1"
    "ch_events (fst ((\<lambda>_. Channel_new 5), PollPoller_new) 1) = 0"
    by (simp_all add: poll_inv_def poll_fresh_def Channel_new_def PollPoller_new_def kNew_def)
  ultimately show ?thesis using connection_lifecycle [of example_poll 1 "((\<lambda>_. Channel_new 5), PollPoller_new)" 1] by blast
qed

text \<open>
  \<open>ConnectDestroyed\<close> disables the channel only in state connected. On a connection that is shutting down and
  still watched, as \<open>~TcpServer\<close> finds it when the peer has not closed yet, it goes straight to removing the channel, and
  the assertion that no events are wanted fails in both pollers.
\<close>

theorem destroy_while_disconnecting_aborts:
  assumes "conn_state c = kDisconnecting" and "ch_events (the_channel c) \<noteq> 0"
    and "conn_state d = kDisconnecting" and "ch_events (the_channel d) \<noteq> 0"
  shows "ConnectDestroyed (Epoll_UpdateChannel True) (Epoll_RemoveChannel True) cb c = Inl Assert_failed
    \<and> ConnectDestroyed (Poll_UpdateChannel True) (Poll_RemoveChannel True) cb' d = Inl Assert_failed"
  using assms
  by (simp add: ConnectDestroyed_def on_channel_def Epoll_RemoveChannel_def Poll_RemoveChannel_def AssertInLoopThread_def the_channel_def
      IsNoneEvent_def kNoneEvent_def assertr_def Let_def)

theorem destroy_while_disconnecting_aborts_witness:
  "ConnectDestroyed (Epoll_UpdateChannel True) (Epoll_RemoveChannel True) silent_callbacks (Shutdown True (example_conn [])) = Inl Assert_failed"
proof -
  have "conn_state (Shutdown True (example_conn [])) = kDisconnecting" "ch_events (the_channel (Shutdown True (example_conn []))) = 3"
    by (simp_all add: Shutdown_def ShutdownInLoop_def SetState_def example_conn_def Let_def TcpConnection_new_def the_channel_def Channel_new_def)
  moreover have "conn_state (Shutdown True example_poll_conn) = kDisconnecting" "ch_events (the_channel (Shutdown True example_poll_conn)) = 7"
    by (simp_all add: Shutdown_def ShutdownInLoop_def SetState_def example_poll_conn_def Let_def TcpConnection_new_def the_channel_def Channel_new_def)
  ultimately show ?thesis
    using destroy_while_disconnecting_aborts [of "Shutdown True (example_conn [])" "Shutdown True example_poll_conn" silent_callbacks silent_callbacks] by simp
qed

text \<open>
  Property C31. \<open>Send(const void*, int)\<close> called outside of the loop thread queues a functor that holds only the address of the
  characters of a local string. The string is gone when the call returns, so that functor uses freed memory when the
  loop runs it, whatever the connection does in between; the overload for a \<open>Buffer\<close> captures a copy and empties the
  buffer, and its functor sends exactly those bytes.
\<close>

theorem Send_from_other_thread:
  assumes "conn_state c = kConnected" and "buffer_inv buf"
  shows "(\<exists>c'. Send_data update write False p data c = Inr c' \<and> conn_tasks c' = conn_tasks c @ [Task_send_pointer p (length data)]
      \<and> run_task update cb write (Task_send_pointer p (length data)) (c'\<lparr>conn_tasks := ts\<rparr>) = Inl Use_after_free)
    \<and> (\<exists>buf' c'. Send_buffer update write False buf c = Inr (buf', c') \<and> content buf' = [] \<and> conn_tasks c' = conn_tasks c @ [Task_send_copy (content buf)]
      \<and> run_task update cb write (Task_send_copy (content buf)) c' = SendInLoop update write (content buf) c')"
proof -
  have "\<exists>b. RetrieveAllAsString buf = Inr (content buf, b) \<and> content b = []"
    using assms(2) by (rule RetrieveAllAsString_ok)
  with assms show ?thesis by (auto simp: Send_data_def Send_string_def Send_buffer_def)
qed

theorem Send_from_other_thread_witness:
  "\<exists>c'. Send_data (Epoll_UpdateChannel True) (\<lambda>d. Inr (length d)) False 9 ''x'' (example_conn []) = Inr c'
    \<and> run_task (Epoll_UpdateChannel True) silent_callbacks (\<lambda>d. Inr (length d)) (Task_send_pointer 9 1) (c'\<lparr>conn_tasks := []\<rparr>) = Inl Use_after_free"
  using Send_from_other_thread [of "example_conn []" default_buffer "Epoll_UpdateChannel True" "\<lambda>d. Inr (length d)" 9 "''x''" silent_callbacks "[]"]
  by auto

end
