(* ===== verification/Thread_Pool.thy ===== *)
theory Thread_Pool
  imports Net_Prelude
begin

text \<open>
  \<open>base/thread_pool.h\<close>, \<open>base/thread_pool.cc\<close>, \<open>base/count_down_latch.h\<close>, \<open>base/count_down_latch.cc\<close>,
  \<open>base/thread.h\<close> and \<open>base/thread.cc\<close>: a bounded blocking queue of tasks served by worker threads, a latch,
  and the numbering and naming of threads. Each region that runs under the mutex is a function on the
  state; the program is the step relation that interleaves these regions. Threads blocked on a condition
  variable and threads that were notified but have not yet taken the mutex again are part of the state;
  a notification picks any blocked thread.
\<close>

section \<open>Threads\<close>

record thread =
  thread_started :: bool
  thread_joined :: bool
  thread_name :: string

text \<open>\<open>num_created\<close> is the counter before construction; the second result is the counter after it.\<close>

definition SetDefaultName :: "int \<Rightarrow> string \<Rightarrow> string \<times> int" where
  "SetDefaultName num_created name =
     (let num = num_created + 1 in (if name = '''' then snprintf_buf 32 (''Thread'' @ show_int num) else name, num))"

definition Thread_new :: "int \<Rightarrow> string \<Rightarrow> thread \<times> int" where
  "Thread_new num_created name =
     (let (name, num) = SetDefaultName num_created name
      in (\<lparr>thread_started = False, thread_joined = False, thread_name = name\<rparr>, num))"

definition Thread_Start :: "thread \<Rightarrow> thread" where
  "Thread_Start t = t\<lparr>thread_started := True\<rparr>"

text \<open>\<open>Join\<close> uses the \<open>std::thread\<close> that \<open>Start\<close> created.\<close>

definition Thread_Join :: "thread \<Rightarrow> thread result" where
  "Thread_Join t = (if thread_started t then Inr (t\<lparr>thread_joined := True\<rparr>) else Inl Null_pointer)"

text \<open>The destructor detaches a thread that was started and not joined: the result says whether it does.\<close>

definition Thread_destroy :: "thread \<Rightarrow> bool" where
  "Thread_destroy t \<longleftrightarrow> thread_started t \<and> \<not> thread_joined t"

text \<open>\<open>SleepUsec\<close>: the seconds and nanoseconds given to \<open>nanosleep\<close>.\<close>

definition SleepUsec :: "int \<Rightarrow> int \<times> int" where
  "SleepUsec usec = (usec sdiv 1000000, usec smod 1000000 * 1000)"

lemma SleepUsec_exact:
  assumes "SleepUsec usec = (s, ns)" and "0 \<le> usec"
  shows "s * 1000000000 + ns = usec * 1000 \<and> 0 \<le> ns \<and> ns < 1000000000"
proof -
  have "s = usec div 1000000" "ns = usec mod 1000000 * 1000"
    using assms by (auto simp: SleepUsec_def signed_divide_int_def signed_modulo_int_def sgn_if split: if_splits)
  moreover have "usec div 1000000 * 1000000 + usec mod 1000000 = usec" "0 \<le> usec mod 1000000" "usec mod 1000000 < 1000000" by simp_all
  ultimately show ?thesis by linarith
qed

section \<open>The latch\<close>

record latch =
  latch_count :: int
  latch_waiting :: nat   \<comment> \<open>threads blocked in \<open>cv_.wait\<close>\<close>
  latch_woken :: nat     \<comment> \<open>threads notified that test the condition again\<close>
  latch_passed :: nat    \<comment> \<open>threads that returned from \<open>Wait\<close>\<close>

definition CountDownLatch_new :: "int \<Rightarrow> latch" where
  "CountDownLatch_new count = \<lparr>latch_count = count, latch_waiting = 0, latch_woken = 0, latch_passed = 0\<rparr>"

text \<open>The test of the loop in \<open>Wait\<close>, made on entry and after every wake-up.\<close>

definition latch_test :: "latch \<Rightarrow> latch" where
  "latch_test l = (if latch_count l > 0 then l\<lparr>latch_waiting := Suc (latch_waiting l)\<rparr>
     else l\<lparr>latch_passed := Suc (latch_passed l)\<rparr>)"

definition CountDown :: "latch \<Rightarrow> latch" where
  "CountDown l =
     (let l = l\<lparr>latch_count := latch_count l - 1\<rparr>
      in if latch_count l = 0 then l\<lparr>latch_waiting := 0, latch_woken := latch_woken l + latch_waiting l\<rparr> else l)"

definition GetCount :: "latch \<Rightarrow> int" where
  "GetCount l = latch_count l"

inductive latch_step :: "latch \<Rightarrow> latch \<Rightarrow> bool" where
  wait_enter: "latch_step l (latch_test l)"
| count_down: "latch_step l (CountDown l)"
| woken: "latch_woken l = Suc n \<Longrightarrow> latch_step l (latch_test (l\<lparr>latch_woken := n\<rparr>))"
| spurious: "latch_waiting l = Suc n \<Longrightarrow> latch_step l (l\<lparr>latch_waiting := n, latch_woken := Suc (latch_woken l)\<rparr>)"

section \<open>The pool\<close>

record 'a pool =
  queue :: "'a list"
  max_queue_size :: nat
  running :: bool
  threads :: nat           \<comment> \<open>the size of \<open>threads_\<close>\<close>
  w_idle :: nat            \<comment> \<open>workers between two tasks, about to test \<open>running_\<close> or to enter \<open>Take\<close>\<close>
  w_waiting :: nat         \<comment> \<open>workers blocked on \<open>not_empty_\<close>\<close>
  w_woken :: nat           \<comment> \<open>workers notified that test the condition of \<open>Take\<close> again\<close>
  w_busy :: "'a list"      \<comment> \<open>the tasks being executed\<close>
  w_exited :: nat
  p_waiting :: "'a list"   \<comment> \<open>tasks of callers of \<open>RunTask\<close> blocked on \<open>not_full_\<close>\<close>
  p_woken :: "'a list"     \<comment> \<open>tasks of callers that were notified\<close>
  accepted :: "'a list"    \<comment> \<open>every task put into the queue, in order\<close>
  taken :: "'a list"       \<comment> \<open>every task a worker took, in order\<close>

definition IsFull :: "'a pool \<Rightarrow> bool" where
  "IsFull s \<longleftrightarrow> max_queue_size s > 0 \<and> length (queue s) \<ge> max_queue_size s"

definition QueueSize :: "'a pool \<Rightarrow> nat" where
  "QueueSize s = length (queue s)"

definition ThreadPool_new :: "nat \<Rightarrow> 'a pool" where
  "ThreadPool_new max_size = \<lparr>queue = [], max_queue_size = max_size, running = False, threads = 0, w_idle = 0, w_waiting = 0,
     w_woken = 0, w_busy = [], w_exited = 0, p_waiting = [], p_woken = [], accepted = [], taken = []\<rparr>"

definition ThreadPool_Start :: "nat \<Rightarrow> 'a pool \<Rightarrow> 'a pool result" where
  "ThreadPool_Start numThreads s =
     assertr (threads s = 0) (Inr (s\<lparr>running := True, threads := numThreads, w_idle := numThreads\<rparr>))"

text \<open>\<open>notify_one\<close> on \<open>not_empty_\<close>, and on \<open>not_full_\<close> for the caller at position \<open>i\<close>.\<close>

definition notify_not_empty :: "'a pool \<Rightarrow> 'a pool" where
  "notify_not_empty s = (if w_waiting s = 0 then s else s\<lparr>w_waiting := w_waiting s - 1, w_woken := Suc (w_woken s)\<rparr>)"

definition notify_not_full :: "nat \<Rightarrow> 'a pool \<Rightarrow> 'a pool" where
  "notify_not_full i s =
     (if p_waiting s = [] then s
      else (let j = i mod length (p_waiting s)
            in s\<lparr>p_waiting := take j (p_waiting s) @ drop (Suc j) (p_waiting s), p_woken := p_woken s @ [p_waiting s ! j]\<rparr>))"

text \<open>\<open>RunTask\<close> under the mutex, from the test of its loop on.\<close>

definition run_task :: "'a \<Rightarrow> 'a pool \<Rightarrow> 'a pool result" where
  "run_task task s =
     (if IsFull s \<and> running s then Inr (s\<lparr>p_waiting := p_waiting s @ [task]\<rparr>)
      else if \<not> running s then Inr s
      else assertr (\<not> IsFull s)
             (Inr (notify_not_empty (s\<lparr>queue := queue s @ [task], accepted := accepted s @ [task]\<rparr>))))"

text \<open>\<open>RunTask\<close>: with no threads the caller runs the task itself.\<close>

definition RunTask :: "'a \<Rightarrow> 'a pool \<Rightarrow> 'a pool result" where
  "RunTask task s = (if threads s = 0 then Inr (s\<lparr>taken := taken s @ [task], accepted := accepted s @ [task]\<rparr>) else run_task task s)"

text \<open>\<open>Take\<close> under the mutex, from the test of its loop on; \<open>i\<close> is the caller that \<open>not_full_.notify_one\<close> picks.\<close>

definition take_task :: "nat \<Rightarrow> 'a pool \<Rightarrow> 'a pool" where
  "take_task i s =
     (if queue s = [] \<and> running s then s\<lparr>w_waiting := Suc (w_waiting s)\<rparr>
      else if queue s = [] then s\<lparr>w_idle := Suc (w_idle s)\<rparr>
      else (let s' = s\<lparr>queue := tl (queue s), taken := taken s @ [hd (queue s)], w_busy := w_busy s @ [hd (queue s)]\<rparr>
            in if max_queue_size s > 0 then notify_not_full i s' else s'))"

definition ThreadPool_Stop :: "'a pool \<Rightarrow> 'a pool" where
  "ThreadPool_Stop s = s\<lparr>running := False, w_waiting := 0, w_woken := w_woken s + w_waiting s,
     p_waiting := [], p_woken := p_woken s @ p_waiting s\<rparr>"

definition SetMaxQueueSize :: "nat \<Rightarrow> 'a pool \<Rightarrow> 'a pool" where
  "SetMaxQueueSize max_size s = s\<lparr>max_queue_size := max_size\<rparr>"

definition ThreadPool_destroy :: "'a pool \<Rightarrow> 'a pool" where
  "ThreadPool_destroy s = (if running s then ThreadPool_Stop s else s)"

inductive pool_step :: "'a pool \<Rightarrow> 'a pool \<Rightarrow> bool" where
  submit: "run_task task s = Inr s' \<Longrightarrow> pool_step s s'"
| resubmit: "p_woken s = us @ task # vs \<Longrightarrow> run_task task (s\<lparr>p_woken := us @ vs\<rparr>) = Inr s' \<Longrightarrow> pool_step s s'"
| worker_takes: "w_idle s = Suc n \<Longrightarrow> running s \<Longrightarrow> pool_step s (take_task i (s\<lparr>w_idle := n\<rparr>))"
| worker_exits: "w_idle s = Suc n \<Longrightarrow> \<not> running s \<Longrightarrow> pool_step s (s\<lparr>w_idle := n, w_exited := Suc (w_exited s)\<rparr>)"
| worker_retests: "w_woken s = Suc n \<Longrightarrow> pool_step s (take_task i (s\<lparr>w_woken := n\<rparr>))"
| task_done: "w_busy s = us @ task # vs \<Longrightarrow> pool_step s (s\<lparr>w_busy := us @ vs, w_idle := Suc (w_idle s)\<rparr>)"
| spurious_worker: "w_waiting s = Suc n \<Longrightarrow> pool_step s (s\<lparr>w_waiting := n, w_woken := Suc (w_woken s)\<rparr>)"
| spurious_caller: "p_waiting s = us @ task # vs \<Longrightarrow> pool_step s (s\<lparr>p_waiting := us @ vs, p_woken := p_woken s @ [task]\<rparr>)"
| stop: "pool_step s (ThreadPool_Stop s)"

inductive pool_steps :: "'a pool \<Rightarrow> 'a pool \<Rightarrow> bool" where
  pool_none: "pool_steps s s"
| pool_more: "pool_steps s s' \<Longrightarrow> pool_step s' s'' \<Longrightarrow> pool_steps s s''"

section \<open>Invariants\<close>

definition latch_inv :: "latch \<Rightarrow> bool" where
  "latch_inv l \<longleftrightarrow> (latch_waiting l > 0 \<longrightarrow> latch_count l > 0)"

lemma latch_step_inv: "latch_step l l' \<Longrightarrow> latch_inv l \<Longrightarrow> latch_inv l'"
  by (induction rule: latch_step.induct) (auto simp: latch_inv_def latch_test_def CountDown_def Let_def)

text \<open>
  Tasks are taken in the order accepted; nobody waits for what is already there; no worker is lost. The
  number \<open>k\<close> counts callers that have been taken off \<open>p_woken\<close> and are about to test again.
\<close>

definition pool_inv_but :: "nat \<Rightarrow> 'a pool \<Rightarrow> bool" where
  "pool_inv_but k s \<longleftrightarrow>
     accepted s = taken s @ queue s
     \<and> (max_queue_size s > 0 \<longrightarrow> length (queue s) \<le> max_queue_size s)
     \<and> w_idle s + w_waiting s + w_woken s + length (w_busy s) + w_exited s = threads s
     \<and> (running s \<longrightarrow> w_exited s = 0)
     \<and> (\<not> running s \<longrightarrow> w_waiting s = 0 \<and> p_waiting s = [])
     \<and> (w_waiting s > 0 \<longrightarrow> length (queue s) \<le> w_idle s + w_woken s)
     \<and> (p_waiting s \<noteq> [] \<longrightarrow> max_queue_size s > 0 \<and> length (queue s) + length (p_woken s) + k \<ge> max_queue_size s)"

abbreviation pool_inv :: "'a pool \<Rightarrow> bool" where "pool_inv \<equiv> pool_inv_but 0"

lemma run_task_cases:
  assumes "run_task task s = Inr s'"
  obtains "running s" "IsFull s" "s' = s\<lparr>p_waiting := p_waiting s @ [task]\<rparr>"
  | "\<not> running s" "s' = s"
  | "running s" "\<not> IsFull s" "s' = notify_not_empty (s\<lparr>queue := queue s @ [task], accepted := accepted s @ [task]\<rparr>)"
  using assms by (auto simp: run_task_def split: if_splits)

lemma run_task_inv:
  assumes run: "run_task task s = Inr s'" and t: "threads s > 0" and inv: "pool_inv_but k s" and k: "k \<le> 1"
  shows "pool_inv s' \<and> threads s' = threads s"
  using run
proof (cases rule: run_task_cases)
  case 1
  then show ?thesis using inv by (simp add: pool_inv_but_def IsFull_def)
next
  case 2
  then show ?thesis using inv by (simp add: pool_inv_but_def)
next
  case 3
  show ?thesis
  proof (cases "w_waiting s")
    case 0
    then show ?thesis using 3 inv t k by (auto simp: pool_inv_but_def IsFull_def notify_not_empty_def)
  next
    case (Suc n)
    then show ?thesis using 3 inv t k by (auto simp: pool_inv_but_def IsFull_def notify_not_empty_def)
  qed
qed

lemma notify_not_full_lengths:
  "length (p_waiting (notify_not_full i s)) = length (p_waiting s) - 1"
  "length (p_woken (notify_not_full i s)) = (if p_waiting s = [] then length (p_woken s) else Suc (length (p_woken s)))"
  "queue (notify_not_full i s) = queue s" "taken (notify_not_full i s) = taken s" "accepted (notify_not_full i s) = accepted s"
  "w_idle (notify_not_full i s) = w_idle s" "w_waiting (notify_not_full i s) = w_waiting s" "w_woken (notify_not_full i s) = w_woken s"
  "w_busy (notify_not_full i s) = w_busy s" "w_exited (notify_not_full i s) = w_exited s" "threads (notify_not_full i s) = threads s"
  "running (notify_not_full i s) = running s" "max_queue_size (notify_not_full i s) = max_queue_size s"
proof -
  have "j + (n - Suc j) = n - 1" if "j < n" for j n :: nat using that by arith
  from this [of "i mod length (p_waiting s)" "length (p_waiting s)"]
  show "length (p_waiting (notify_not_full i s)) = length (p_waiting s) - 1"
    by (cases "p_waiting s = []") (simp_all add: notify_not_full_def Let_def min_absorb2 less_imp_le)
qed (simp_all add: notify_not_full_def Let_def)

text \<open>A worker that has just left the idle or the woken ones enters \<open>Take\<close>.\<close>

lemma take_task_inv:
  assumes "accepted s = taken s @ queue s" and "max_queue_size s > 0 \<longrightarrow> length (queue s) \<le> max_queue_size s"
    and "Suc (w_idle s + w_waiting s + w_woken s + length (w_busy s) + w_exited s) = threads s"
    and "running s \<longrightarrow> w_exited s = 0" and "\<not> running s \<longrightarrow> w_waiting s = 0 \<and> p_waiting s = []"
    and "w_waiting s > 0 \<longrightarrow> length (queue s) \<le> Suc (w_idle s + w_woken s)"
    and "p_waiting s \<noteq> [] \<longrightarrow> max_queue_size s > 0 \<and> length (queue s) + length (p_woken s) \<ge> max_queue_size s"
  shows "pool_inv (take_task i s) \<and> threads (take_task i s) = threads s"
proof (cases "queue s")
  case Nil
  then show ?thesis using assms by (auto simp: take_task_def pool_inv_but_def)
next
  case (Cons x xs)
  let ?s = "s\<lparr>queue := xs, taken := taken s @ [x], w_busy := w_busy s @ [x]\<rparr>"
  have empty: "p_waiting (notify_not_full i ?s) \<noteq> [] \<Longrightarrow> p_waiting s \<noteq> []"
    using notify_not_full_lengths(1) [of i ?s] by auto
  show ?thesis
  proof (cases "max_queue_size s > 0")
    case True
    then have "take_task i s = notify_not_full i ?s" using Cons by (simp add: take_task_def)
    moreover have "p_waiting s = [] \<Longrightarrow> p_waiting (notify_not_full i ?s) = []" using empty by blast
    ultimately show ?thesis using assms Cons empty by (auto simp: pool_inv_but_def notify_not_full_lengths)
  next
    case False
    then have "take_task i s = ?s" using Cons by (simp add: take_task_def)
    then show ?thesis using assms Cons False by (auto simp: pool_inv_but_def)
  qed
qed

lemma pool_step_inv: "pool_step s s' \<Longrightarrow> threads s > 0 \<Longrightarrow> pool_inv s \<Longrightarrow> pool_inv s' \<and> threads s' = threads s"
proof (induction rule: pool_step.induct)
  case (submit task s s')
  then show ?case by (auto dest: run_task_inv)
next
  case (resubmit s us task vs s')
  then have "pool_inv_but 1 (s\<lparr>p_woken := us @ vs\<rparr>)" by (simp add: pool_inv_but_def)
  with resubmit show ?case using run_task_inv [of task "s\<lparr>p_woken := us @ vs\<rparr>" s' 1] by simp
next
  case (worker_takes s n i)
  let ?s = "s\<lparr>w_idle := n\<rparr>"
  have "pool_inv (take_task i ?s) \<and> threads (take_task i ?s) = threads ?s"
    by (rule take_task_inv) (use worker_takes in \<open>auto simp: pool_inv_but_def\<close>)
  then show ?case by simp
next
  case (worker_retests s n i)
  let ?s = "s\<lparr>w_woken := n\<rparr>"
  have "pool_inv (take_task i ?s) \<and> threads (take_task i ?s) = threads ?s"
    by (rule take_task_inv) (use worker_retests in \<open>auto simp: pool_inv_but_def\<close>)
  then show ?case by simp
qed (auto simp: pool_inv_but_def ThreadPool_Stop_def)

lemma pool_steps_inv: "pool_steps s s' \<Longrightarrow> threads s > 0 \<Longrightarrow> pool_inv s \<Longrightarrow> pool_inv s' \<and> threads s' = threads s"
proof (induction rule: pool_steps.induct)
  case (pool_more s s' s'')
  then show ?case using pool_step_inv [of s' s''] by simp
qed simp

lemma pool_steps_max: "pool_steps s s' \<Longrightarrow> max_queue_size s' = max_queue_size s"
proof (induction rule: pool_steps.induct)
  case (pool_more s s' s'')
  from pool_more.hyps(2) have "max_queue_size s'' = max_queue_size s'"
    by (cases rule: pool_step.cases)
      (auto elim!: run_task_cases simp: take_task_def notify_not_full_lengths notify_not_empty_def ThreadPool_Stop_def Let_def)
  with pool_more show ?case by simp
qed simp

lemma pool_inv_started:
  assumes "ThreadPool_Start n (ThreadPool_new m) = Inr s"
  shows "pool_inv s \<and> threads s = n \<and> max_queue_size s = m"
  using assms by (auto simp: ThreadPool_Start_def ThreadPool_new_def pool_inv_but_def)

section \<open>Properties\<close>

text \<open>
  Property C8. In every interleaving of callers, workers, spurious wake-ups and \<open>Stop\<close>, the tasks are taken by the workers
  in the order in which they were accepted, none twice, and the queue never exceeds its bound; the assertion in
  \<open>RunTask\<close> never fails.
\<close>

theorem pool_fifo_bounded:
  assumes "ThreadPool_Start n (ThreadPool_new m) = Inr s0" and "n > 0" and "pool_steps s0 s"
  shows "accepted s = taken s @ queue s \<and> (m > 0 \<longrightarrow> QueueSize s \<le> m) \<and> (\<exists>s'. RunTask task s = Inr s')"
proof -
  have "pool_inv s" using pool_inv_started [OF assms(1)] pool_steps_inv [OF assms(3)] assms(2) by auto
  moreover have "max_queue_size s = m" using pool_steps_max [OF assms(3)] pool_inv_started [OF assms(1)] by simp
  ultimately show ?thesis by (auto simp: pool_inv_but_def QueueSize_def RunTask_def run_task_def)
qed

text \<open>
  Property C30. Nobody sleeps in vain, in any interleaving of callers, workers, spurious wake-ups and \<open>Stop\<close>. A worker is blocked in \<open>Take\<close>
  only while every queued task has an awake worker of its own: there are at least as many workers notified or about to enter
  \<open>Take\<close> as tasks, each of which takes the task at the front as its next step. A caller of \<open>RunTask\<close> is blocked only while the queue
  and the callers already notified fill the bound. While the pool runs and has a task, some worker is not blocked. Once \<open>Stop\<close> has been
  called no worker and no caller is blocked, so that every thread can be joined.
\<close>

theorem pool_no_lost_wakeup:
  assumes "ThreadPool_Start n (ThreadPool_new m) = Inr s0" and "n > 0" and "pool_steps s0 s"
  shows "(w_waiting s > 0 \<longrightarrow> QueueSize s \<le> w_idle s + w_woken s)
    \<and> (running s \<and> queue s \<noteq> [] \<longrightarrow> w_idle s + w_woken s + length (w_busy s) > 0)
    \<and> (\<forall>i t ts. running s \<and> queue s = t # ts \<longrightarrow> taken (take_task i s) = taken s @ [t] \<and> queue (take_task i s) = ts)
    \<and> (p_waiting s \<noteq> [] \<longrightarrow> QueueSize s + length (p_woken s) \<ge> m)
    \<and> (\<not> running s \<longrightarrow> w_waiting s = 0 \<and> p_waiting s = [])"
proof -
  have inv: "pool_inv s" "threads s = n"
    using pool_inv_started [OF assms(1)] pool_steps_inv [OF assms(3)] assms(2) by auto
  have "w_idle s + w_woken s + length (w_busy s) > 0" if "running s" "queue s \<noteq> []"
  proof (cases "w_waiting s > 0")
    case True
    moreover have "0 < length (queue s)" using that(2) by simp
    ultimately show ?thesis using inv(1) unfolding pool_inv_but_def by linarith
  next
    case False
    then have "w_idle s + w_woken s + length (w_busy s) = n" using inv that(1) by (simp add: pool_inv_but_def)
    then show ?thesis using assms(2) by simp
  qed
  moreover have "max_queue_size s = m" using pool_steps_max [OF assms(3)] pool_inv_started [OF assms(1)] by simp
  ultimately show ?thesis
    using inv(1) by (auto simp: pool_inv_but_def QueueSize_def take_task_def notify_not_full_lengths Let_def)
qed

text \<open>A pool of one thread and bound one: the first task is queued, the second caller blocks.\<close>

definition example_pool :: "nat pool" where
  "example_pool = (ThreadPool_new 1)\<lparr>running := True, threads := 1, w_idle := 1\<rparr>"

lemma example_pool_steps:
  "ThreadPool_Start 1 (ThreadPool_new 1) = Inr example_pool"
  "pool_steps example_pool (example_pool\<lparr>queue := [5], accepted := [5], p_waiting := [6]\<rparr>)"
proof -
  have "pool_step example_pool (example_pool\<lparr>queue := [5], accepted := [5]\<rparr>)"
    by (rule submit [of 5]) (simp add: example_pool_def ThreadPool_new_def run_task_def IsFull_def notify_not_empty_def)
  moreover have "pool_step (example_pool\<lparr>queue := [5], accepted := [5]\<rparr>) (example_pool\<lparr>queue := [5], accepted := [5], p_waiting := [6]\<rparr>)"
    by (rule submit [of 6]) (simp add: example_pool_def ThreadPool_new_def run_task_def IsFull_def notify_not_empty_def)
  ultimately show "pool_steps example_pool (example_pool\<lparr>queue := [5], accepted := [5], p_waiting := [6]\<rparr>)"
    by (rule pool_more [OF pool_more [OF pool_none]])
qed (simp add: example_pool_def ThreadPool_Start_def ThreadPool_new_def)

theorem pool_no_lost_wakeup_witness:
  "pool_steps example_pool (example_pool\<lparr>queue := [5], accepted := [5], p_waiting := [6]\<rparr>)
    \<and> QueueSize (example_pool\<lparr>queue := [5], accepted := [5], p_waiting := [6]\<rparr>) \<ge> 1"
  using pool_no_lost_wakeup [OF example_pool_steps(1) _ example_pool_steps(2)] example_pool_steps(2) by (simp add: example_pool_def ThreadPool_new_def)

theorem pool_fifo_bounded_witness:
  "\<exists>s'. RunTask 8 (example_pool\<lparr>queue := [5], accepted := [5], p_waiting := [6]\<rparr>) = Inr s'"
  using pool_fifo_bounded [OF example_pool_steps(1) _ example_pool_steps(2), of 8] by simp

text \<open>
  The latch: in every interleaving of waiting, counting down and spurious wake-ups, no thread stays blocked
  once the count is no longer positive, and a thread passes \<open>Wait\<close> only then.
\<close>

theorem latch_releases:
  assumes "latch_step\<^sup>*\<^sup>* (CountDownLatch_new n) l"
  shows "(latch_count l \<le> 0 \<longrightarrow> latch_waiting l = 0) \<and> (latch_passed (latch_test l) > latch_passed l \<longleftrightarrow> GetCount l \<le> 0)"
proof -
  have "latch_inv l" using assms by (induction rule: rtranclp_induct)
      (auto simp: latch_inv_def CountDownLatch_new_def dest: latch_step_inv [unfolded latch_inv_def])
  then show ?thesis by (auto simp: latch_inv_def latch_test_def GetCount_def)
qed

theorem latch_releases_witness:
  "latch_step\<^sup>*\<^sup>* (CountDownLatch_new 1) (CountDown (latch_test (CountDownLatch_new 1)))
    \<and> latch_waiting (CountDown (latch_test (CountDownLatch_new 1))) = 0"
proof -
  have steps: "latch_step\<^sup>*\<^sup>* (CountDownLatch_new 1) (CountDown (latch_test (CountDownLatch_new 1)))"
    using wait_enter [of "CountDownLatch_new 1"] count_down [of "latch_test (CountDownLatch_new 1)"]
    by (meson converse_rtranclp_into_rtranclp r_into_rtranclp)
  moreover have "latch_count (CountDown (latch_test (CountDownLatch_new 1))) \<le> 0"
    by (simp add: CountDown_def latch_test_def CountDownLatch_new_def)
  ultimately show ?thesis using latch_releases [OF steps] by blast
qed

end
