(* ===== verification/Event_Loop_Threads.thy ===== *)
theory Event_Loop_Threads
  imports Event_Loop Thread_Pool
begin

text \<open>
  \<open>net/event_loop_thread.cc\<close> and \<open>net/event_loop_thread_pool.cc\<close>: a thread that runs an event loop, with the
  hand-over of the loop's address from the new thread to the one that started it, and the pool that deals
  out its loops in turn. Loops are addresses.
\<close>

section \<open>EventLoopThread\<close>

text \<open>
  Where the new thread is in \<open>ThreadFunc\<close>, and where the starting thread is in \<open>StartLoop\<close>. The loop is an
  automatic variable of \<open>ThreadFunc\<close>, so its address is that of a live object only until \<open>Finished\<close>.
\<close>

datatype func_pc = Not_started | Constructing | Calling_back | Publishing | Looping | Clearing | Finished

datatype start_pc = Starting | Testing | Blocked | Returned ptr

record loop_thread =
  elt_loop :: "ptr option"   \<comment> \<open>the member \<open>loop_\<close>\<close>
  elt_exiting :: bool
  func_at :: func_pc
  start_at :: start_pc
  callback_runs :: nat

definition EventLoopThread_new :: loop_thread where
  "EventLoopThread_new = \<lparr>elt_loop = None, elt_exiting = False, func_at = Not_started, start_at = Starting, callback_runs = 0\<rparr>"

text \<open>\<open>cond_.notify_one()\<close> releases the one thread that can wait.\<close>

definition publish :: "ptr \<Rightarrow> loop_thread \<Rightarrow> loop_thread" where
  "publish loop t = t\<lparr>elt_loop := Some loop, start_at := (if start_at t = Blocked then Testing else start_at t)\<rparr>"

definition start_test :: "loop_thread \<Rightarrow> loop_thread" where
  "start_test t = t\<lparr>start_at := (case elt_loop t of None \<Rightarrow> Blocked | Some l \<Rightarrow> Returned l)\<rparr>"

text \<open>\<open>loop\<close> is the address of the automatic variable, \<open>has_cb\<close> says whether an initialisation callback was given.\<close>

inductive elt_step :: "ptr \<Rightarrow> bool \<Rightarrow> loop_thread \<Rightarrow> loop_thread \<Rightarrow> bool" for loop :: ptr and has_cb :: bool where
  start_thread: "start_at t = Starting \<Longrightarrow> func_at t = Not_started \<Longrightarrow>
    elt_step loop has_cb t (t\<lparr>start_at := Testing, func_at := Constructing\<rparr>)"
| test_loop: "start_at t = Testing \<Longrightarrow> elt_step loop has_cb t (start_test t)"
| spurious_start: "start_at t = Blocked \<Longrightarrow> elt_step loop has_cb t (t\<lparr>start_at := Testing\<rparr>)"
| construct: "func_at t = Constructing \<Longrightarrow> elt_step loop has_cb t (t\<lparr>func_at := Calling_back\<rparr>)"
| call_back: "func_at t = Calling_back \<Longrightarrow>
    elt_step loop has_cb t (t\<lparr>func_at := Publishing, callback_runs := (if has_cb then Suc (callback_runs t) else callback_runs t)\<rparr>)"
| publish_loop: "func_at t = Publishing \<Longrightarrow> elt_step loop has_cb t ((publish loop t)\<lparr>func_at := Looping\<rparr>)"
| loop_ends: "func_at t = Looping \<Longrightarrow> elt_step loop has_cb t (t\<lparr>func_at := Clearing\<rparr>)"
| clear_loop: "func_at t = Clearing \<Longrightarrow> elt_step loop has_cb t (t\<lparr>elt_loop := None, func_at := Finished\<rparr>)"

text \<open>\<open>~EventLoopThread\<close>: the loop is told to quit (from this, another thread), then joined.\<close>

definition EventLoopThread_destroy :: "'f event_loop \<Rightarrow> loop_thread \<Rightarrow> 'f event_loop \<times> loop_thread" where
  "EventLoopThread_destroy l t =
     (let t = t\<lparr>elt_exiting := True\<rparr> in if elt_loop t \<noteq> None then (Quit False l, t) else (l, t))"

section \<open>EventLoopThreadPool\<close>

record loop_pool =
  base_loop :: ptr
  pool_name :: string
  pool_started :: bool
  num_threads :: int
  pool_next :: nat
  pool_threads :: "string list"   \<comment> \<open>the names given to the threads\<close>
  loops :: "ptr list"

definition EventLoopThreadPool_new :: "ptr \<Rightarrow> string \<Rightarrow> loop_pool" where
  "EventLoopThreadPool_new baseLoop nameArg = \<lparr>base_loop = baseLoop, pool_name = nameArg, pool_started = False,
     num_threads = 0, pool_next = 0, pool_threads = [], loops = []\<rparr>"

definition SetThreadNum :: "int \<Rightarrow> loop_pool \<Rightarrow> loop_pool" where
  "SetThreadNum n p = p\<lparr>num_threads := n\<rparr>"

definition thread_name_buf :: "string \<Rightarrow> nat \<Rightarrow> string" where
  "thread_name_buf name i = snprintf_buf (length name + 32) (name @ show_nat i)"

text \<open>\<open>start_loop i\<close> is the loop that \<open>StartLoop\<close> of the \<open>i\<close>-th thread returns; the second result says whether the
  callback runs on the base loop.\<close>

definition LoopPool_Start :: "(nat \<Rightarrow> ptr) \<Rightarrow> bool \<Rightarrow> loop_pool \<Rightarrow> loop_pool \<times> bool" where
  "LoopPool_Start start_loop has_cb p =
     (let n = nat (num_threads p)
      in (p\<lparr>pool_started := True, pool_threads := pool_threads p @ map (thread_name_buf (pool_name p)) [0..<n],
            loops := loops p @ map start_loop [0..<n]\<rparr>,
          num_threads p = 0 \<and> has_cb))"

definition GetNextLoop :: "loop_pool \<Rightarrow> (ptr \<times> loop_pool) result" where
  "GetNextLoop p =
     (if loops p = [] then Inr (base_loop p, p)
      else if pool_next p < length (loops p)
      then (let loop = loops p ! pool_next p; next' = Suc (pool_next p)
            in Inr (loop, p\<lparr>pool_next := (if next' \<ge> length (loops p) then 0 else next')\<rparr>))
      else Inl Out_of_bounds)"

definition GetAllLoops :: "loop_pool \<Rightarrow> ptr list" where
  "GetAllLoops p = (if loops p = [] then [base_loop p] else loops p)"

fun next_loops :: "nat \<Rightarrow> loop_pool \<Rightarrow> (ptr list \<times> loop_pool) result" where
  "next_loops 0 p = Inr ([], p)"
| "next_loops (Suc k) p = bindr (GetNextLoop p) (\<lambda>(l, p). bindr (next_loops k p) (\<lambda>(ls, p). Inr (l # ls, p)))"

section \<open>Lemmas\<close>

definition elt_inv :: "ptr \<Rightarrow> bool \<Rightarrow> loop_thread \<Rightarrow> bool" where
  "elt_inv loop has_cb t \<longleftrightarrow>
     elt_loop t = (if func_at t \<in> {Looping, Clearing} then Some loop else None)
     \<and> (func_at t \<in> {Publishing, Looping, Clearing, Finished} \<longrightarrow> callback_runs t = (if has_cb then 1 else 0))
     \<and> (func_at t \<in> {Not_started, Constructing, Calling_back} \<longrightarrow> callback_runs t = 0)
     \<and> (\<forall>l. start_at t = Returned l \<longrightarrow> l = loop \<and> func_at t \<in> {Looping, Clearing, Finished})
     \<and> (start_at t = Blocked \<longrightarrow> func_at t \<in> {Constructing, Calling_back, Publishing, Finished})
     \<and> (start_at t = Starting \<longleftrightarrow> func_at t = Not_started)"

lemma elt_step_inv: "elt_step loop has_cb t t' \<Longrightarrow> elt_inv loop has_cb t \<Longrightarrow> elt_inv loop has_cb t'"
proof (induction rule: elt_step.induct)
  case (test_loop t)
  then show ?case by (cases "func_at t") (simp_all add: elt_inv_def start_test_def)
next
  case (publish_loop t)
  then show ?case by (cases "start_at t") (simp_all add: elt_inv_def publish_def)
qed (simp_all add: elt_inv_def)

lemma GetNextLoop_ok:
  assumes "pool_next p < length (loops p)"
  shows "GetNextLoop p = Inr (loops p ! pool_next p, p\<lparr>pool_next := Suc (pool_next p) mod length (loops p)\<rparr>)"
  using assms by (auto simp: GetNextLoop_def Let_def mod_Suc)

lemma next_loops_round_robin:
  assumes "pool_next p < length (loops p)"
  shows "next_loops k p = Inr (map (\<lambda>i. loops p ! ((pool_next p + i) mod length (loops p))) [0..<k],
    p\<lparr>pool_next := (pool_next p + k) mod length (loops p)\<rparr>)"
  using assms
proof (induction k arbitrary: p)
  case (Suc k)
  let ?n = "length (loops p)" and ?p = "p\<lparr>pool_next := Suc (pool_next p) mod length (loops p)\<rparr>"
  have "next_loops k ?p = Inr (map (\<lambda>i. loops ?p ! ((pool_next ?p + i) mod length (loops ?p))) [0..<k],
      ?p\<lparr>pool_next := (pool_next ?p + k) mod length (loops ?p)\<rparr>)"
    using Suc.prems by (intro Suc.IH) (auto intro!: mod_less_divisor)
  moreover have "(Suc (pool_next p) mod ?n + i) mod ?n = (pool_next p + Suc i) mod ?n" for i by (simp add: mod_simps)
  moreover have "[0..<Suc k] = 0 # map Suc [0..<k]" by (simp add: upt_conv_Cons map_Suc_upt del: upt_Suc)
  ultimately show ?case using Suc.prems by (simp add: GetNextLoop_ok o_def del: upt_Suc)
qed simp

section \<open>Properties\<close>

text \<open>
  After \<open>Start\<close> with a positive number of threads, successive calls of \<open>GetNextLoop\<close> return the pool's loops in
  turn, starting with the first and never reading outside the vector: call \<open>k\<close> gets loop \<open>k mod n\<close>, so every \<open>n\<close> calls
  in a row use every loop once. With no threads every call returns the base loop.
\<close>

theorem GetNextLoop_round_robin:
  assumes "0 \<le> n" and "fst (LoopPool_Start start_loop has_cb (SetThreadNum n (EventLoopThreadPool_new base name))) = p"
  shows "\<exists>p'. next_loops k p = Inr (map (\<lambda>i. GetAllLoops p ! (i mod length (GetAllLoops p))) [0..<k], p')
    \<and> length (GetAllLoops p) = nat (max 1 n) \<and> (n > 0 \<longrightarrow> GetAllLoops p = map start_loop [0..<nat n])"
proof (cases "n = 0")
  case True
  then have p: "loops p = []" "base_loop p = base" using assms(2)
    by (auto simp: LoopPool_Start_def SetThreadNum_def EventLoopThreadPool_new_def Let_def)
  then have "next_loops k p = Inr (replicate k base, p)"
    by (induction k) (simp_all add: GetNextLoop_def)
  with p True show ?thesis by (simp add: GetAllLoops_def map_replicate_const)
next
  case False
  with assms have p: "loops p = map start_loop [0..<nat n]" "pool_next p = 0"
    by (auto simp: LoopPool_Start_def SetThreadNum_def EventLoopThreadPool_new_def Let_def)
  moreover from p False assms(1) have "pool_next p < length (loops p)" by simp
  ultimately show ?thesis using next_loops_round_robin [of p k] False assms(1) by (simp add: GetAllLoops_def)
qed

theorem GetNextLoop_round_robin_witness:
  "\<exists>p'. next_loops 5 (fst (LoopPool_Start (\<lambda>i. 100 + i) True (SetThreadNum 3 (EventLoopThreadPool_new 7 ''io''))))
    = Inr ([100, 101, 102, 100, 101], p')"
  using GetNextLoop_round_robin [OF _ refl, of 3 5 "\<lambda>i. 100 + i" True 7 "''io''"]
  by (simp add: upt_rec GetAllLoops_def LoopPool_Start_def SetThreadNum_def EventLoopThreadPool_new_def Let_def)

text \<open>
  The hand-over of the loop: when \<open>StartLoop\<close> returns, it returns the address of the loop constructed in the new
  thread, after the initialisation callback has run (once, if one was given); while it is blocked, the loop has not
  been published yet, unless the new thread's loop has already ended, in which case it stays blocked.
\<close>

theorem StartLoop_hands_over:
  assumes "(elt_step loop has_cb)\<^sup>*\<^sup>* EventLoopThread_new t"
  shows "(start_at t = Returned l \<longrightarrow> l = loop \<and> callback_runs t = (if has_cb then 1 else 0))
    \<and> (start_at t = Blocked \<longrightarrow> elt_loop t = None \<and> func_at t \<in> {Constructing, Calling_back, Publishing, Finished})"
proof -
  have "elt_inv loop has_cb t" using assms
  proof (induction rule: rtranclp_induct)
    case base
    show ?case by (simp add: elt_inv_def EventLoopThread_new_def)
  next
    case (step y z)
    show ?case by (rule elt_step_inv [OF step.hyps(2) step.IH])
  qed
  then show ?thesis by (cases "func_at t") (simp_all add: elt_inv_def)
qed

lemma example_hand_over:
  "(elt_step 9 True)\<^sup>*\<^sup>* EventLoopThread_new
     \<lparr>elt_loop = Some 9, elt_exiting = False, func_at = Looping, start_at = Returned 9, callback_runs = 1\<rparr>"
proof -
  let ?s = "\<lambda>l f p n. \<lparr>elt_loop = l, elt_exiting = False, func_at = f, start_at = p, callback_runs = n\<rparr>"
  have a: "elt_step 9 True EventLoopThread_new (?s None Constructing Testing 0)"
    using start_thread [of EventLoopThread_new 9 True] by (simp add: EventLoopThread_new_def)
  have b: "elt_step 9 True (?s None Constructing Testing 0) (?s None Calling_back Testing 0)"
    using construct [of "?s None Constructing Testing 0" 9 True] by simp
  have c: "elt_step 9 True (?s None Calling_back Testing 0) (?s None Publishing Testing 1)"
    using call_back [of "?s None Calling_back Testing 0" 9 True] by simp
  have d: "elt_step 9 True (?s None Publishing Testing 1) (?s (Some 9) Looping Testing 1)"
    using publish_loop [of "?s None Publishing Testing 1" 9 True] by (simp add: publish_def)
  have e: "elt_step 9 True (?s (Some 9) Looping Testing 1) (?s (Some 9) Looping (Returned 9) 1)"
    using test_loop [of "?s (Some 9) Looping Testing 1" 9 True] by (simp add: start_test_def)
  note more = rtranclp.rtrancl_into_rtrancl [where r = "elt_step 9 True"]
  show ?thesis
    by (rule more [OF more [OF more [OF more [OF more [OF rtranclp.rtrancl_refl a] b] c] d] e])
qed

theorem StartLoop_hands_over_witness:
  "\<exists>t. (elt_step 9 True)\<^sup>*\<^sup>* EventLoopThread_new t \<and> start_at t = Returned 9 \<and> callback_runs t = 1"
  using StartLoop_hands_over [OF example_hand_over, of 9] example_hand_over by fastforce

end
