(* ===== verification/Tcp_Server.thy ===== *)
theory Tcp_Server
  imports Tcp_Connection Event_Loop_Threads Endian
begin

text \<open>
  \<open>net/inet_address.cc\<close>, \<open>net/socket.cc\<close>, \<open>net/acceptor.cc\<close> and \<open>tcp_connection/tcp_server.cc\<close>: addresses, the
  listening socket, and the server that accepts connections, names and registers them, deals them out to
  the loops of its pool and takes them off again. The kernel's answers (\<open>bind\<close>, \<open>listen\<close>, \<open>accept4\<close>) are
  arguments. What the server asks the connections' loops to do is the list of functors it posts to them.
\<close>

section \<open>InetAddress\<close>

record sockaddr_in =
  sin_family :: nat
  sin_port :: "16 word"    \<comment> \<open>in network byte order\<close>
  s_addr :: "32 word"      \<comment> \<open>in network byte order\<close>

definition AF_INET :: nat where "AF_INET = 2"
definition INADDR_ANY :: "32 word" where "INADDR_ANY = 0"

definition InetAddress :: "16 word \<Rightarrow> string \<Rightarrow> sockaddr_in" where
  "InetAddress port ip = \<lparr>sin_family = AF_INET, sin_port = HostToNetwork16 port, s_addr = HostToNetwork32 INADDR_ANY\<rparr>"

text \<open>\<open>inet_ntop\<close> prints the four bytes in memory order.\<close>

definition inet_ntop :: "32 word \<Rightarrow> string" where
  "inet_ntop a = concat (map (\<lambda>(i, b). (if i = 0 then '''' else ''.'') @ show_nat (of_char b)) (enumerate 0 (le_bytes 4 (unat a))))"

definition ToIp :: "sockaddr_in \<Rightarrow> string" where
  "ToIp addr = inet_ntop (s_addr addr)"

definition ToPort :: "sockaddr_in \<Rightarrow> 16 word" where
  "ToPort addr = NetworkToHost16 (sin_port addr)"

definition ToIpPort :: "sockaddr_in \<Rightarrow> string" where
  "ToIpPort addr = inet_ntop (s_addr addr) @ '':'' @ show_nat (unat (NetworkToHost16 (sin_port addr)))"

section \<open>Socket and Acceptor\<close>

record sock =
  sockfd :: int
  opt_reuse_addr :: bool
  opt_reuse_port :: bool
  opt_keep_alive :: bool
  opt_no_delay :: bool
  bound_to :: "sockaddr_in option"
  is_listening :: bool

definition Socket_new :: "int \<Rightarrow> sock" where
  "Socket_new fd = \<lparr>sockfd = fd, opt_reuse_addr = False, opt_reuse_port = False, opt_keep_alive = False, opt_no_delay = False,
     bound_to = None, is_listening = False\<rparr>"

definition BindAddress :: "int \<Rightarrow> sockaddr_in \<Rightarrow> sock \<Rightarrow> sock result" where
  "BindAddress bind_result addr s = (if bind_result \<noteq> 0 then Inl Fatal else Inr (s\<lparr>bound_to := Some addr\<rparr>))"

definition Socket_Listen :: "int \<Rightarrow> sock \<Rightarrow> sock result" where
  "Socket_Listen listen_result s = (if listen_result \<noteq> 0 then Inl Fatal else Inr (s\<lparr>is_listening := True\<rparr>))"

definition SetReuseAddr :: "bool \<Rightarrow> sock \<Rightarrow> sock" where "SetReuseAddr on s = s\<lparr>opt_reuse_addr := on\<rparr>"
definition SetReusePort :: "bool \<Rightarrow> sock \<Rightarrow> sock" where "SetReusePort on s = s\<lparr>opt_reuse_port := on\<rparr>"
definition SetKeepAlive :: "bool \<Rightarrow> sock \<Rightarrow> sock" where "SetKeepAlive on s = s\<lparr>opt_keep_alive := on\<rparr>"
definition SetTcpNoDelay :: "bool \<Rightarrow> sock \<Rightarrow> sock" where "SetTcpNoDelay on s = s\<lparr>opt_no_delay := on\<rparr>"

text \<open>\<open>accept4\<close> answers with an error number or a descriptor and the peer's address.\<close>

definition Accept :: "int + int \<times> sockaddr_in \<Rightarrow> sockaddr_in \<Rightarrow> int \<times> sockaddr_in" where
  "Accept accept4 peeraddr = (case accept4 of Inl _ \<Rightarrow> (-1, peeraddr) | Inr (connfd, addr) \<Rightarrow> (connfd, addr))"

record acceptor =
  accept_socket :: sock
  accept_channel :: ptr
  listenning :: bool
  has_new_connection_callback :: bool

definition Acceptor_new :: "int \<Rightarrow> int \<Rightarrow> ptr \<Rightarrow> sockaddr_in \<Rightarrow> bool \<Rightarrow> acceptor result" where
  "Acceptor_new socket_result bind_result ch ListenAddr reuseport =
     (if socket_result < 0 then Inl Fatal
      else bindr (BindAddress bind_result ListenAddr (SetReusePort True (SetReuseAddr reuseport (Socket_new socket_result)))) (\<lambda>s.
           Inr \<lparr>accept_socket = s, accept_channel = ch, listenning = False, has_new_connection_callback = False\<rparr>))"

definition Acceptor_Listen :: "'p poll_op \<Rightarrow> int \<Rightarrow> acceptor \<times> store \<times> 'p \<Rightarrow> (acceptor \<times> store \<times> 'p) result" where
  "Acceptor_Listen update listen_result = (\<lambda>(a, ps).
     bindr (Socket_Listen listen_result (accept_socket a)) (\<lambda>s.
     bindr (EnableReading update (accept_channel a) ps) (\<lambda>ps. Inr (a\<lparr>accept_socket := s, listenning := True\<rparr>, ps))))"

definition Acceptor_destroy :: "'p poll_op \<Rightarrow> 'p poll_op \<Rightarrow> acceptor \<times> store \<times> 'p \<Rightarrow> (store \<times> 'p) result" where
  "Acceptor_destroy update remove = (\<lambda>(a, ps). bindr (DisableAll update (accept_channel a) ps) (remove (accept_channel a)))"

datatype accept_effect = New_connection int sockaddr_in | Close_fd int | Accept_error

definition Acceptor_HandleRead :: "int + int \<times> sockaddr_in \<Rightarrow> acceptor \<Rightarrow> accept_effect" where
  "Acceptor_HandleRead accept4 a =
     (let (connfd, peer_addr) = Accept accept4 (InetAddress 0 ''127.0.0.1'')
      in if connfd \<ge> 0 then if has_new_connection_callback a then New_connection connfd peer_addr else Close_fd connfd
         else Accept_error)"

section \<open>TcpServer\<close>

datatype server_option = kNoReusePort | kReusePort

datatype server_task = Run_established ptr | Run_destroyed ptr

record server_conn =
  sc_name :: string
  sc_loop :: ptr
  sc_fd :: int
  sc_peer :: sockaddr_in

record tcp_server =
  srv_loop :: ptr
  ip_port :: string
  srv_name :: string
  thread_pool :: loop_pool
  srv_acceptor :: acceptor
  started_count :: int
  next_conn_id :: int
  connections :: "string \<rightharpoonup> ptr"
  objects :: "ptr \<rightharpoonup> server_conn"       \<comment> \<open>the \<open>TcpConnection\<close> objects made so far\<close>
  posted :: "(ptr \<times> server_task) list"   \<comment> \<open>functors given to the loops, in order\<close>

definition TcpServer_new :: "int \<Rightarrow> int \<Rightarrow> ptr option \<Rightarrow> ptr \<Rightarrow> sockaddr_in \<Rightarrow> string \<Rightarrow> server_option \<Rightarrow> tcp_server result" where
  "TcpServer_new socket_result bind_result loop ch listenAddr nameArg option =
     (case loop of
        None \<Rightarrow> Inl Fatal
      | Some l \<Rightarrow>
          bindr (Acceptor_new socket_result bind_result ch listenAddr (option = kReusePort)) (\<lambda>a.
            Inr \<lparr>srv_loop = l, ip_port = ToIpPort listenAddr, srv_name = nameArg, thread_pool = EventLoopThreadPool_new l nameArg,
                 srv_acceptor = a\<lparr>has_new_connection_callback := True\<rparr>, started_count = 0, next_conn_id = 1,
                 connections = Map.empty, objects = Map.empty, posted = []\<rparr>))"

definition TcpServer_SetThreadNum :: "int \<Rightarrow> tcp_server \<Rightarrow> tcp_server" where
  "TcpServer_SetThreadNum n s = s\<lparr>thread_pool := SetThreadNum n (thread_pool s)\<rparr>"

text \<open>\<open>Start\<close>: the second result says whether \<open>Acceptor::Listen\<close> is run in the main loop.\<close>

definition TcpServer_Start :: "(nat \<Rightarrow> ptr) \<Rightarrow> bool \<Rightarrow> tcp_server \<Rightarrow> tcp_server \<times> bool" where
  "TcpServer_Start start_loop has_cb s =
     (if started_count s = 0
      then (s\<lparr>started_count := 1, thread_pool := fst (LoopPool_Start start_loop has_cb (thread_pool s))\<rparr>, True)
      else (s\<lparr>started_count := started_count s + 1\<rparr>, False))"

definition conn_name :: "tcp_server \<Rightarrow> string" where
  "conn_name s = srv_name s @ snprintf_buf 64 (''-'' @ ip_port s @ ''#'' @ show_int (next_conn_id s))"

text \<open>The object of the \<open>k\<close>-th connection has address \<open>k\<close>; a functor for a loop is posted to it.\<close>

definition NewConnection :: "int \<Rightarrow> sockaddr_in \<Rightarrow> tcp_server \<Rightarrow> tcp_server result" where
  "NewConnection fd peer_addr s =
     bindr (GetNextLoop (thread_pool s)) (\<lambda>(io_loop, pool).
       let name = conn_name s; c = nat (next_conn_id s)
       in Inr (s\<lparr>thread_pool := pool, next_conn_id := next_conn_id s + 1, connections := (connections s)(name \<mapsto> c),
                 objects := (objects s)(c \<mapsto> \<lparr>sc_name = name, sc_loop = io_loop, sc_fd = fd, sc_peer = peer_addr\<rparr>),
                 posted := posted s @ [(io_loop, Run_established c)]\<rparr>))"

definition RemoveConnectionInLoop :: "ptr \<Rightarrow> tcp_server \<Rightarrow> tcp_server result" where
  "RemoveConnectionInLoop c s =
     (case objects s c of
        None \<Rightarrow> Inl Use_after_free
      | Some conn \<Rightarrow> Inr (s\<lparr>connections := (connections s)(sc_name conn := None), posted := posted s @ [(sc_loop conn, Run_destroyed c)]\<rparr>))"

text \<open>\<open>~TcpServer\<close> destroys the registered connections, in the order the map is traversed.\<close>

definition TcpServer_destroy :: "((string \<rightharpoonup> ptr) \<Rightarrow> ptr list) \<Rightarrow> tcp_server \<Rightarrow> tcp_server" where
  "TcpServer_destroy enum s =
     fold (\<lambda>c s. case objects s c of None \<Rightarrow> s | Some conn \<Rightarrow> s\<lparr>posted := posted s @ [(sc_loop conn, Run_destroyed c)]\<rparr>) (enum (connections s)) s"

text \<open>Runs of the server: connections accepted, connections reported closed.\<close>

datatype server_op = is_accept: Srv_accept int sockaddr_in | Srv_closed ptr

fun server_step :: "tcp_server \<Rightarrow> server_op \<Rightarrow> tcp_server result" where
  "server_step s (Srv_accept fd addr) = NewConnection fd addr s"
| "server_step s (Srv_closed c) = RemoveConnectionInLoop c s"

section \<open>Lemmas\<close>

definition id_name :: "tcp_server \<Rightarrow> int \<Rightarrow> string" where
  "id_name s i = srv_name s @ ''-'' @ ip_port s @ ''#'' @ show_int i"

lemma show_int_inj: "show_int i = show_int j \<Longrightarrow> i = j"
  by (metis read_int_show_int)

lemma length_show_int: "0 \<le> i \<Longrightarrow> i < 2 ^ 31 \<Longrightarrow> length (show_int i) \<le> 10"
  using length_show_nat [of "nat i" 10] by (auto simp: show_int_def nat_less_iff)

lemma conn_name_id:
  assumes "length (ip_port s) \<le> 21" and "0 \<le> next_conn_id s" and "next_conn_id s < 2 ^ 31"
  shows "conn_name s = id_name s (next_conn_id s)"
  using assms length_show_int [of "next_conn_id s"] by (simp add: conn_name_def id_name_def snprintf_buf_def)

text \<open>
  The registry: connection \<open>c\<close> is registered under its own name unless it was reported closed; it was
  posted once for establishment, and once for destruction per report, always to its own loop.
\<close>

definition accepts :: "server_op list \<Rightarrow> nat" where
  "accepts ops = length (filter is_accept ops)"

definition posted_ok :: "tcp_server \<Rightarrow> ptr \<times> server_task \<Rightarrow> bool" where
  "posted_ok s = (\<lambda>(l, t). \<exists>conn. objects s (case t of Run_established c \<Rightarrow> c | Run_destroyed c \<Rightarrow> c) = Some conn \<and> sc_loop conn = l)"

definition server_inv :: "tcp_server \<Rightarrow> server_op list \<Rightarrow> bool" where
  "server_inv s ops \<longleftrightarrow>
     next_conn_id s = int (accepts ops) + 1 \<and> dom (objects s) = {1..accepts ops}
     \<and> (\<forall>c conn. objects s c = Some conn \<longrightarrow> sc_name conn = id_name s (int c))
     \<and> (\<forall>c. Srv_closed c \<in> set ops \<longrightarrow> c \<in> {1..accepts ops})
     \<and> (\<forall>name c. connections s name = Some c \<longleftrightarrow> c \<in> {1..accepts ops} \<and> name = id_name s (int c) \<and> Srv_closed c \<notin> set ops)
     \<and> (\<forall>p\<in>set (posted s). posted_ok s p)
     \<and> (\<forall>c. count_list (map snd (posted s)) (Run_established c) = (if c \<in> {1..accepts ops} then 1 else 0))
     \<and> (\<forall>c. count_list (map snd (posted s)) (Run_destroyed c) = count_list ops (Srv_closed c))
     \<and> (loops (thread_pool s) \<noteq> [] \<longrightarrow> pool_next (thread_pool s) < length (loops (thread_pool s)))"

lemma server_invD:
  assumes "server_inv s ops"
  shows "next_conn_id s = int (accepts ops) + 1" "dom (objects s) = {1..accepts ops}"
    "\<And>c conn. objects s c = Some conn \<Longrightarrow> sc_name conn = id_name s (int c)"
    "\<And>c. Srv_closed c \<in> set ops \<Longrightarrow> c \<in> {1..accepts ops}"
    "\<And>name c. connections s name = Some c \<longleftrightarrow> c \<in> {1..accepts ops} \<and> name = id_name s (int c) \<and> Srv_closed c \<notin> set ops"
    "\<And>p. p \<in> set (posted s) \<Longrightarrow> posted_ok s p"
    "\<And>c. count_list (map snd (posted s)) (Run_established c) = (if c \<in> {1..accepts ops} then 1 else 0)"
    "\<And>c. count_list (map snd (posted s)) (Run_destroyed c) = count_list ops (Srv_closed c)"
    "loops (thread_pool s) \<noteq> [] \<Longrightarrow> pool_next (thread_pool s) < length (loops (thread_pool s))"
  using assms unfolding server_inv_def by (blast+)

lemma id_name_inj: "id_name s i = id_name s j \<longleftrightarrow> i = j"
  using show_int_inj by (auto simp: id_name_def)

lemma accepts_simps: "accepts [] = 0" "accepts (ops @ [Srv_accept fd addr]) = Suc (accepts ops)" "accepts (ops @ [Srv_closed c]) = accepts ops"
  by (simp_all add: accepts_def)

lemma NewConnection_inv:
  assumes inv: "server_inv s ops" and len: "length (ip_port s) \<le> 21" and few: "accepts ops < 2 ^ 31 - 1"
  shows "\<exists>s'. NewConnection fd addr s = Inr s' \<and> server_inv s' (ops @ [Srv_accept fd addr])
    \<and> srv_name s' = srv_name s \<and> ip_port s' = ip_port s \<and> connections s (conn_name s) = None"
proof -
  note D = server_invD [OF inv]
  let ?n = "accepts ops" and ?p = "thread_pool s"
  obtain l p where lp: "GetNextLoop ?p = Inr (l, p)" "loops p = loops ?p" "loops p \<noteq> [] \<Longrightarrow> pool_next p < length (loops p)"
    using D(9) by (cases "loops ?p = []") (auto simp: GetNextLoop_def Let_def)
  have name: "conn_name s = id_name s (int (Suc ?n))"
    using conn_name_id [OF len] D(1) few by (simp add: add.commute)
  define conn where "conn = \<lparr>sc_name = conn_name s, sc_loop = l, sc_fd = fd, sc_peer = addr\<rparr>"
  define s' where "s' = s\<lparr>thread_pool := p, next_conn_id := next_conn_id s + 1, connections := (connections s)(conn_name s \<mapsto> Suc ?n),
    objects := (objects s)(Suc ?n \<mapsto> conn), posted := posted s @ [(l, Run_established (Suc ?n))]\<rparr>"
  have run: "NewConnection fd addr s = Inr s'"
    using D(1) by (simp add: NewConnection_def lp(1) s'_def conn_def Let_def nat_add_distrib)
  have ids: "id_name s' = id_name s" by (simp add: id_name_def s'_def fun_eq_iff)
  have new: "Suc ?n \<notin> dom (objects s)" using D(2) by simp
  have unreg: "connections s (conn_name s) = None"
  proof (rule ccontr)
    assume "connections s (conn_name s) \<noteq> None"
    then obtain c where "connections s (conn_name s) = Some c" by blast
    then show False using D(5) [of "conn_name s" c] by (auto simp: name id_name_inj)
  qed
  have closed: "Srv_closed (Suc ?n) \<notin> set ops" using D(4) [of "Suc ?n"] by auto
  have keep: "posted_ok s' q" if "posted_ok s q" for q
    using that new by (auto simp: posted_ok_def s'_def split: prod.splits server_task.splits if_splits)
  have "server_inv s' (ops @ [Srv_accept fd addr])"
    unfolding server_inv_def accepts_simps ids
  proof (intro conjI allI impI ballI)
    show "next_conn_id s' = int (Suc ?n) + 1" using D(1) by (simp add: s'_def)
    show "dom (objects s') = {1..Suc ?n}" using D(2) by (auto simp: s'_def atLeastAtMostSuc_conv)
    show "sc_name cn = id_name s (int c)" if "objects s' c = Some cn" for c cn
      using that D(3) [of c cn] by (auto simp: s'_def conn_def name split: if_splits)
    show "c \<in> {1..Suc ?n}" if "Srv_closed c \<in> set (ops @ [Srv_accept fd addr])" for c using D(4) [of c] that by simp
    show "connections s' nm = Some c \<longleftrightarrow> c \<in> {1..Suc ?n} \<and> nm = id_name s (int c) \<and> Srv_closed c \<notin> set (ops @ [Srv_accept fd addr])" for nm c
    proof (cases "nm = conn_name s")
      case True
      then have "connections s' nm = Some c \<longleftrightarrow> c = Suc ?n" by (auto simp: s'_def)
      moreover have "nm = id_name s (int c) \<longleftrightarrow> c = Suc ?n" using True by (auto simp: name id_name_inj)
      ultimately show ?thesis using closed by auto
    next
      case False
      then have "connections s' nm = connections s nm" by (simp add: s'_def)
      moreover have "c \<noteq> Suc ?n" if "nm = id_name s (int c)" using False that by (auto simp: name)
      ultimately show ?thesis using D(5) [of nm c] by (auto simp: atLeastAtMostSuc_conv)
    qed
    show "posted_ok s' q" if "q \<in> set (posted s')" for q
    proof (cases "q \<in> set (posted s)")
      case True
      then show ?thesis using keep D(6) by blast
    next
      case False
      then have "q = (l, Run_established (Suc ?n))" using that by (simp add: s'_def)
      then show ?thesis by (simp add: posted_ok_def s'_def conn_def)
    qed
    show "count_list (map snd (posted s')) (Run_established c) = (if c \<in> {1..Suc ?n} then 1 else 0)" for c
      using D(7) [of c] by (auto simp: s'_def)
    show "count_list (map snd (posted s')) (Run_destroyed c) = count_list (ops @ [Srv_accept fd addr]) (Srv_closed c)" for c
      using D(8) [of c] by (simp add: s'_def)
    show "pool_next (thread_pool s') < length (loops (thread_pool s'))" if "loops (thread_pool s') \<noteq> []" using lp that by (simp add: s'_def)
  qed
  with run unreg show ?thesis by (auto simp: s'_def)
qed

lemma RemoveConnection_inv:
  assumes inv: "server_inv s ops" and c: "c \<in> {1..accepts ops}"
  shows "\<exists>s'. RemoveConnectionInLoop c s = Inr s' \<and> server_inv s' (ops @ [Srv_closed c])
    \<and> srv_name s' = srv_name s \<and> ip_port s' = ip_port s"
proof -
  note D = server_invD [OF inv]
  from c D(2) obtain conn where conn: "objects s c = Some conn" by blast
  define s' where "s' = s\<lparr>connections := (connections s)(sc_name conn := None), posted := posted s @ [(sc_loop conn, Run_destroyed c)]\<rparr>"
  have run: "RemoveConnectionInLoop c s = Inr s'" by (simp add: RemoveConnectionInLoop_def conn s'_def)
  have ids: "id_name s' = id_name s" by (simp add: id_name_def s'_def fun_eq_iff)
  have keep: "posted_ok s' = posted_ok s" by (simp add: posted_ok_def s'_def fun_eq_iff)
  have "server_inv s' (ops @ [Srv_closed c])"
    unfolding server_inv_def accepts_simps ids keep
  proof (intro conjI allI impI ballI)
    show "connections s' nm = Some d \<longleftrightarrow> d \<in> {1..accepts ops} \<and> nm = id_name s (int d) \<and> Srv_closed d \<notin> set (ops @ [Srv_closed c])" for nm d
      using D(5) [of nm d] D(3) [OF conn] by (auto simp: s'_def id_name_inj)
    show "posted_ok s q" if "q \<in> set (posted s')" for q
    proof (cases "q \<in> set (posted s)")
      case True
      then show ?thesis using D(6) by blast
    next
      case False
      then have "q = (sc_loop conn, Run_destroyed c)" using that by (simp add: s'_def)
      then show ?thesis by (simp add: posted_ok_def conn)
    qed
    show "count_list (map snd (posted s')) (Run_established d) = (if d \<in> {1..accepts ops} then 1 else 0)" for d
      using D(7) [of d] by (simp add: s'_def)
    show "count_list (map snd (posted s')) (Run_destroyed d) = count_list (ops @ [Srv_closed c]) (Srv_closed d)" for d
      using D(8) [of d] by (simp add: s'_def)
    show "d \<in> {1..accepts ops}" if "Srv_closed d \<in> set (ops @ [Srv_closed c])" for d using that D(4) [of d] c by auto
  qed (use D in \<open>simp_all add: s'_def\<close>)
  with run show ?thesis by (auto simp: s'_def)
qed

fun valid_ops :: "nat \<Rightarrow> server_op list \<Rightarrow> bool" where
  "valid_ops n [] = True"
| "valid_ops n (Srv_accept fd addr # ops) = valid_ops (Suc n) ops"
| "valid_ops n (Srv_closed c # ops) = (1 \<le> c \<and> c \<le> n \<and> valid_ops n ops)"

lemma accepts_Cons: "accepts (x # ops) = (if is_accept x then Suc (accepts ops) else accepts ops)"
  by (simp add: accepts_def)

lemma accepts_append: "accepts (xs @ ys) = accepts xs + accepts ys"
  by (simp add: accepts_def)

lemma zero_octets: "le_bytes 4 0 = replicate 4 (char_of (0 :: nat))" "HostToNetwork32 0 = 0"
proof -
  have "le_bytes n 0 = replicate n (char_of (0 :: nat))" for n by (induction n) simp_all
  then show le: "le_bytes 4 0 = replicate 4 (char_of (0 :: nat))" .
  have "le_value (replicate n (char_of (0 :: nat))) = 0" for n by (induction n) simp_all
  then show "HostToNetwork32 0 = 0" by (simp add: HostToNetwork32_def byte_swap_def le)
qed

lemma inet_ntop_any: "inet_ntop 0 = ''0.0.0.0''"
proof -
  have "char_of (48 :: nat) = CHR ''0''" by code_simp
  then have "show_nat 0 = ''0''" by (simp add: show_nat_less_10 digit_char_def)
  moreover have "le_bytes 4 0 = [char_of (0 :: nat), char_of (0 :: nat), char_of (0 :: nat), char_of (0 :: nat)]"
    using zero_octets(1) by (simp only: numeral_eq_Suc pred_numeral_simps replicate.simps BitM.simps)
  ultimately show ?thesis by (simp add: inet_ntop_def)
qed

lemma InetAddress_text:
  "inet_ntop (s_addr (InetAddress port ip)) = ''0.0.0.0''" "ToPort (InetAddress port ip) = port"
  by (simp_all add: InetAddress_def ToPort_def INADDR_ANY_def zero_octets inet_ntop_any)

lemma length_ip_port: "length (ToIpPort (InetAddress port ip)) \<le> 21"
proof -
  have "unat port < 2 ^ 16" using unsigned_less [of port] by simp
  then have "length (show_nat (unat port)) \<le> 5" by (intro length_show_nat) auto
  then show ?thesis using InetAddress_text by (simp add: ToIpPort_def ToPort_def)
qed

lemma server_inv_start:
  assumes "TcpServer_new sres bres loop ch (InetAddress port ip) name option = Inr s0"
    and "fst (TcpServer_Start start_loop has_cb (TcpServer_SetThreadNum n s0)) = s"
  shows "server_inv s []" "length (ip_port s) \<le> 21"
proof -
  from assms(1) obtain l a where "s0 = \<lparr>srv_loop = l, ip_port = ToIpPort (InetAddress port ip), srv_name = name, thread_pool = EventLoopThreadPool_new l name,
      srv_acceptor = a\<lparr>has_new_connection_callback := True\<rparr>, started_count = 0, next_conn_id = 1,
      connections = Map.empty, objects = Map.empty, posted = []\<rparr>"
    by (auto simp: TcpServer_new_def split: option.splits)
  then show "server_inv s []" "length (ip_port s) \<le> 21"
    using assms(2) length_ip_port
    by (auto simp: TcpServer_Start_def TcpServer_SetThreadNum_def server_inv_def accepts_def LoopPool_Start_def SetThreadNum_def
        EventLoopThreadPool_new_def Let_def)
qed

text \<open>Whatever the option says, the listening socket gets \<open>SO_REUSEPORT\<close>, and \<open>SO_REUSEADDR\<close> follows the option.\<close>

lemma reuse_options:
  assumes "TcpServer_new sres bres loop ch addr name option = Inr s"
  shows "opt_reuse_port (accept_socket (srv_acceptor s)) \<and> opt_reuse_addr (accept_socket (srv_acceptor s)) = (option = kReusePort)"
  using assms
  by (auto simp: TcpServer_new_def Acceptor_new_def BindAddress_def SetReusePort_def SetReuseAddr_def Socket_new_def split: option.splits if_splits)

lemma server_run_inv:
  assumes "server_inv s past" and "length (ip_port s) \<le> 21" and "accepts past + accepts ops < 2 ^ 31" and "valid_ops (accepts past) ops"
  shows "\<exists>s'. foldr_result server_step s ops = Inr s' \<and> server_inv s' (past @ ops) \<and> id_name s' = id_name s"
  using assms
proof (induction ops arbitrary: s past)
  case (Cons x ops)
  have "\<exists>s1. server_step s x = Inr s1 \<and> server_inv s1 (past @ [x]) \<and> srv_name s1 = srv_name s \<and> ip_port s1 = ip_port s"
    using NewConnection_inv [OF Cons.prems(1,2)] RemoveConnection_inv [OF Cons.prems(1)] Cons.prems(3,4)
    by (cases x) (fastforce simp: accepts_Cons)+
  then obtain s1 where s1: "server_step s x = Inr s1" "server_inv s1 (past @ [x])" "srv_name s1 = srv_name s" "ip_port s1 = ip_port s"
    by blast
  have "\<exists>s'. foldr_result server_step s1 ops = Inr s' \<and> server_inv s' ((past @ [x]) @ ops) \<and> id_name s' = id_name s1"
    by (rule Cons.IH) (use s1 Cons.prems in \<open>cases x; simp add: accepts_append accepts_Cons accepts_simps\<close>)+
  with s1 show ?case by (auto simp: id_name_def fun_eq_iff)
qed simp

section \<open>Properties\<close>

text \<open>
  Property C5. The server's registry. Take any sequence of fewer than \<open>2 ^ 31\<close> accepted connections and reports that one
  of them has closed. The server never fails; a connection is registered, under a name of its own, from its acceptance
  until it is reported closed, so that no entry ever replaces another; and its loop is given exactly one functor to
  establish it and one to destroy it per report, all of them to the loop it was assigned to.
\<close>

theorem server_registry:
  assumes new: "TcpServer_new sres bres loop ch (InetAddress port ip) name option = Inr s0"
    and start: "fst (TcpServer_Start start_loop has_cb (TcpServer_SetThreadNum n s0)) = s"
    and few: "accepts ops < 2 ^ 31" and valid: "valid_ops 0 ops"
  shows "\<exists>s'. foldr_result server_step s ops = Inr s'
    \<and> (\<forall>nm c. connections s' nm = Some c \<longleftrightarrow> c \<in> {1..accepts ops} \<and> nm = id_name s (int c) \<and> Srv_closed c \<notin> set ops)
    \<and> (\<forall>c. count_list (map snd (posted s')) (Run_established c) = (if c \<in> {1..accepts ops} then 1 else 0)
         \<and> count_list (map snd (posted s')) (Run_destroyed c) = count_list ops (Srv_closed c))
    \<and> (\<forall>l c. (l, Run_established c) \<in> set (posted s') \<or> (l, Run_destroyed c) \<in> set (posted s') \<longrightarrow>
         (\<exists>conn. objects s' c = Some conn \<and> sc_loop conn = l))"
proof -
  from server_run_inv [OF server_inv_start [OF new start], of ops] few valid obtain s' where
    s': "foldr_result server_step s ops = Inr s'" "server_inv s' ops" "id_name s' = id_name s" by (auto simp: accepts_simps)
  note D = server_invD [OF s'(2)]
  have "\<exists>conn. objects s' c = Some conn \<and> sc_loop conn = l" if "(l, Run_established c) \<in> set (posted s') \<or> (l, Run_destroyed c) \<in> set (posted s')" for l c
    using that D(6) by (fastforce simp: posted_ok_def)
  with s'(1,3) D(5,7,8) show ?thesis by auto
qed

theorem server_registry_witness:
  "\<exists>s0 s'. TcpServer_new 3 0 (Some 1) 7 (InetAddress 80 '''') ''srv'' kNoReusePort = Inr s0
    \<and> foldr_result server_step (fst (TcpServer_Start (\<lambda>i. 10 + i) False (TcpServer_SetThreadNum 2 s0)))
        [Srv_accept 8 (InetAddress 99 ''''), Srv_accept 9 (InetAddress 98 ''''), Srv_closed 1] = Inr s'
    \<and> (\<forall>nm. connections s' nm \<noteq> Some 1) \<and> count_list (map snd (posted s')) (Run_established 2) = 1"
proof -
  let ?ops = "[Srv_accept 8 (InetAddress 99 ''''), Srv_accept 9 (InetAddress 98 ''''), Srv_closed 1]"
  obtain s0 where s0: "TcpServer_new 3 0 (Some 1) 7 (InetAddress 80 '''') ''srv'' kNoReusePort = Inr s0"
    by (simp add: TcpServer_new_def Acceptor_new_def BindAddress_def)
  have ops: "accepts ?ops < 2 ^ 31" "valid_ops 0 ?ops" "accepts ?ops = 2" by (simp_all add: accepts_def)
  from server_registry [OF s0 refl ops(1,2), of "\<lambda>i. 10 + i" False 2] s0 show ?thesis
    unfolding ops(3) by fastforce
qed

text \<open>
  The constructor of \<open>InetAddress\<close> keeps the port through the conversion to network byte order and ignores its
  second argument: whatever address is asked for, the result is the wildcard \<open>0.0.0.0\<close>.
\<close>

theorem InetAddress_keeps_port_only:
  "ToPort (InetAddress port ip) = port \<and> ToIp (InetAddress port ip) = ''0.0.0.0''
    \<and> ToIpPort (InetAddress port ip) = ''0.0.0.0:'' @ show_nat (unat port)"
  using InetAddress_text [of port ip] by (simp add: ToIp_def ToIpPort_def ToPort_def)

end
