(* ===== verification/Short_Url.thy ===== *)
theory Short_Url
  imports Http_Server Tcp_Server
begin

text \<open>
  \<open>http/http_server.{h,cc}\<close>, the object around the handlers of \<open>Http_Server\<close>, and \<open>examples/shorturl/shorturl.cc\<close>, an HTTP service on top of it. The handlers
  run when the connections of its \<open>TcpServer\<close> receive data; \<open>OnConnection\<close> only logs. A \<open>std::map\<close> is the list of its
  entries in the order of the keys.
\<close>

section \<open>HttpServer\<close>

record http_server =
  hs_server :: tcp_server
  hs_http_callback :: "http_request \<Rightarrow> http_response \<Rightarrow> http_response"

definition HttpServer_new :: "int \<Rightarrow> int \<Rightarrow> ptr option \<Rightarrow> ptr \<Rightarrow> sockaddr_in \<Rightarrow> string \<Rightarrow> server_option \<Rightarrow> http_server result" where
  "HttpServer_new socket_result bind_result loop ch listenAddr name option =
     bindr (TcpServer_new socket_result bind_result loop ch listenAddr name option) (\<lambda>s.
       Inr \<lparr>hs_server = TcpServer_SetThreadNum 4 s, hs_http_callback = DefaultHttpCallback\<rparr>)"

definition HttpServer_GetLoop :: "http_server \<Rightarrow> ptr" where
  "HttpServer_GetLoop s = srv_loop (hs_server s)"

definition SetHttpCallback :: "(http_request \<Rightarrow> http_response \<Rightarrow> http_response) \<Rightarrow> http_server \<Rightarrow> http_server" where
  "SetHttpCallback cb s = s\<lparr>hs_http_callback := cb\<rparr>"

text \<open>\<open>Start\<close>: no callback for the initialisation of threads is set; the second result says whether the acceptor starts to listen.\<close>

definition HttpServer_Start :: "(nat \<Rightarrow> ptr) \<Rightarrow> http_server \<Rightarrow> http_server \<times> bool" where
  "HttpServer_Start start_loop s = (let (srv, listen) = TcpServer_Start start_loop False (hs_server s) in (s\<lparr>hs_server := srv\<rparr>, listen))"

section \<open>The short url service\<close>

definition index_page :: "(string \<times> string) list \<Rightarrow> string \<Rightarrow> string" where
  "index_page redirections now =
     ''<html><head><title>My tiny short url service</title></head><body><h1>Known redirections</h1>''
     @ concat (map (\<lambda>i. ''<ul>'' @ fst i @ '' =&gt; '' @ snd i @ ''</ul>'') redirections) @ ''Now is '' @ now @ ''</body></html>''"

definition favicon :: string where
  "favicon = map char_of [
    137, 80, 78, 71, 13, 10, 26, 10, 0, 0, 0, 13, 73, 72, 68, 82, 0, 0, 0, 16,
    0, 0, 0, 16, 8, 6, 0, 0, 0, 31, 243, 255, 97, 0, 0, 0, 25, 116, 69, 88,
    116, 83, 111, 102, 116, 119, 97, 114, 101, 0, 65, 100, 111, 98, 101, 32, 73, 109, 97, 103,
    101, 82, 101, 97, 100, 121, 113, 201, 101, 60, 0, 0, 1, 205, 73, 68, 65, 84, 120, 218,
    148, 147, 57, 72, 3, 65, 20, 134, 255, 93, 98, 167, 4, 82, 196, 109, 34, 30, 160, 70,
    36, 8, 22, 22, 118, 10, 54, 186, 74, 154, 128, 8, 65, 180, 113, 133, 88, 137, 71, 176,
    73, 169, 81, 36, 205, 166, 8, 164, 72, 99, 145, 66, 11, 175, 86, 193, 70, 180, 21, 207,
    34, 88, 152, 11, 84, 72, 138, 100, 147, 141, 251, 70, 103, 201, 26, 20, 125, 240, 102, 118,
    102, 223, 124, 239, 231, 103, 70, 168, 213, 106, 72, 36, 18, 42, 0, 5, 191, 71, 212, 239,
    247, 47, 54, 236, 18, 32, 30, 143, 215, 170, 213, 234, 175, 73, 53, 70, 170, 84, 95, 159,
    34, 65, 42, 149, 10, 131, 229, 114, 57, 100, 179, 89, 150, 153, 76, 6, 233, 116, 154, 37,
    133, 44, 203, 84, 167, 196, 98, 49, 181, 94, 0, 3, 104, 154, 198, 22, 130, 32, 88, 82,
    20, 69, 54, 83, 148, 203, 101, 120, 189, 94, 170, 85, 84, 35, 76, 192, 224, 226, 193, 143,
    0, 158, 188, 9, 65, 124, 62, 31, 131, 68, 34, 17, 213, 84, 64, 63, 56, 128, 119, 229,
    51, 7, 184, 92, 46, 72, 146, 4, 135, 195, 129, 64, 32, 64, 103, 152, 233, 54, 26, 166,
    103, 21, 4, 227, 215, 200, 189, 21, 225, 105, 183, 67, 171, 234, 120, 47, 106, 88, 146, 187,
    24, 32, 159, 207, 51, 195, 184, 233, 78, 167, 211, 108, 74, 0, 105, 54, 124, 142, 225, 254,
    86, 132, 231, 60, 159, 114, 43, 58, 66, 123, 55, 102, 119, 174, 142, 14, 243, 189, 82, 169,
    100, 2, 66, 175, 133, 50, 102, 70, 186, 12, 217, 159, 29, 154, 108, 34, 230, 199, 58, 44,
    128, 239, 193, 21, 144, 7, 147, 162, 40, 160, 83, 106, 177, 184, 223, 41, 53, 67, 14, 63,
    88, 252, 152, 218, 121, 106, 80, 64, 0, 135, 174, 27, 23, 66, 180, 58, 63, 190, 121, 199,
    10, 38, 182, 238, 217, 154, 96, 20, 147, 219, 143, 13, 10, 46, 233, 35, 149, 41, 88, 0,
    39, 235, 110, 86, 112, 188, 214, 203, 214, 71, 171, 61, 108, 125, 184, 210, 221, 160, 96, 131,
    186, 239, 95, 164, 234, 204, 2, 78, 174, 94, 112, 26, 236, 179, 64, 57, 172, 254, 242, 145,
    137, 103, 145, 133, 33, 168, 135, 183, 88, 126, 126, 133, 187, 205, 78, 78, 98, 116, 64, 250,
    147, 137, 236, 30, 236, 134, 2, 72, 38, 147, 208, 117, 29, 127, 9, 50, 149, 191, 31, 219,
    215, 99, 138, 26, 247, 92, 193, 255, 34, 74, 195, 135, 0, 3, 0, 75, 187, 248, 214, 42,
    118, 152, 73, 0, 0, 0, 0, 73, 69, 78, 68, 174, 66, 96, 130 :: nat]"

text \<open>\<open>now\<close> is the formatted current time.\<close>

definition onRequest :: "(string \<times> string) list \<Rightarrow> string \<Rightarrow> http_request \<Rightarrow> http_response \<Rightarrow> http_response" where
  "onRequest redirections now req resp =
     (case map_of redirections (req_path req) of
        Some url \<Rightarrow> HttpResponse_AddHeader ''Location'' url (SetStatusMessage ''Moved Permanently'' (SetStatusCode k301MovedPermanently resp))
      | None \<Rightarrow>
          if req_path req = ''/''
          then SetBody (index_page redirections now) (SetContentType ''text/html'' (SetStatusMessage ''OK'' (SetStatusCode k200Ok resp)))
          else if req_path req = ''/favicon.ico''
          then SetBody favicon (SetContentType ''image/png'' (SetStatusMessage ''OK'' (SetStatusCode k200Ok resp)))
          else SetCloseConnection True (SetStatusMessage ''Not Found'' (SetStatusCode k404NotFound resp)))"

text \<open>\<open>main\<close>: one server per thread on the loops of a pool, all on port 8000. \<open>sock\<close> and \<open>bind\<close> are the kernel's answers for the
  \<open>i\<close>-th server.\<close>

definition main_redirections :: "(string \<times> string) list" where
  "main_redirections = [(''/1'', ''http://chenshuo.com''), (''/2'', ''http://blog.csdn.net/Solstice'')]"

fun make_servers :: "(nat \<Rightarrow> int) \<Rightarrow> (nat \<Rightarrow> int) \<Rightarrow> (nat \<Rightarrow> ptr) \<Rightarrow> (http_request \<Rightarrow> http_response \<Rightarrow> http_response) \<Rightarrow> nat \<Rightarrow> nat \<Rightarrow> loop_pool
    \<Rightarrow> (http_server list \<times> loop_pool) result" where
  "make_servers sock bind ch cb i 0 pool = Inr ([], pool)"
| "make_servers sock bind ch cb i (Suc n) pool =
     bindr (GetNextLoop pool) (\<lambda>(loop, pool).
     bindr (HttpServer_new (sock i) (bind i) (Some loop) (ch i) (InetAddress 8000 ''127.0.0.1'') ''shorturl'' kReusePort) (\<lambda>s.
     bindr (make_servers sock bind ch cb (Suc i) n pool) (\<lambda>(ss, pool). Inr (SetHttpCallback cb s # ss, pool))))"

definition shorturl_main :: "(nat \<Rightarrow> int) \<Rightarrow> (nat \<Rightarrow> int) \<Rightarrow> (nat \<Rightarrow> ptr) \<Rightarrow> (nat \<Rightarrow> ptr) \<Rightarrow> string \<Rightarrow> ptr \<Rightarrow> int \<Rightarrow> (http_server list \<times> loop_pool) result" where
  "shorturl_main sock bind ch start_loop now loop numThreads =
     (let pool = EventLoopThreadPool_new loop ''shorturl'';
          pool = (if numThreads > 1 then SetThreadNum numThreads pool else pool);
          n = (if numThreads > 1 then numThreads else 1)
      in make_servers sock bind ch (onRequest main_redirections now) 0 (nat n) (fst (LoopPool_Start start_loop False pool)))"

section \<open>Lemmas\<close>

text \<open>The bytes the service answers to a request for a path.\<close>

definition shorturl_text :: "(string \<times> string) list \<Rightarrow> string \<Rightarrow> string \<Rightarrow> string" where
  "shorturl_text redirections now path =
     (let head = (\<lambda>status header. ''HTTP/1.1 '' @ status @ kCRLF @ ''Connection: close'' @ kCRLF @ header @ kCRLF)
      in case map_of redirections path of
           Some url \<Rightarrow> head ''301 Moved Permanently'' (''Location: '' @ url @ kCRLF)
         | None \<Rightarrow>
             if path = ''/'' then head ''200 OK'' (''Content-Type: text/html'' @ kCRLF) @ index_page redirections now
             else if path = ''/favicon.ico'' then head ''200 OK'' (''Content-Type: image/png'' @ kCRLF) @ favicon
             else head ''404 Not Found'' [])"

lemma length_favicon: "length favicon = 555"
  by (simp add: favicon_def)

lemma enumerates_one: "enumerates enum [k \<mapsto> v] \<Longrightarrow> enum [k \<mapsto> v] = [(k, v)]"
proof -
  assume e: "enumerates enum [k \<mapsto> v]"
  let ?l = "enum [k \<mapsto> v]"
  have m: "map_of ?l = [k \<mapsto> v]" and d: "distinct (map fst ?l)" using e by (simp_all add: enumerates_def)
  have "set (map fst ?l) = {k}" using arg_cong [OF m, of dom] by (simp add: dom_map_of_conv_image_fst)
  then have "length ?l = 1" using distinct_card [OF d] by simp
  then obtain x where l: "?l = [x]" by (cases ?l) auto
  then have "map_of [x] k = Some v" using fun_cong [OF m, of k] by simp
  then show ?thesis using l by (cases x) (auto split: if_splits)
qed

lemma enumerates_none: "enumerates enum Map.empty \<Longrightarrow> enum Map.empty = []"
  by (simp add: enumerates_def)

lemma url_in_page: "map_of redirections path = Some url \<Longrightarrow> length url \<le> length (index_page redirections now)"
proof -
  assume "map_of redirections path = Some url"
  then have "(path, url) \<in> set redirections" by (rule map_of_SomeD)
  then obtain xs ys where "redirections = xs @ (path, url) # ys" by (meson split_list)
  then show ?thesis by (simp add: index_page_def)
qed

lemmas response_defs = HttpResponse_AddHeader_def SetStatusMessage_def SetStatusCode_def SetContentType_def SetBody_def SetCloseConnection_def HttpResponse_new_def

lemma show_status: "show_int 200 = ''200''" "show_int 301 = ''301''" "show_int 404 = ''404''"
  by (simp_all add: show_int_def show_nat.simps digit_char_literals)

text \<open>The traversal of the header maps of these responses.\<close>

definition traverses :: "((string \<rightharpoonup> string) \<Rightarrow> (string \<times> string) list) \<Rightarrow> bool" where
  "traverses enum \<longleftrightarrow> enumerates enum Map.empty \<and> (\<forall>v. enumerates enum [''Location'' \<mapsto> v] \<and> enumerates enum [''Content-Type'' \<mapsto> v])"

lemma onRequest_text:
  assumes "traverses enum" and "response = onRequest redirections now req (HttpResponse_new True)"
  shows "response_text (enum (resp_headers response)) response = shorturl_text redirections now (req_path req)" "resp_close_connection response"
    "length (resp_body response) \<le> 555 + length (index_page redirections now)"
proof -
  have e: "enum Map.empty = []" "enum [''Location'' \<mapsto> v] = [(''Location'', v)]" "enum [''Content-Type'' \<mapsto> v] = [(''Content-Type'', v)]" for v
    using assms(1) enumerates_one enumerates_none by (simp_all add: traverses_def)
  show "response_text (enum (resp_headers response)) response = shorturl_text redirections now (req_path req)"
    unfolding assms(2)
    by (cases "map_of redirections (req_path req)")
      (simp_all add: onRequest_def response_defs response_text_def status_line_def connection_lines_def shorturl_text_def e show_status)
  show "resp_close_connection response" "length (resp_body response) \<le> 555 + length (index_page redirections now)"
    unfolding assms(2) by (cases "map_of redirections (req_path req)"; simp add: onRequest_def response_defs length_favicon)+
qed

lemma shorturl_text_bound: "length (shorturl_text redirections now path) \<le> 1000 + length (index_page redirections now)"
  using url_in_page [of redirections path _ now] by (cases "map_of redirections path") (simp_all add: shorturl_text_def length_favicon)

lemma make_servers_ok:
  assumes "\<And>i. 0 \<le> sock i \<and> bind i = 0" and "next_loops n pool = Inr (ls, pool')"
  shows "\<exists>ss. make_servers sock bind ch cb k n pool = Inr (ss, pool') \<and> map HttpServer_GetLoop ss = ls \<and> list_all (\<lambda>s. hs_http_callback s = cb) ss"
  using assms(2)
proof (induction n arbitrary: k pool ls)
  case (Suc n)
  then obtain l pool1 ls1 where l: "GetNextLoop pool = Inr (l, pool1)" "next_loops n pool1 = Inr (ls1, pool')" "ls = l # ls1" by auto
  from Suc.IH [OF this(2), of "Suc k"] l show ?case
    using assms(1) [of k] by (auto simp: HttpServer_new_def TcpServer_new_def Acceptor_new_def BindAddress_def TcpServer_SetThreadNum_def
        HttpServer_GetLoop_def SetHttpCallback_def)
qed simp

section \<open>Properties\<close>

text \<open>
  Property C19. The short url service from its start to its answers. If the kernel gives every server its socket, \<open>main\<close> makes one server for each
  thread (one on the base loop if fewer than two are asked for), each on its own loop of the pool and each with \<open>onRequest\<close> as its callback. A server answers
  every well-formed request that arrives in one read with exactly one message and a shutdown: the redirection for a known path, the list of redirections for \<open>/\<close>, the
  555 bytes of the icon, and 404 for the rest.
\<close>

theorem shorturl_serves:
  assumes "\<And>i. 0 \<le> sock i \<and> bind i = 0" and "wf_request r" and "list_all wf_header hs" and "buffer_inv buf" and "content buf = request_text r hs"
    and "traverses enum" and "length now < 64"
  shows "\<exists>ss pool. shorturl_main sock bind ch start_loop now loop n = Inr (ss, pool)
    \<and> map HttpServer_GetLoop ss = (if n > 1 then map start_loop [0..<nat n] else [loop])
    \<and> (\<forall>s\<in>set ss. \<exists>buf'. OnMessage enum (hs_http_callback s) buf t
        = Some (Inr ([Call_Send (shorturl_text main_redirections now (req_path r)), Call_Shutdown], buf')) \<and> content buf' = [])"
proof -
  let ?pool = "EventLoopThreadPool_new loop ''shorturl''" and ?cb = "onRequest main_redirections now"
  let ?n = "if n > 1 then n else 1"
  define p where "p = fst (LoopPool_Start start_loop False (if n > 1 then SetThreadNum n ?pool else ?pool))"
  have "\<exists>p'. next_loops (nat ?n) p = Inr (if n > 1 then map start_loop [0..<nat n] else [loop], p')"
  proof (cases "n > 1")
    case True
    have "\<exists>p'. next_loops (nat n) p = Inr (map (\<lambda>i. GetAllLoops p ! (i mod length (GetAllLoops p))) [0..<nat n], p')
        \<and> length (GetAllLoops p) = nat (max 1 n) \<and> (n > 0 \<longrightarrow> GetAllLoops p = map start_loop [0..<nat n])"
      by (rule GetNextLoop_round_robin [where has_cb = False and base = loop and name = "''shorturl''"]) (use True in \<open>simp_all add: p_def\<close>)
    moreover have "map (\<lambda>i. start_loop (i mod nat n)) [0..<nat n] = map start_loop [0..<nat n]" by (rule map_cong) simp_all
    ultimately show ?thesis using True by (auto simp: max_def)
  next
    case False
    then show ?thesis by (simp add: p_def LoopPool_Start_def EventLoopThreadPool_new_def GetNextLoop_def)
  qed
  then obtain p' where "next_loops (nat ?n) p = Inr (if n > 1 then map start_loop [0..<nat n] else [loop], p')" by blast
  from make_servers_ok [where sock = sock and bind = bind and ch = ch and cb = ?cb and k = 0, OF assms(1) this] obtain ss where
    ss: "shorturl_main sock bind ch start_loop now loop n = Inr (ss, p')" "map HttpServer_GetLoop ss = (if n > 1 then map start_loop [0..<nat n] else [loop])"
      "list_all (\<lambda>s. hs_http_callback s = ?cb) ss" unfolding shorturl_main_def Let_def p_def by blast
  let ?resp = "?cb (r\<lparr>req_receive_time := t, req_headers := add_headers hs Map.empty\<rparr>) (HttpResponse_new True)"
  note resp = onRequest_text [OF assms(6) refl, of main_redirections now "r\<lparr>req_receive_time := t, req_headers := add_headers hs Map.empty\<rparr>"]
  have "length (index_page main_redirections now) < 400" using assms(7) by (simp add: index_page_def main_redirections_def)
  then have "length (resp_body ?resp) < 10 ^ 13" "length (response_text (enum (resp_headers ?resp)) ?resp) < 2 ^ 31"
    using resp(1,3) shorturl_text_bound [of main_redirections now "req_path r"] by auto
  from OnMessage_answers [where http_callback = ?cb and t = t and enum = enum and rest = "[]", OF assms(2-4) _ refl this] assms(5) resp(1,2) have
    "\<exists>buf'. OnMessage enum ?cb buf t = Some (Inr ([Call_Send (shorturl_text main_redirections now (req_path r)), Call_Shutdown], buf')) \<and> content buf' = []" by simp
  then show ?thesis using ss by (auto simp: list_all_iff)
qed

theorem shorturl_serves_witness:
  "\<exists>ss pool. shorturl_main (\<lambda>i. 5) (\<lambda>i. 0) (\<lambda>i. 100 + i) (\<lambda>i. 10 + i) ''today'' 7 3 = Inr (ss, pool) \<and> map HttpServer_GetLoop ss = [10, 11, 12]
    \<and> (\<forall>s\<in>set ss. \<exists>buf'. OnMessage (enum_keys [''Location'', ''Content-Type'']) (hs_http_callback s)
        (buffer_of (request_text (example_request\<lparr>req_path := ''/1''\<rparr>) [])) (Timestamp 0)
        = Some (Inr ([Call_Send (''HTTP/1.1 301 Moved Permanently'' @ kCRLF @ ''Connection: close'' @ kCRLF @ ''Location: http://chenshuo.com'' @ kCRLF @ kCRLF),
            Call_Shutdown], buf')) \<and> content buf' = [])"
proof -
  let ?r = "example_request\<lparr>req_path := ''/1''\<rparr>"
  have b: "buffer_inv (buffer_of (request_text ?r []))"
    by (rule buffer_inv_buffer_of) (simp add: request_text_def request_line_def MethodString_def version_text_def example_request_def)
  have wf: "wf_request ?r" by (simp add: wf_request_def example_request_def HttpRequest_new_def CR_def)
  have e: "traverses (enum_keys [''Location'', ''Content-Type''])" by (auto simp: traverses_def enumerates_def enum_keys_def)
  have "shorturl_text main_redirections ''today'' ''/1'' = ''HTTP/1.1 301 Moved Permanently'' @ kCRLF @ ''Connection: close'' @ kCRLF @ ''Location: http://chenshuo.com'' @ kCRLF @ kCRLF"
    by (simp add: shorturl_text_def main_redirections_def)
  then show ?thesis
    using shorturl_serves [OF _ wf _ b _ e, of "\<lambda>i. 5" "\<lambda>i. 0" "[]" "''today''" "\<lambda>i. 100 + i" "\<lambda>i. 10 + i" 7 3 "Timestamp 0"] by (simp add: upt_rec)
qed

end
