(* ===== verification/Log_Stream.thy ===== *)
theory Log_Stream
  imports Net_Prelude
begin

text \<open>
  \<open>buffer/fixed_buffer.h\<close> and \<open>logger/log_stream.{h,cc}\<close>: the fixed-size character buffer and the stream that formats
  log messages into it. The template argument \<open>SIZE\<close> is the length of the data array; what an uninitialised
  array holds is an argument of the constructor. Integers are formatted by the source's own algorithm; the
  text of a \<open>double\<close> (\<open>"%.12g"\<close>) is a parameter.

  The locale \<open>line_sink\<close> is what the users of the buffer rely on: a line is appended whole or not at all.
\<close>

section \<open>FixedBuffer\<close>

record fixed_buffer =
  fb_data :: string
  fb_curr :: nat     \<comment> \<open>\<open>curr_ - data_\<close>\<close>

definition kSmallBuffer :: nat where "kSmallBuffer = 4000"
definition kLargeBuffer :: nat where "kLargeBuffer = 4000 * 1000"

definition FixedBuffer_new :: "string \<Rightarrow> fixed_buffer" where
  "FixedBuffer_new junk = \<lparr>fb_data = junk, fb_curr = 0\<rparr>"

text \<open>\<open>end() - data_\<close> and \<open>end() - curr_\<close>, narrowed to \<open>int\<close>.\<close>

definition Length :: "fixed_buffer \<Rightarrow> int" where
  "Length b = int_of_size (length (fb_data b))"

definition Avail :: "fixed_buffer \<Rightarrow> int" where
  "Avail b = int_of_size (size_sub (length (fb_data b)) (fb_curr b))"

text \<open>\<open>Append(buf, len)\<close>: \<open>mem\<close> is the memory that may be read from \<open>buf\<close> on.\<close>

definition Fixed_Append :: "string \<Rightarrow> nat \<Rightarrow> fixed_buffer \<Rightarrow> fixed_buffer result" where
  "Fixed_Append mem len b =
     (if size_of_int (Avail b) > len
      then if len \<le> length mem \<and> fb_curr b + len \<le> length (fb_data b)
           then Inr (b\<lparr>fb_data := overwrite (fb_data b) (fb_curr b) (take len mem), fb_curr := fb_curr b + len\<rparr>)
           else Inl Out_of_bounds
      else Inr b)"

definition Add :: "nat \<Rightarrow> fixed_buffer \<Rightarrow> fixed_buffer" where
  "Add len b = b\<lparr>fb_curr := fb_curr b + len\<rparr>"

definition Fixed_Reset :: "fixed_buffer \<Rightarrow> fixed_buffer" where
  "Fixed_Reset b = b\<lparr>fb_curr := 0\<rparr>"

definition Bzero :: "fixed_buffer \<Rightarrow> fixed_buffer" where
  "Bzero b = b\<lparr>fb_data := replicate (length (fb_data b)) (char_of (0 :: nat))\<rparr>"

definition Fixed_ToString :: "fixed_buffer \<Rightarrow> string" where
  "Fixed_ToString b = take (nat (Length b)) (fb_data b)"

text \<open>A write through \<open>Current()\<close>, checked against the end of the array.\<close>

definition write_current :: "string \<Rightarrow> fixed_buffer \<Rightarrow> fixed_buffer result" where
  "write_current s b =
     (if fb_curr b + length s \<le> length (fb_data b)
      then Inr (b\<lparr>fb_data := overwrite (fb_data b) (fb_curr b) s\<rparr>) else Inl Out_of_bounds)"

section \<open>LogStream: integers\<close>

abbreviation NUL :: char where "NUL \<equiv> char_of (0 :: nat)"

definition kMaxNumericSize :: int where "kMaxNumericSize = 48"

definition digits :: string where "digits = ''9876543210123456789''"

definition digitsHex :: string where "digitsHex = ''0123456789ABCDEF''"

text \<open>
  The \<open>do\<close> loop of \<open>FormatInteger\<close>: \<open>%\<close> and \<open>/\<close> truncate towards zero, so the remainder of a negative number
  indexes the left half of \<open>digits\<close>. The result is in the order the characters are stored.
\<close>

function format_loop :: "int \<Rightarrow> string" where
  "format_loop num =
     (let remainder = num smod 10; num' = num sdiv 10
      in digits ! nat (9 + remainder) # (if num' \<noteq> 0 then format_loop num' else []))"
  by auto
termination
proof (relation "measure (\<lambda>num. nat \<bar>num\<bar>)", goal_cases)
  case (2 num)
  then have "num \<noteq> 0" by auto
  then have "\<bar>num\<bar> div 10 < \<bar>num\<bar>" by (intro int_div_less_self) auto
  moreover have "\<bar>num sdiv 10\<bar> = \<bar>num\<bar> div 10" using \<open>num \<noteq> 0\<close> by (simp add: signed_divide_int_def abs_mult)
  ultimately show ?case using 2 by simp
qed simp

declare format_loop.simps [simp del]

definition FormatInteger :: "int \<Rightarrow> fixed_buffer \<Rightarrow> fixed_buffer result" where
  "FormatInteger num b =
     (if Avail b \<ge> kMaxNumericSize
      then let stored = format_loop num @ (if num < 0 then ''-'' else '''')
           in bindr (write_current (rev stored @ [NUL]) b) (\<lambda>b. Inr (Add (length stored) b))
      else Inr b)"

definition put_int :: "32 word \<Rightarrow> fixed_buffer \<Rightarrow> fixed_buffer result" where "put_int v = FormatInteger (sint v)"
definition put_unsigned_int :: "32 word \<Rightarrow> fixed_buffer \<Rightarrow> fixed_buffer result" where "put_unsigned_int v = FormatInteger (uint v)"
definition put_short :: "16 word \<Rightarrow> fixed_buffer \<Rightarrow> fixed_buffer result" where "put_short v = put_int (scast v)"
definition put_unsigned_short :: "16 word \<Rightarrow> fixed_buffer \<Rightarrow> fixed_buffer result" where "put_unsigned_short v = put_unsigned_int (ucast v)"
definition put_long :: "64 word \<Rightarrow> fixed_buffer \<Rightarrow> fixed_buffer result" where "put_long v = FormatInteger (sint v)"
definition put_unsigned_long :: "64 word \<Rightarrow> fixed_buffer \<Rightarrow> fixed_buffer result" where "put_unsigned_long v = FormatInteger (uint v)"
definition put_long_long :: "64 word \<Rightarrow> fixed_buffer \<Rightarrow> fixed_buffer result" where "put_long_long v = FormatInteger (sint v)"
definition put_unsigned_long_long :: "64 word \<Rightarrow> fixed_buffer \<Rightarrow> fixed_buffer result" where "put_unsigned_long_long v = FormatInteger (uint v)"

section \<open>LogStream: the other insertions\<close>

text \<open>The function for \<open>double\<close> has no \<open>return\<close> when there is no room.\<close>

definition put_double :: "('d \<Rightarrow> string) \<Rightarrow> 'd \<Rightarrow> fixed_buffer \<Rightarrow> fixed_buffer result" where
  "put_double fmt_g12 v b =
     (if Avail b \<ge> kMaxNumericSize
      then bindr (write_current (snprintf_buf (nat kMaxNumericSize) (fmt_g12 v) @ [NUL]) b) (\<lambda>b. Inr (Add (length (fmt_g12 v)) b))
      else Inl Missing_return)"

definition put_float :: "('d \<Rightarrow> string) \<Rightarrow> ('f \<Rightarrow> 'd) \<Rightarrow> 'f \<Rightarrow> fixed_buffer \<Rightarrow> fixed_buffer result" where
  "put_float fmt_g12 to_double v = put_double fmt_g12 (to_double v)"

definition put_char :: "char \<Rightarrow> fixed_buffer \<Rightarrow> fixed_buffer result" where
  "put_char c = Fixed_Append [c] 1"

fun hex_loop :: "nat \<Rightarrow> string" where
  "hex_loop i = digitsHex ! (i mod 16) # (if i div 16 \<noteq> 0 then hex_loop (i div 16) else [])"

declare hex_loop.simps [simp del]

definition ConvertHex :: "64 word \<Rightarrow> string" where
  "ConvertHex value = rev (hex_loop (unat value))"

definition put_pointer :: "64 word \<Rightarrow> fixed_buffer \<Rightarrow> fixed_buffer result" where
  "put_pointer v b =
     (if Avail b \<ge> kMaxNumericSize
      then bindr (write_current (''0x'' @ ConvertHex v @ [NUL]) b) (\<lambda>b. Inr (Add (length (ConvertHex v) + 2) b))
      else Inr b)"

text \<open>A \<open>const char*\<close> is null or points to a string that a NUL ends.\<close>

definition put_cstr :: "string option \<Rightarrow> fixed_buffer \<Rightarrow> fixed_buffer result" where
  "put_cstr str = (case str of Some s \<Rightarrow> Fixed_Append (s @ [NUL]) (length s) | None \<Rightarrow> Fixed_Append (''(null)'' @ [NUL]) 6)"

definition put_ucstr :: "string option \<Rightarrow> fixed_buffer \<Rightarrow> fixed_buffer result" where
  "put_ucstr str = put_cstr str"

definition put_string :: "string \<Rightarrow> fixed_buffer \<Rightarrow> fixed_buffer result" where
  "put_string str = Fixed_Append (str @ [NUL]) (length str)"

definition put_buffer :: "fixed_buffer \<Rightarrow> fixed_buffer \<Rightarrow> fixed_buffer result" where
  "put_buffer buf = put_string (Fixed_ToString buf)"

record general_template =
  gt_data :: string    \<comment> \<open>the memory that may be read from the pointer on\<close>
  gt_len :: int

definition put_template :: "general_template \<Rightarrow> fixed_buffer \<Rightarrow> fixed_buffer result" where
  "put_template g = Fixed_Append (gt_data g) (size_of_int (gt_len g))"

text \<open>The public \<open>Append\<close> and \<open>ResetBuffer\<close> of the stream.\<close>

definition LogStream_Append :: "string \<Rightarrow> int \<Rightarrow> fixed_buffer \<Rightarrow> fixed_buffer result" where
  "LogStream_Append mem len = Fixed_Append mem (size_of_int len)"

definition ResetBuffer :: "fixed_buffer \<Rightarrow> fixed_buffer" where "ResetBuffer = Fixed_Reset"

text \<open>One insertion of a log statement, and the statement as a sequence of insertions.\<close>

datatype 'd log_item =
    Int_item int | is_double: Double_item 'd | Char_item char | Pointer_item "64 word"
  | Cstr_item "string option" | String_item string | Buffer_item fixed_buffer | Template_item general_template

fun put_item :: "('d \<Rightarrow> string) \<Rightarrow> fixed_buffer \<Rightarrow> 'd log_item \<Rightarrow> fixed_buffer result" where
  "put_item fmt b (Int_item i) = FormatInteger i b"
| "put_item fmt b (Double_item v) = put_double fmt v b"
| "put_item fmt b (Char_item c) = put_char c b"
| "put_item fmt b (Pointer_item p) = put_pointer p b"
| "put_item fmt b (Cstr_item s) = put_cstr s b"
| "put_item fmt b (String_item s) = put_string s b"
| "put_item fmt b (Buffer_item s) = put_buffer s b"
| "put_item fmt b (Template_item g) = put_template g b"

section \<open>The contract of the buffer\<close>

text \<open>
  What a writer of lines relies on: a line with room to spare is appended whole, any other is dropped
  whole. The lemmas of the locale say what a sequence of appends leaves.
\<close>

fun greedy :: "nat \<Rightarrow> string list \<Rightarrow> string list" where
  "greedy r [] = []"
| "greedy r (s # ss) = (if length s < r then s # greedy (r - length s) ss else greedy r ss)"

locale line_sink =
  fixes ok :: "'b \<Rightarrow> bool" and content :: "'b \<Rightarrow> string" and room :: "'b \<Rightarrow> nat"
    and append :: "string \<Rightarrow> 'b \<Rightarrow> 'b result"
  assumes fits: "ok b \<Longrightarrow> length s < room b \<Longrightarrow>
      \<exists>b'. append s b = Inr b' \<and> ok b' \<and> content b' = content b @ s \<and> room b' = room b - length s"
    and full: "ok b \<Longrightarrow> room b \<le> length s \<Longrightarrow> append s b = Inr b"
begin

lemma append_run:
  assumes "ok b"
  shows "\<exists>b'. foldr_result (\<lambda>b s. append s b) b ss = Inr b' \<and> ok b'
    \<and> content b' = content b @ concat (greedy (room b) ss) \<and> room b' = room b - length (concat (greedy (room b) ss))"
  using assms
proof (induction ss arbitrary: b)
  case (Cons s ss)
  show ?case
  proof (cases "length s < room b")
    case True
    from fits [OF Cons.prems True] obtain b1 where b1: "append s b = Inr b1" "ok b1" "content b1 = content b @ s" "room b1 = room b - length s"
      by blast
    from Cons.IH [OF b1(2)] show ?thesis using b1 True by auto
  next
    case False
    with full [OF Cons.prems, of s] Cons.IH [OF Cons.prems] show ?thesis by auto
  qed
qed auto

lemma append_all:
  assumes "ok b" and "length (concat ss) < room b"
  shows "\<exists>b'. foldr_result (\<lambda>b s. append s b) b ss = Inr b' \<and> ok b' \<and> content b' = content b @ concat ss"
proof -
  have "length (concat ss) < r \<Longrightarrow> greedy r ss = ss" for r
    by (induction ss arbitrary: r) (simp_all add: less_diff_conv)
  with append_run [OF assms(1), of ss] assms(2) show ?thesis by auto
qed

end

definition fb_ok :: "fixed_buffer \<Rightarrow> bool" where
  "fb_ok b \<longleftrightarrow> fb_curr b \<le> length (fb_data b) \<and> length (fb_data b) < 2 ^ 31"

definition fb_content :: "fixed_buffer \<Rightarrow> string" where
  "fb_content b = take (fb_curr b) (fb_data b)"

definition fb_room :: "fixed_buffer \<Rightarrow> nat" where
  "fb_room b = length (fb_data b) - fb_curr b"

definition Fixed_put :: "string \<Rightarrow> fixed_buffer \<Rightarrow> fixed_buffer result" where
  "Fixed_put s = Fixed_Append s (length s)"

lemma fb_room_bound: "fb_ok b \<Longrightarrow> fb_room b < 2 ^ 31"
  unfolding fb_ok_def fb_room_def by linarith

lemma Avail_ok: "fb_ok b \<Longrightarrow> Avail b = int (fb_room b)"
  using fb_room_bound [of b] by (simp add: Avail_def fb_room_def fb_ok_def net_simps)

lemma Fixed_Append_fits:
  assumes "fb_ok b" and "len < fb_room b" and "len \<le> length mem"
  shows "\<exists>b'. Fixed_Append mem len b = Inr b' \<and> fb_ok b' \<and> fb_content b' = fb_content b @ take len mem
    \<and> fb_room b' = fb_room b - len \<and> length (fb_data b') = length (fb_data b)"
  using assms fb_room_bound [OF assms(1)]
  by (auto simp: Fixed_Append_def Avail_ok net_simps fb_ok_def fb_content_def fb_room_def overwrite_def min_def)

lemma Fixed_Append_full:
  assumes "fb_ok b" and "fb_room b \<le> len"
  shows "Fixed_Append mem len b = Inr b"
  using assms fb_room_bound [OF assms(1)] by (simp add: Fixed_Append_def Avail_ok net_simps)

interpretation fixed: line_sink fb_ok fb_content fb_room Fixed_put
proof (unfold_locales, goal_cases)
  case (1 b s)
  then show ?case using Fixed_Append_fits [of b "length s" s] by (auto simp: Fixed_put_def)
next
  case (2 b s)
  then show ?case by (simp add: Fixed_put_def Fixed_Append_full)
qed

lemma write_current_Add:
  assumes "fb_ok b" and "length s < fb_room b"
  shows "\<exists>b'. write_current (s @ [c]) b = Inr b' \<and> fb_ok (Add (length s) b') \<and> fb_content (Add (length s) b') = fb_content b @ s
    \<and> fb_room (Add (length s) b') = fb_room b - length s"
  using assms by (auto simp: write_current_def Add_def fb_ok_def fb_content_def fb_room_def overwrite_def)

section \<open>Integers\<close>

lemma digits_nth: "d < 10 \<Longrightarrow> digits ! (9 + d) = digit_char d" "d < 10 \<Longrightarrow> digits ! (9 - d) = digit_char d"
proof -
  have "\<forall>d < 10. digits ! (9 + d) = digit_char d \<and> digits ! (9 - d) = digit_char d" by code_simp
  then show "d < 10 \<Longrightarrow> digits ! (9 + d) = digit_char d" "d < 10 \<Longrightarrow> digits ! (9 - d) = digit_char d" by blast+
qed

lemma format_loop_nat: "format_loop (int n) = rev (show_nat n)"
proof (induction n rule: show_nat.induct)
  case (1 n)
  have r: "int n smod 10 = int (n mod 10)" "int n sdiv 10 = int (n div 10)"
    by (cases "n = 0"; simp add: signed_modulo_int_def signed_divide_int_def zmod_int zdiv_int)+
  show ?case
  proof (cases "n < 10")
    case True
    then show ?thesis using digits_nth(1) [of n] r
      by (simp add: format_loop.simps [of "int n"] show_nat_less_10 nat_add_distrib)
  next
    case False
    then have "n div 10 \<noteq> 0" by simp
    with 1 [OF False] False digits_nth(1) [of "n mod 10"] r show ?thesis
      by (simp add: format_loop.simps [of "int n"] show_nat_ge_10 nat_add_distrib)
  qed
qed

lemma format_loop_neg: "format_loop (- int n) = rev (show_nat n)"
proof (induction n rule: show_nat.induct)
  case (1 n)
  have r: "(- int n) smod 10 = - int (n mod 10)" "(- int n) sdiv 10 = - int (n div 10)"
    by (simp_all add: signed_modulo_int_def signed_divide_int_def zmod_int zdiv_int sgn_if)
  have d: "nat (9 - int k) = 9 - k" for k by simp
  show ?case
  proof (cases "n < 10")
    case True
    then show ?thesis using digits_nth(2) [of n] r d
      by (simp add: format_loop.simps [of "- int n"] show_nat_less_10)
  next
    case False
    then have "n div 10 \<noteq> 0" by simp
    with 1 [OF False] False digits_nth(2) [of "n mod 10"] r d show ?thesis
      by (simp add: format_loop.simps [of "- int n"] show_nat_ge_10)
  qed
qed

lemma format_loop_show_int: "rev (format_loop num @ (if num < 0 then ''-'' else '''')) = show_int num"
  using format_loop_nat [of "nat num"] format_loop_neg [of "nat (- num)"] by (cases "num < 0") (simp_all add: show_int_def)

lemma length_show_int_64: "- (2 ^ 63) \<le> i \<Longrightarrow> i < 2 ^ 64 \<Longrightarrow> length (show_int i) \<le> 21"
  using length_show_nat [of "nat (- i)" 20] length_show_nat [of "nat i" 20] by (auto simp: show_int_def nat_less_iff)

lemma FormatInteger_ok:
  assumes "fb_ok b" and "- (2 ^ 63) \<le> num" and "num < 2 ^ 64"
  shows "\<exists>b'. FormatInteger num b = Inr b' \<and> fb_ok b'
    \<and> (if 48 \<le> fb_room b then fb_content b' = fb_content b @ show_int num \<and> fb_room b' = fb_room b - length (show_int num) else b' = b)"
proof (cases "48 \<le> fb_room b")
  case True
  then have "length (show_int num) < fb_room b" using length_show_int_64 [OF assms(2,3)] by simp
  from write_current_Add [OF assms(1) this, of NUL] True show ?thesis
    unfolding FormatInteger_def Let_def format_loop_show_int
    using arg_cong [OF format_loop_show_int, of length num] by (auto simp: Avail_ok [OF assms(1)] kMaxNumericSize_def)
next
  case False
  then show ?thesis using assms(1) by (simp add: FormatInteger_def Avail_ok kMaxNumericSize_def)
qed

section \<open>Pointers\<close>

fun read_hex :: "nat \<Rightarrow> string \<Rightarrow> nat" where
  "read_hex acc [] = acc"
| "read_hex acc (c # cs) = read_hex (16 * acc + (if of_char c < (58 :: nat) then of_char c - 48 else of_char c - 55)) cs"

lemma digitsHex_nth: "d < 16 \<Longrightarrow> read_hex a [digitsHex ! d] = 16 * a + d"
proof -
  have "\<forall>d < 16. read_hex 0 [digitsHex ! d] = d" by code_simp
  then show "d < 16 \<Longrightarrow> read_hex a [digitsHex ! d] = 16 * a + d" by simp
qed

lemma read_hex_append: "read_hex a (xs @ ys) = read_hex (read_hex a xs) ys"
  by (induction xs arbitrary: a) simp_all

lemma read_hex_loop: "read_hex 0 (rev (hex_loop n)) = n"
proof (induction n rule: hex_loop.induct)
  case (1 n)
  show ?case
  proof (cases "n div 16 = 0")
    case True
    with digitsHex_nth [of n 0] show ?thesis by (simp add: hex_loop.simps [of n] div_eq_0_iff)
  next
    case False
    with 1 digitsHex_nth [of "n mod 16" "n div 16"] show ?thesis
      by (simp add: hex_loop.simps [of n] read_hex_append del: read_hex.simps)
  qed
qed

lemma length_hex_loop: "n < 16 ^ k \<Longrightarrow> 0 < k \<Longrightarrow> length (hex_loop n) \<le> k"
proof (induction k arbitrary: n)
  case (Suc k)
  show ?case
  proof (cases "n div 16 = 0")
    case False
    with Suc.prems have "n div 16 < 16 ^ k" "0 < k" by (cases k; simp add: less_mult_imp_div_less)+
    with Suc.IH [of "n div 16"] False show ?thesis by (simp add: hex_loop.simps [of n])
  qed (simp add: hex_loop.simps [of n])
qed simp

lemma length_ConvertHex: "length (ConvertHex v) \<le> 16"
proof -
  have "unat v < 16 ^ 16" using unsigned_less [of v] by simp
  then show ?thesis using length_hex_loop [of "unat v" 16] by (simp add: ConvertHex_def)
qed

lemma put_pointer_ok:
  assumes "fb_ok b"
  shows "\<exists>b'. put_pointer v b = Inr b' \<and> fb_ok b'
    \<and> (if 48 \<le> fb_room b then fb_content b' = fb_content b @ ''0x'' @ ConvertHex v \<and> fb_room b' = fb_room b - length (''0x'' @ ConvertHex v) else b' = b)"
proof (cases "48 \<le> fb_room b")
  case True
  then have "length (''0x'' @ ConvertHex v) < fb_room b" using length_ConvertHex [of v] by simp
  from write_current_Add [OF assms(1) this, of NUL] True show ?thesis
    by (auto simp: put_pointer_def Avail_ok [OF assms(1)] kMaxNumericSize_def)
next
  case False
  then show ?thesis using assms(1) by (simp add: put_pointer_def Avail_ok kMaxNumericSize_def)
qed

section \<open>Statements\<close>

text \<open>
  What a statement leaves in a buffer with \<open>r\<close> bytes of room: numbers want \<open>kMaxNumericSize\<close> bytes, texts one
  byte more than their length; what does not fit is skipped and the rest of the statement goes on.
\<close>

fun item_text :: "('d \<Rightarrow> string) \<Rightarrow> 'd log_item \<Rightarrow> string" where
  "item_text fmt (Int_item i) = show_int i"
| "item_text fmt (Double_item v) = fmt v"
| "item_text fmt (Char_item c) = [c]"
| "item_text fmt (Pointer_item p) = ''0x'' @ ConvertHex p"
| "item_text fmt (Cstr_item s) = (case s of Some s \<Rightarrow> s | None \<Rightarrow> ''(null)'')"
| "item_text fmt (String_item s) = s"
| "item_text fmt (Buffer_item b) = fb_data b"
| "item_text fmt (Template_item g) = take (nat (gt_len g)) (gt_data g)"

fun item_room :: "('d \<Rightarrow> string) \<Rightarrow> 'd log_item \<Rightarrow> nat" where
  "item_room fmt (Int_item i) = 48"
| "item_room fmt (Double_item v) = 48"
| "item_room fmt (Pointer_item p) = 48"
| "item_room fmt x = Suc (length (item_text fmt x))"

fun item_ok :: "('d \<Rightarrow> string) \<Rightarrow> 'd log_item \<Rightarrow> bool" where
  "item_ok fmt (Int_item i) = (- (2 ^ 63) \<le> i \<and> i < 2 ^ 64)"
| "item_ok fmt (Double_item v) = (length (fmt v) < 48)"
| "item_ok fmt (Buffer_item b) = (length (fb_data b) < 2 ^ 31)"
| "item_ok fmt (Template_item g) = (0 \<le> gt_len g \<and> gt_len g < 2 ^ 31 \<and> gt_len g \<le> int (length (gt_data g)))"
| "item_ok fmt x = True"

fun shown :: "('d \<Rightarrow> string) \<Rightarrow> nat \<Rightarrow> 'd log_item list \<Rightarrow> string" where
  "shown fmt r [] = []"
| "shown fmt r (x # xs) =
     (if item_room fmt x \<le> r then item_text fmt x @ shown fmt (r - length (item_text fmt x)) xs else shown fmt r xs)"

lemma Fixed_Append_cases:
  assumes "fb_ok b" and "len \<le> length mem"
  shows "\<exists>b'. Fixed_Append mem len b = Inr b' \<and> fb_ok b'
    \<and> (if Suc len \<le> fb_room b then fb_content b' = fb_content b @ take len mem \<and> fb_room b' = fb_room b - len else b' = b)"
proof (cases "len < fb_room b")
  case True
  then show ?thesis using Fixed_Append_fits [OF assms(1) True assms(2)] by auto
next
  case False
  then show ?thesis using assms(1) by (simp add: Fixed_Append_full not_less)
qed

lemma put_double_ok:
  assumes "fb_ok b" and "length (fmt v) < 48" and "48 \<le> fb_room b"
  shows "\<exists>b'. put_double fmt v b = Inr b' \<and> fb_ok b' \<and> fb_content b' = fb_content b @ fmt v \<and> fb_room b' = fb_room b - length (fmt v)"
  using assms write_current_Add [OF assms(1), of "fmt v" NUL]
  by (auto simp: put_double_def Avail_ok kMaxNumericSize_def snprintf_buf_def)

lemma put_item_ok:
  assumes "fb_ok b" and "item_ok fmt x" and "is_double x \<Longrightarrow> 48 \<le> fb_room b"
  shows "\<exists>b'. put_item fmt b x = Inr b' \<and> fb_ok b'
    \<and> (if item_room fmt x \<le> fb_room b then fb_content b' = fb_content b @ item_text fmt x \<and> fb_room b' = fb_room b - length (item_text fmt x)
       else b' = b)"
proof -
  note [split del] = if_split and [cong] = if_cong
  show ?thesis
  proof (cases x)
    case (Int_item i)
    then show ?thesis using FormatInteger_ok [OF assms(1), of i] assms(2) by simp
  next
    case (Double_item v)
    then show ?thesis using put_double_ok [OF assms(1), of fmt v] assms(2,3) by simp
  next
    case (Char_item c)
    then show ?thesis using Fixed_Append_cases [OF assms(1), of 1 "[c]"] by (simp add: put_char_def)
  next
    case (Pointer_item p)
    then show ?thesis using put_pointer_ok [OF assms(1), of p] by simp
  next
    case (Cstr_item s)
    then show ?thesis using Fixed_Append_cases [OF assms(1), of "length (the s)" "the s @ [NUL]"]
        Fixed_Append_cases [OF assms(1), of 6 "''(null)'' @ [NUL]"]
      by (cases s) (simp_all add: put_cstr_def numeral_eq_Suc)
  next
    case (String_item s)
    then show ?thesis using Fixed_Append_cases [OF assms(1), of "length s" "s @ [NUL]"] by (simp add: put_string_def)
  next
    case (Buffer_item s)
    then show ?thesis using Fixed_Append_cases [OF assms(1), of "length (fb_data s)" "fb_data s @ [NUL]"] assms(2)
      by (simp add: put_buffer_def put_string_def Fixed_ToString_def Length_def net_simps)
  next
    case (Template_item g)
    then have "nat (gt_len g) \<le> length (gt_data g)" "size_of_int (gt_len g) = nat (gt_len g)" using assms(2) by (auto simp: net_simps)
    then show ?thesis using Template_item Fixed_Append_cases [OF assms(1), of "nat (gt_len g)" "gt_data g"]
      by (simp add: put_template_def min_def)
  qed
qed

lemma stream_run:
  assumes "fb_ok b" and "\<And>x. x \<in> set xs \<Longrightarrow> item_ok fmt x \<and> \<not> is_double x"
  shows "\<exists>b'. foldr_result (put_item fmt) b xs = Inr b' \<and> fb_ok b' \<and> fb_content b' = fb_content b @ shown fmt (fb_room b) xs"
  using assms
proof (induction xs arbitrary: b)
  case (Cons x xs)
  from put_item_ok [OF Cons.prems(1), of fmt x] Cons.prems(2) [of x] obtain b1 where b1: "put_item fmt b x = Inr b1" "fb_ok b1"
    "if item_room fmt x \<le> fb_room b then fb_content b1 = fb_content b @ item_text fmt x \<and> fb_room b1 = fb_room b - length (item_text fmt x) else b1 = b"
    by auto
  from Cons.IH [OF b1(2)] Cons.prems(2) b1 show ?case by (auto split: if_splits)
qed simp

lemma uint_ge_neg: "i \<le> 0 \<Longrightarrow> i \<le> uint w"
  by (metis order_trans uint_ge_0)

section \<open>Properties\<close>

text \<open>
  Property C9. Every integer type prints correctly: for each of the eight overloads, with at least \<open>kMaxNumericSize\<close> bytes
  of room, exactly the decimal text of the value is appended, the smallest values included, and nothing is written
  outside the buffer; with less room the buffer is left as it is. The text reads back to the value.
\<close>

theorem integers_print_exactly:
  assumes "fb_ok b" and "(p, i) \<in> {(put_int x, sint x), (put_unsigned_int x, uint x), (put_short y, sint y), (put_unsigned_short y, uint y),
      (put_long z, sint z), (put_unsigned_long z, uint z), (put_long_long z, sint z), (put_unsigned_long_long z, uint z)}"
  shows "\<exists>b'. p b = Inr b' \<and> fb_ok b' \<and> (if 48 \<le> fb_room b then fb_content b' = fb_content b @ show_int i else b' = b)
    \<and> read_int (show_int i) = i"
proof -
  have "sint (scast y :: 32 word) = sint y" "uint (ucast y :: 32 word) = uint y"
    by (simp_all add: sint_up_scast is_up uint_up_ucast)
  with assms(2) have p: "p = FormatInteger i"
    by (auto simp: put_int_def put_unsigned_int_def put_short_def put_unsigned_short_def put_long_def put_unsigned_long_def
        put_long_long_def put_unsigned_long_long_def)
  have "- (2 ^ 63) \<le> i" "i < 2 ^ 64"
    using assms(2) sint_greater_eq [of x] sint_less [of x] sint_greater_eq [of y] sint_less [of y] sint_greater_eq [of z] sint_less [of z]
      uint_bounded [of x] uint_bounded [of y] uint_bounded [of z]
    by (auto simp: uint_ge_neg)
  from FormatInteger_ok [OF assms(1) this] show ?thesis unfolding p by (auto simp: read_int_show_int split: if_splits)
qed

theorem integers_print_exactly_witness:
  "\<exists>b'. put_long (- (2 ^ 63)) (FixedBuffer_new (replicate 100 CHR ''x'')) = Inr b' \<and> fb_content b' = show_int (- (2 ^ 63))"
proof -
  let ?b = "FixedBuffer_new (replicate 100 CHR ''x'')"
  have b: "fb_ok ?b" "48 \<le> fb_room ?b" "fb_content ?b = ''''" by (simp_all add: fb_ok_def fb_room_def fb_content_def FixedBuffer_new_def)
  have "sint (- (2 ^ 63) :: 64 word) = - (2 ^ 63)" by code_simp
  with integers_print_exactly [OF b(1), of "put_long (- (2 ^ 63))" "- (2 ^ 63)" 0 0 "- (2 ^ 63)"] b(2,3) show ?thesis by auto
qed

text \<open>
  A log statement never writes outside its buffer. Whatever is inserted (integers, characters, pointers, C strings,
  null pointers, strings, whole buffers, counted texts; no \<open>double\<close>), the stream ends with its old content followed by the
  texts of the insertions that fit, in order, each of them whole.
\<close>

theorem statement_is_bounded:
  assumes "fb_ok b" and "\<And>x. x \<in> set xs \<Longrightarrow> item_ok fmt x \<and> \<not> is_double x"
  shows "\<exists>b'. foldr_result (put_item fmt) b xs = Inr b' \<and> fb_content b' = fb_content b @ shown fmt (fb_room b) xs
    \<and> length (fb_content b') \<le> length (fb_data b')"
  using stream_run [OF assms] by (auto simp: fb_content_def)

theorem statement_is_bounded_witness:
  "\<exists>b'. foldr_result (put_item (\<lambda>v :: unit. '''')) (FixedBuffer_new (replicate 60 CHR ''x''))
      [Cstr_item None, Int_item 7, String_item (replicate 60 CHR ''y''), Char_item CHR ''!''] = Inr b' \<and> fb_content b' = ''(null)7!''"
proof -
  let ?b = "FixedBuffer_new (replicate 60 CHR ''x'')"
  let ?xs = "[Cstr_item None, Int_item 7, String_item (replicate 60 CHR ''y''), Char_item CHR ''!''] :: unit log_item list"
  have b: "fb_ok ?b" "fb_room ?b = 60" "fb_content ?b = ''''" by (simp_all add: fb_ok_def fb_room_def fb_content_def FixedBuffer_new_def)
  have "show_int 7 = ''7''" by code_simp
  then have "shown (\<lambda>v :: unit. '''') 60 ?xs = ''(null)7!''" by simp
  with statement_is_bounded [OF b(1), of ?xs "\<lambda>v. ''''"] b(2,3) show ?thesis by force
qed

text \<open>
  A \<open>double\<close> is printed like the other numbers while there is room; without room the function ends
  without a value, and a whole buffer inserted into a stream of the same size is always dropped, because
  \<open>ToString\<close> takes the capacity for the length.
\<close>

theorem insertions_that_fail:
  assumes "fb_ok b" and "length (fb_data c) = length (fb_data b)"
  shows "(fb_room b < 48 \<longrightarrow> put_double fmt v b = Inl Missing_return) \<and> put_buffer c b = Inr b"
proof -
  have "Fixed_ToString c = fb_data c" using assms by (simp add: Fixed_ToString_def Length_def fb_ok_def net_simps)
  then have "put_buffer c b = Inr b" using assms by (simp add: put_buffer_def put_string_def Fixed_Append_full fb_room_def)
  moreover have "fb_room b < 48 \<Longrightarrow> put_double fmt v b = Inl Missing_return"
    using assms(1) by (simp add: put_double_def Avail_ok kMaxNumericSize_def)
  ultimately show ?thesis by blast
qed

theorem insertions_that_fail_witness:
  "put_double (\<lambda>_. ''1.5'') () (FixedBuffer_new (replicate 40 CHR ''x'')) = Inl Missing_return
   \<and> put_buffer (FixedBuffer_new (replicate 40 CHR ''y'')) (FixedBuffer_new (replicate 40 CHR ''x'')) = Inr (FixedBuffer_new (replicate 40 CHR ''x''))"
proof -
  have b: "fb_ok (FixedBuffer_new (replicate 40 CHR ''x''))" by (simp add: fb_ok_def FixedBuffer_new_def)
  show ?thesis using insertions_that_fail [OF b, of "FixedBuffer_new (replicate 40 CHR ''y'')"] by (simp add: fb_room_def FixedBuffer_new_def)
qed

end
