(* ===== verification/Logging.thy ===== *)
theory Logging
  imports Log_Stream Timestamp
begin

text \<open>
  \<open>logger/logging.{h,cc}\<close>: one \<open>Logger\<close> object per log statement. Its constructor writes the time, the level and, for the
  system-error macros, the error text into a stream; the statement's insertions follow; the destructor adds the
  position and hands the stream's buffer to the output function. The clock, \<open>localtime\<close>, \<open>errno\<close>,
  \<open>strerror_r\<close> and the contents of the uninitialised stream buffer are arguments.
\<close>

section \<open>Source files and levels\<close>

record source_file =
  sf_data :: string
  sf_size :: int

definition strrchr :: "string \<Rightarrow> char \<Rightarrow> string option" where
  "strrchr s c = (if c \<in> set s then Some (c # rev (takeWhile (\<lambda>x. x \<noteq> c) (rev s))) else None)"

definition SourceFile :: "string \<Rightarrow> source_file" where
  "SourceFile filename =
     (let data = (case strrchr filename CHR ''/'' of Some slash \<Rightarrow> tl slash | None \<Rightarrow> filename)
      in \<lparr>sf_data = data, sf_size = int_of_size (length data)\<rparr>)"

datatype log_level = TRACE | DEBUG | INFO | WARN | ERROR | FATAL

fun level_value :: "log_level \<Rightarrow> nat" where
  "level_value TRACE = 0" | "level_value DEBUG = 1" | "level_value INFO = 2"
| "level_value WARN = 3" | "level_value ERROR = 4" | "level_value FATAL = 5"

fun get_level_name :: "log_level \<Rightarrow> string" where
  "get_level_name TRACE = ''TRACE ''" | "get_level_name DEBUG = ''DEBUG ''" | "get_level_name INFO = ''INFO  ''"
| "get_level_name WARN = ''WARN  ''" | "get_level_name ERROR = ''ERROR ''" | "get_level_name FATAL = ''FATAL ''"

definition InitLogLevel :: log_level where "InitLogLevel = INFO"

section \<open>Logger\<close>

text \<open>What the surroundings give a logger, and the thread's buffers.\<close>

record log_env =
  env_now :: timestamp
  env_localtime :: "int \<Rightarrow> tm"
  env_errno :: int
  env_strerror :: "int \<Rightarrow> string"
  env_junk :: string           \<comment> \<open>the memory of the stream's buffer\<close>

record thread_info =
  t_time :: string
  t_lastSecond :: int

definition thread_info_init :: thread_info where
  "thread_info_init = \<lparr>t_time = replicate 64 NUL, t_lastSecond = 0\<rparr>"

record logger =
  lg_stream :: fixed_buffer
  lg_level :: log_level
  lg_line :: int
  lg_basename :: source_file

definition GetErrnoMsg :: "log_env \<Rightarrow> int \<Rightarrow> string" where
  "GetErrnoMsg env saved_errno = env_strerror env saved_errno"

text \<open>\<open>"%4d/%02d/%02d %02d:%02d:%02d"\<close>\<close>

definition time_text :: "tm \<Rightarrow> string" where
  "time_text d = pad_left 4 CHR '' '' (show_int (tm_year d + 1900)) @ ''/'' @ fmt_zero 2 (tm_mon d + 1) @ ''/'' @ fmt_zero 2 (tm_mday d)
     @ '' '' @ fmt_zero 2 (tm_hour d) @ '':'' @ fmt_zero 2 (tm_min d) @ '':'' @ fmt_zero 2 (tm_sec d)"

definition time_fields :: "log_env \<Rightarrow> thread_info \<Rightarrow> thread_info \<times> string" where
  "time_fields env ti =
     (let seconds = micro_seconds_since_epoch (env_now env) sdiv kMicroSecondsPerSecond;
          microseconds = micro_seconds_since_epoch (env_now env) smod kMicroSecondsPerSecond;
          tm_time = env_localtime env seconds;
          buf = overwrite (replicate 32 NUL) 0 (snprintf_buf 32 (fmt_zero 6 microseconds @ '' '') @ [NUL])
      in (ti\<lparr>t_time := overwrite (t_time ti) 0 (snprintf_buf 64 (time_text tm_time) @ [NUL]), t_lastSecond := seconds\<rparr>, buf))"

definition FormatTime :: "log_env \<Rightarrow> thread_info \<Rightarrow> fixed_buffer \<Rightarrow> (thread_info \<times> fixed_buffer) result" where
  "FormatTime env ti b =
     (let (ti', buf) = time_fields env ti
      in bindr (put_template \<lparr>gt_data = t_time ti', gt_len = 20\<rparr> b) (\<lambda>b.
         bindr (put_cstr (Some ''.'') b) (\<lambda>b.
         bindr (put_template \<lparr>gt_data = buf, gt_len = 7\<rparr> b) (\<lambda>b. Inr (ti', b)))))"

definition Impl_new :: "log_env \<Rightarrow> log_level \<Rightarrow> int \<Rightarrow> string \<Rightarrow> int \<Rightarrow> thread_info \<Rightarrow> (thread_info \<times> logger) result" where
  "Impl_new env level saved_errno file line ti =
     bindr (FormatTime env ti (FixedBuffer_new (env_junk env))) (\<lambda>(ti, b).
     bindr (put_template \<lparr>gt_data = get_level_name level @ [NUL], gt_len = 6\<rparr> b) (\<lambda>b.
     bindr (if saved_errno \<noteq> 0
            then bindr (put_cstr (Some (GetErrnoMsg env saved_errno)) b) (\<lambda>b.
                 bindr (put_cstr (Some '' (errno='') b) (\<lambda>b.
                 bindr (put_int (word_of_int saved_errno) b) (put_cstr (Some '') ''))))
            else Inr b) (\<lambda>b.
     Inr (ti, \<lparr>lg_stream = b, lg_level = level, lg_line = line, lg_basename = SourceFile file\<rparr>))))"

definition Finish :: "logger \<Rightarrow> logger result" where
  "Finish lg =
     bindr (put_cstr (Some '' - '') (lg_stream lg)) (\<lambda>b.
     bindr (put_template \<lparr>gt_data = sf_data (lg_basename lg) @ [NUL], gt_len = sf_size (lg_basename lg)\<rparr> b) (\<lambda>b.
     bindr (put_char CHR '':'' b) (\<lambda>b.
     bindr (put_int (word_of_int (lg_line lg)) b) (\<lambda>b.
     bindr (put_char CHR ''\<newline>'' b) (\<lambda>b. Inr (lg\<lparr>lg_stream := b\<rparr>))))))"

text \<open>The four constructors.\<close>

definition Logger_info :: "log_env \<Rightarrow> string \<Rightarrow> int \<Rightarrow> thread_info \<Rightarrow> (thread_info \<times> logger) result" where
  "Logger_info env file line = Impl_new env INFO 0 file line"

definition Logger_level :: "log_env \<Rightarrow> string \<Rightarrow> int \<Rightarrow> log_level \<Rightarrow> thread_info \<Rightarrow> (thread_info \<times> logger) result" where
  "Logger_level env file line level = Impl_new env level 0 file line"

definition Logger_func :: "log_env \<Rightarrow> string \<Rightarrow> int \<Rightarrow> log_level \<Rightarrow> string \<Rightarrow> thread_info \<Rightarrow> (thread_info \<times> logger) result" where
  "Logger_func env file line level func ti =
     bindr (Impl_new env level 0 file line ti) (\<lambda>(ti, lg).
     bindr (put_cstr (Some func) (lg_stream lg)) (\<lambda>b.
     bindr (put_char CHR '' '' b) (\<lambda>b. Inr (ti, lg\<lparr>lg_stream := b\<rparr>))))"

definition Logger_sys :: "log_env \<Rightarrow> string \<Rightarrow> int \<Rightarrow> bool \<Rightarrow> thread_info \<Rightarrow> (thread_info \<times> logger) result" where
  "Logger_sys env file line to_abort = Impl_new env (if to_abort then FATAL else ERROR) (env_errno env) file line"

text \<open>The destructor: what it hands to \<open>g_output\<close>, and whether it flushes and aborts.\<close>

datatype log_effect = Output string | Flush | Abort

definition Logger_destroy :: "logger \<Rightarrow> log_effect list result" where
  "Logger_destroy lg =
     bindr (Finish lg) (\<lambda>lg.
       let buf = lg_stream lg
       in Inr (Output (take (nat (Length buf)) (fb_data buf)) # (if lg_level lg = FATAL then [Flush, Abort] else [])))"

section \<open>The macros\<close>

datatype log_macro = LOG_TRACE | LOG_DEBUG | LOG_INFO | LOG_WARN | LOG_ERROR | LOG_FATAL | LOG_SYSERR | LOG_SYSFATAL

fun macro_enabled :: "log_level \<Rightarrow> log_macro \<Rightarrow> bool" where
  "macro_enabled g LOG_TRACE = (level_value g \<le> level_value TRACE)"
| "macro_enabled g LOG_DEBUG = (level_value g \<le> level_value DEBUG)"
| "macro_enabled g LOG_INFO = (level_value g \<le> level_value INFO)"
| "macro_enabled g _ = True"

fun macro_logger :: "log_env \<Rightarrow> string \<Rightarrow> int \<Rightarrow> string \<Rightarrow> log_macro \<Rightarrow> thread_info \<Rightarrow> (thread_info \<times> logger) result" where
  "macro_logger env file line func LOG_TRACE = Logger_func env file line TRACE func"
| "macro_logger env file line func LOG_DEBUG = Logger_func env file line DEBUG func"
| "macro_logger env file line func LOG_INFO = Logger_info env file line"
| "macro_logger env file line func LOG_WARN = Logger_level env file line WARN"
| "macro_logger env file line func LOG_ERROR = Logger_level env file line ERROR"
| "macro_logger env file line func LOG_FATAL = Logger_level env file line FATAL"
| "macro_logger env file line func LOG_SYSERR = Logger_sys env file line False"
| "macro_logger env file line func LOG_SYSFATAL = Logger_sys env file line True"

text \<open>A whole statement \<open>LOG_X << a << b;\<close>\<close>

definition log_statement :: "('d \<Rightarrow> string) \<Rightarrow> log_level \<Rightarrow> log_env \<Rightarrow> string \<Rightarrow> int \<Rightarrow> string \<Rightarrow> log_macro \<Rightarrow> 'd log_item list
    \<Rightarrow> thread_info \<Rightarrow> (thread_info \<times> log_effect list) result" where
  "log_statement fmt g_LogLevel env file line func m items ti =
     (if macro_enabled g_LogLevel m
      then bindr (macro_logger env file line func m ti) (\<lambda>(ti, lg).
           bindr (foldr_result (put_item fmt) (lg_stream lg) items) (\<lambda>b.
           bindr (Logger_destroy (lg\<lparr>lg_stream := b\<rparr>)) (\<lambda>es. Inr (ti, es))))
      else Inr (ti, []))"

section \<open>A statement as one sequence of insertions\<close>

fun macro_level :: "log_macro \<Rightarrow> log_level" where
  "macro_level LOG_TRACE = TRACE" | "macro_level LOG_DEBUG = DEBUG" | "macro_level LOG_INFO = INFO" | "macro_level LOG_WARN = WARN"
| "macro_level LOG_ERROR = ERROR" | "macro_level LOG_FATAL = FATAL" | "macro_level LOG_SYSERR = ERROR" | "macro_level LOG_SYSFATAL = FATAL"

definition time_items :: "log_env \<Rightarrow> thread_info \<Rightarrow> 'd log_item list" where
  "time_items env ti =
     [Template_item \<lparr>gt_data = t_time (fst (time_fields env ti)), gt_len = 20\<rparr>, Cstr_item (Some ''.''),
      Template_item \<lparr>gt_data = snd (time_fields env ti), gt_len = 7\<rparr>]"

definition level_items :: "log_env \<Rightarrow> string \<Rightarrow> log_macro \<Rightarrow> 'd log_item list" where
  "level_items env func m =
     Template_item \<lparr>gt_data = get_level_name (macro_level m) @ [NUL], gt_len = 6\<rparr>
     # (if m \<in> {LOG_TRACE, LOG_DEBUG} then [Cstr_item (Some func), Char_item CHR '' '']
        else if m \<in> {LOG_SYSERR, LOG_SYSFATAL} \<and> env_errno env \<noteq> 0
        then [Cstr_item (Some (env_strerror env (env_errno env))), Cstr_item (Some '' (errno=''), Int_item (sint (word_of_int (env_errno env) :: 32 word)),
              Cstr_item (Some '') '')]
        else [])"

definition finish_items :: "string \<Rightarrow> int \<Rightarrow> 'd log_item list" where
  "finish_items file line =
     [Cstr_item (Some '' - ''), Template_item \<lparr>gt_data = sf_data (SourceFile file) @ [NUL], gt_len = sf_size (SourceFile file)\<rparr>,
      Char_item CHR '':'', Int_item (sint (word_of_int line :: 32 word)), Char_item CHR ''\<newline>'']"

definition statement_items :: "log_env \<Rightarrow> thread_info \<Rightarrow> string \<Rightarrow> int \<Rightarrow> string \<Rightarrow> log_macro \<Rightarrow> 'd log_item list \<Rightarrow> 'd log_item list" where
  "statement_items env ti file line func m items = time_items env ti @ level_items env func m @ items @ finish_items file line"

definition logger_effects :: "log_level \<Rightarrow> fixed_buffer \<Rightarrow> log_effect list" where
  "logger_effects level b = Output (take (nat (Length b)) (fb_data b)) # (if level = FATAL then [Flush, Abort] else [])"

lemmas item_defs = time_items_def level_items_def finish_items_def

lemma macro_logger_items:
  "macro_logger env file line func m ti =
     bindr (foldr_result (put_item fmt) (FixedBuffer_new (env_junk env)) (time_items env ti @ level_items env func m)) (\<lambda>b.
       Inr (fst (time_fields env ti), \<lparr>lg_stream = b, lg_level = macro_level m, lg_line = line, lg_basename = SourceFile file\<rparr>))"
  by (cases m) (simp_all add: Logger_func_def Logger_info_def Logger_level_def Logger_sys_def Impl_new_def FormatTime_def
      GetErrnoMsg_def put_int_def bindr_assoc item_defs case_prod_unfold Let_def)

lemma Logger_destroy_items:
  "Logger_destroy \<lparr>lg_stream = b, lg_level = level, lg_line = line, lg_basename = SourceFile file\<rparr> =
     bindr (foldr_result (put_item fmt) b (finish_items file line)) (\<lambda>b. Inr (logger_effects level b))"
  by (simp add: Logger_destroy_def Finish_def item_defs logger_effects_def put_int_def bindr_assoc Let_def)

lemma log_statement_items:
  assumes "macro_enabled g m"
  shows "log_statement fmt g env file line func m items ti =
     bindr (foldr_result (put_item fmt) (FixedBuffer_new (env_junk env)) (statement_items env ti file line func m items)) (\<lambda>b.
       Inr (fst (time_fields env ti), logger_effects (macro_level m) b))"
  using assms by (simp add: log_statement_def macro_logger_items [where fmt = fmt] Logger_destroy_items [where fmt = fmt]
      statement_items_def foldr_result_append bindr_assoc)

section \<open>The line\<close>

lemma length_fmt_zero: "0 \<le> i \<Longrightarrow> nat i < 10 ^ w \<Longrightarrow> 0 < w \<Longrightarrow> length (fmt_zero w i) = w"
  using length_show_nat [of "nat i" w] by (simp add: fmt_zero_def pad_left_def)

definition tm_ok :: "tm \<Rightarrow> bool" where
  "tm_ok d \<longleftrightarrow> - 1900 \<le> tm_year d \<and> tm_year d < 8100 \<and> tm_mon d \<in> {0..11} \<and> tm_mday d \<in> {1..31} \<and> tm_hour d \<in> {0..23}
     \<and> tm_min d \<in> {0..59} \<and> tm_sec d \<in> {0..60}"

lemma length_time_text: "tm_ok d \<Longrightarrow> length (time_text d) = 19"
proof -
  assume d: "tm_ok d"
  then have "length (show_int (tm_year d + 1900)) \<le> 4"
    using length_show_nat [of "nat (tm_year d + 1900)" 4] by (auto simp: tm_ok_def show_int_def)
  with d show ?thesis by (simp add: tm_ok_def time_text_def length_fmt_zero pad_left_def nat_less_iff)
qed

definition env_ok :: "log_env \<Rightarrow> thread_info \<Rightarrow> bool" where
  "env_ok env ti \<longleftrightarrow> 0 \<le> micro_seconds_since_epoch (env_now env) \<and> (\<forall>s. tm_ok (env_localtime env s))
     \<and> length (env_junk env) = kSmallBuffer \<and> length (t_time ti) = 64"

text \<open>The 27 bytes of the time: 19 of the date, a NUL, a point, six digits and a blank.\<close>

definition time_bytes :: "log_env \<Rightarrow> string" where
  "time_bytes env =
     time_text (env_localtime env (micro_seconds_since_epoch (env_now env) div 1000000)) @ [NUL] @ ''.''
     @ fmt_zero 6 (micro_seconds_since_epoch (env_now env) mod 1000000) @ '' ''"

lemma time_fields_bytes:
  assumes "env_ok env ti"
  shows "take 20 (t_time (fst (time_fields env ti))) @ ''.'' @ take 7 (snd (time_fields env ti)) = time_bytes env"
    "length (t_time (fst (time_fields env ti))) = 64" "length (snd (time_fields env ti)) = 32"
proof -
  let ?t = "micro_seconds_since_epoch (env_now env)"
  have t: "?t sdiv 1000000 = ?t div 1000000" "?t smod 1000000 = ?t mod 1000000"
    using assms sdiv_smod_nonneg [of ?t 1000000] by (simp_all add: env_ok_def)
  have l: "length (time_text (env_localtime env (?t div 1000000))) = 19" using assms by (simp add: env_ok_def length_time_text)
  have m: "length (fmt_zero 6 (?t mod 1000000)) = 6" by (rule length_fmt_zero) (simp_all add: nat_less_iff)
  show "take 20 (t_time (fst (time_fields env ti))) @ ''.'' @ take 7 (snd (time_fields env ti)) = time_bytes env"
    using l m by (simp add: time_fields_def time_bytes_def t kMicroSecondsPerSecond_def snprintf_buf_def overwrite_def Let_def)
  show "length (t_time (fst (time_fields env ti))) = 64" "length (snd (time_fields env ti)) = 32"
    using l m assms by (simp_all add: time_fields_def t kMicroSecondsPerSecond_def snprintf_buf_def env_ok_def Let_def)
qed

lemma shown_all:
  assumes "length (concat (map (item_text fmt) xs)) + 48 \<le> r"
  shows "shown fmt r xs = concat (map (item_text fmt) xs)"
  using assms
proof (induction xs arbitrary: r)
  case (Cons x xs)
  have "item_room fmt x \<le> length (item_text fmt x) + 48" by (cases x) simp_all
  with Cons show ?case by simp
qed simp

lemma statement_items_ok:
  assumes "env_ok env ti" and "length file < 2 ^ 31" and "\<And>x. x \<in> set items \<Longrightarrow> item_ok fmt x \<and> \<not> is_double x"
    and "x \<in> set (statement_items env ti file line func m items)"
  shows "item_ok fmt x \<and> \<not> is_double x"
proof -
  have sf: "length (sf_data (SourceFile file)) < 2 ^ 31" "sf_size (SourceFile file) = int (length (sf_data (SourceFile file)))"
    using assms(2) length_takeWhile_le [of "\<lambda>x. x \<noteq> CHR ''/''" "rev file"]
    by (auto simp: SourceFile_def strrchr_def Let_def int_of_size_eq)
  have "- (2 ^ 63) \<le> sint w" "sint w < 2 ^ 64" for w :: "32 word"
    using sint_greater_eq [of w] sint_less [of w] by simp_all
  moreover have "length (get_level_name l) = 6" for l by (cases l) simp_all
  ultimately show ?thesis using assms(3,4) sf time_fields_bytes(2,3) [OF assms(1)]
    by (auto simp: statement_items_def item_defs split: if_splits)
qed

lemma put_item_length: "put_item fmt b x = Inr b' \<Longrightarrow> length (fb_data b') = length (fb_data b)"
  by (cases x) (auto simp: FormatInteger_def put_double_def put_char_def put_pointer_def put_cstr_def put_string_def put_buffer_def
      put_template_def Fixed_Append_def write_current_def Add_def Let_def split: if_splits option.splits)

lemma stream_run_length: "foldr_result (put_item fmt) b xs = Inr b' \<Longrightarrow> length (fb_data b') = length (fb_data b)"
  by (erule foldr_result_invariant) (simp_all add: put_item_length)

fun context_text :: "log_env \<Rightarrow> string \<Rightarrow> log_macro \<Rightarrow> string" where
  "context_text env func m =
     (if m \<in> {LOG_TRACE, LOG_DEBUG} then func @ '' ''
      else if m \<in> {LOG_SYSERR, LOG_SYSFATAL} \<and> env_errno env \<noteq> 0
      then env_strerror env (env_errno env) @ '' (errno='' @ show_int (env_errno env) @ '') '' else '''')"

definition line_text :: "('d \<Rightarrow> string) \<Rightarrow> log_env \<Rightarrow> string \<Rightarrow> int \<Rightarrow> string \<Rightarrow> log_macro \<Rightarrow> 'd log_item list \<Rightarrow> string" where
  "line_text fmt env file line func m items =
     time_bytes env @ get_level_name (macro_level m) @ context_text env func m @ concat (map (item_text fmt) items)
     @ '' - '' @ sf_data (SourceFile file) @ '':'' @ show_int line @ ''\<newline>''"

lemma sint_word_of_int_32: "- (2 ^ 31) \<le> i \<Longrightarrow> i < 2 ^ 31 \<Longrightarrow> sint (word_of_int i :: 32 word) = i"
  by (simp add: sint_sbintrunc' signed_take_bit_int_eq_self)

lemma statement_items_text:
  assumes "env_ok env ti" and "length file < 2 ^ 31" and "- (2 ^ 31) \<le> line" "line < 2 ^ 31" and "- (2 ^ 31) \<le> env_errno env" "env_errno env < 2 ^ 31"
  shows "concat (map (item_text fmt) (statement_items env ti file line func m items)) = line_text fmt env file line func m items"
proof -
  have sf: "sf_size (SourceFile file) = int (length (sf_data (SourceFile file)))"
    using assms(2) length_takeWhile_le [of "\<lambda>x. x \<noteq> CHR ''/''" "rev file"]
    by (auto simp: SourceFile_def strrchr_def Let_def int_of_size_eq)
  have l: "length (get_level_name l) = 6" for l by (cases l) simp_all
  have t: "concat (map (item_text fmt) (time_items env ti)) = time_bytes env"
    using time_fields_bytes(1) [OF assms(1)] by (simp add: time_items_def)
  show ?thesis
    using sf assms(3-6) by (simp add: statement_items_def t line_text_def level_items_def finish_items_def l sint_word_of_int_32)
qed

section \<open>Properties\<close>

text \<open>
  Property C33. A log statement whose line leaves 48 bytes of the stream buffer free is printed whole: the line is the time (with a NUL
  byte after the date, since the source copies 20 bytes of a text of 19), the level, the function name or the error
  of the system, the insertions in order and the position. The output function however always receives
  \<open>kSmallBuffer\<close> bytes: behind the line it gets whatever the buffer held. A FATAL statement flushes and aborts
  after its output.
\<close>

theorem log_statement_output:
  assumes "macro_enabled g m" and "env_ok env ti" and "length file < 2 ^ 31" and "line \<in> {- (2 ^ 31)..<2 ^ 31}" and "env_errno env \<in> {- (2 ^ 31)..<2 ^ 31}"
    and "\<And>x. x \<in> set items \<Longrightarrow> item_ok fmt x \<and> \<not> is_double x" and "length (line_text fmt env file line func m items) + 48 \<le> kSmallBuffer"
  shows "\<exists>ti' rest. log_statement fmt g env file line func m items ti
      = Inr (ti', Output (line_text fmt env file line func m items @ rest) # (if macro_level m = FATAL then [Flush, Abort] else []))
    \<and> length (line_text fmt env file line func m items @ rest) = kSmallBuffer \<and> t_lastSecond ti' = micro_seconds_since_epoch (env_now env) div 1000000"
proof -
  let ?xs = "statement_items env ti file line func m items" and ?b = "FixedBuffer_new (env_junk env)"
  have b: "fb_ok ?b" "fb_content ?b = ''''" "fb_room ?b = kSmallBuffer" "length (fb_data ?b) = kSmallBuffer"
    using assms(2) by (simp_all add: fb_ok_def fb_content_def fb_room_def FixedBuffer_new_def env_ok_def kSmallBuffer_def)
  have txt_eq: "concat (map (item_text fmt) ?xs) = line_text fmt env file line func m items"
    using assms(4,5) by (intro statement_items_text assms) auto
  have sh: "shown fmt kSmallBuffer ?xs = line_text fmt env file line func m items"
    using shown_all [of fmt ?xs kSmallBuffer] assms(7) by (simp add: txt_eq)
  have "\<And>x. x \<in> set ?xs \<Longrightarrow> item_ok fmt x \<and> \<not> is_double x" by (rule statement_items_ok [OF assms(2,3,6)])
  from stream_run [OF b(1), of ?xs fmt, OF this] obtain b' where
    b': "foldr_result (put_item fmt) ?b ?xs = Inr b'" "fb_content b' = line_text fmt env file line func m items"
    by (auto simp: b(2,3) sh)
  have len: "length (fb_data b') = kSmallBuffer" using stream_run_length [OF b'(1)] b(4) by simp
  have all: "take (nat (Length b')) (fb_data b') = line_text fmt env file line func m items @ drop (fb_curr b') (fb_data b')"
    using b'(2) by (simp add: Length_def len kSmallBuffer_def int_of_size_eq fb_content_def flip: b'(2))
  have sec: "t_lastSecond (fst (time_fields env ti)) = micro_seconds_since_epoch (env_now env) div 1000000"
    using assms(2) sdiv_smod_nonneg [of "micro_seconds_since_epoch (env_now env)" 1000000]
    by (simp add: time_fields_def Let_def env_ok_def kMicroSecondsPerSecond_def)
  have "length (line_text fmt env file line func m items @ drop (fb_curr b') (fb_data b')) = kSmallBuffer"
    using len by (simp flip: all) (simp add: Length_def int_of_size_eq kSmallBuffer_def)
  with sec show ?thesis unfolding log_statement_items [OF assms(1)] logger_effects_def b'(1) all bindr.simps
    by (intro exI [of _ "fst (time_fields env ti)"] exI [of _ "drop (fb_curr b') (fb_data b')"]) simp
qed

theorem log_statement_output_witness:
  "\<exists>ti' rest. log_statement (\<lambda>v :: unit. '''') INFO
      \<lparr>env_now = Timestamp 1500000, env_localtime = (\<lambda>_. \<lparr>tm_year = 70, tm_mon = 0, tm_mday = 1, tm_hour = 0, tm_min = 0, tm_sec = 1\<rparr>),
       env_errno = 0, env_strerror = (\<lambda>_. ''''), env_junk = replicate 4000 CHR ''?''\<rparr>
      ''net/a.cc'' 7 ''f'' LOG_FATAL [String_item ''x''] thread_info_init
    = Inr (ti', [Output (''1970/01/01 00:00:01'' @ [NUL] @ ''.500000 FATAL x - a.cc:7\<newline>'' @ rest), Flush, Abort])"
proof -
  let ?tm = "\<lparr>tm_year = 70, tm_mon = 0, tm_mday = 1, tm_hour = 0, tm_min = 0, tm_sec = 1\<rparr>"
  let ?env = "\<lparr>env_now = Timestamp 1500000, env_localtime = (\<lambda>_. ?tm), env_errno = 0, env_strerror = (\<lambda>_. ''''), env_junk = replicate 4000 CHR ''?''\<rparr>"
  have e: "env_ok ?env thread_info_init" by (simp add: env_ok_def tm_ok_def kSmallBuffer_def thread_info_init_def)
  have "time_text ?tm = ''1970/01/01 00:00:01''" "fmt_zero 6 500000 = ''500000''" "show_int 7 = ''7''" "sf_data (SourceFile ''net/a.cc'') = ''a.cc''"
    by (simp_all add: time_text_def fmt_zero_def pad_left_def show_int_def show_nat.simps digit_char_literals SourceFile_def strrchr_def)
  then have t: "line_text (\<lambda>v :: unit. '''') ?env ''net/a.cc'' 7 ''f'' LOG_FATAL [String_item ''x'']
      = ''1970/01/01 00:00:01'' @ [NUL] @ ''.500000 FATAL x - a.cc:7\<newline>''"
    by (simp add: line_text_def time_bytes_def)
  show ?thesis
    using log_statement_output [of INFO LOG_FATAL ?env thread_info_init "''net/a.cc''" 7 "[String_item ''x'']" "\<lambda>v :: unit. ''''" "''f''"] e
    unfolding t by (auto simp: kSmallBuffer_def)
qed

end
