(* ===== verification/Log_File.thy ===== *)
theory Log_File
  imports Timestamp
begin

text \<open>
  \<open>logger/file_util.{h,cc}\<close> and \<open>logger/log_file.{h,cc}\<close>: appending to a file through \<open>stdio\<close>, and the log that starts a new
  file when the current one is too large or the day changes. The answers of \<open>fopen\<close>, \<open>fwrite_unlocked\<close>, the clock and
  \<open>localtime\<close> are arguments. A \<open>FileUtil\<close> holds the bytes it gave to \<open>stdio\<close>; since files are opened for
  appending, the contents of a file name are those of all the objects opened under it, in order.
\<close>

section \<open>FileUtil\<close>

record file_util =
  fu_name :: string
  fu_bytes :: string          \<comment> \<open>given to \<open>stdio\<close> so far\<close>
  fu_flushed :: nat           \<comment> \<open>how many of them a flush has covered\<close>
  written_bytes :: int

text \<open>\<open>fopened\<close> says whether \<open>fopen\<close> succeeds; its result is given to \<open>setbuffer\<close> unchecked.\<close>

definition FileUtil_new :: "bool \<Rightarrow> string \<Rightarrow> file_util result" where
  "FileUtil_new fopened fileName =
     (if fopened then Inr \<lparr>fu_name = fileName, fu_bytes = [], fu_flushed = 0, written_bytes = 0\<rparr> else Inl Null_pointer)"

text \<open>\<open>fwrite\<close> takes at most what it is given; \<open>fw i\<close> is what it would take in call \<open>i\<close>.\<close>

definition FileUtil_Write :: "(nat \<Rightarrow> nat) \<Rightarrow> nat \<Rightarrow> string \<Rightarrow> file_util \<Rightarrow> nat \<times> file_util" where
  "FileUtil_Write fw i data f = (let n = min (fw i) (length data) in (n, f\<lparr>fu_bytes := fu_bytes f @ take n data\<rparr>))"

partial_function (option) append_loop :: "(nat \<Rightarrow> nat) \<Rightarrow> nat \<Rightarrow> string \<Rightarrow> nat \<Rightarrow> file_util \<Rightarrow> (nat \<times> file_util) option" where
  "append_loop fw i data written f =
     (if written = length data then Some (written, f)
      else let (n, f) = FileUtil_Write fw i (drop written data) f
           in append_loop fw (Suc i) data (written + n) f)"

definition FileUtil_Append :: "(nat \<Rightarrow> nat) \<Rightarrow> string \<Rightarrow> file_util \<Rightarrow> file_util option" where
  "FileUtil_Append fw data f =
     map_option (\<lambda>(written, f). f\<lparr>written_bytes := written_bytes f + int written\<rparr>) (append_loop fw 0 data 0 f)"

definition FileUtil_Flush :: "file_util \<Rightarrow> file_util" where
  "FileUtil_Flush f = f\<lparr>fu_flushed := length (fu_bytes f)\<rparr>"

section \<open>LogFile\<close>

definition kRollPerSeconds :: int where "kRollPerSeconds = 60 * 60 * 24"

record log_file =
  basename :: string
  roll_size :: int
  flush_interval :: int
  check_every_n :: int
  lf_count :: int
  start_of_period :: int
  last_roll :: int
  last_flush :: int
  lf_file :: "file_util option"
  lf_closed :: "file_util list"    \<comment> \<open>the objects \<open>file_.reset\<close> destroyed, in order\<close>

text \<open>\<open>strftime\<close> with \<open>".%Y%m%d-%H%M%S"\<close>.\<close>

definition GetLogFileName :: "(int \<Rightarrow> tm) \<Rightarrow> string \<Rightarrow> int \<Rightarrow> string" where
  "GetLogFileName localtime base now =
     (let d = localtime now
      in base @ ''.'' @ show_int (tm_year d + 1900) @ fmt_zero 2 (tm_mon d + 1) @ fmt_zero 2 (tm_mday d) @ ''-''
         @ fmt_zero 2 (tm_hour d) @ fmt_zero 2 (tm_min d) @ fmt_zero 2 (tm_sec d) @ ''.log'')"

definition RollFile :: "(int \<Rightarrow> tm) \<Rightarrow> bool \<Rightarrow> int \<Rightarrow> log_file \<Rightarrow> (log_file \<times> bool) result" where
  "RollFile localtime fopened now lf =
     (let filename = GetLogFileName localtime (basename lf) now;
          start = now sdiv kRollPerSeconds * kRollPerSeconds
      in if now > last_roll lf
         then let lf = lf\<lparr>last_roll := now, last_flush := now, start_of_period := start\<rparr>
              in bindr (FileUtil_new fopened filename) (\<lambda>f.
                   Inr (lf\<lparr>lf_closed := lf_closed lf @ (case lf_file lf of Some f \<Rightarrow> [f] | None \<Rightarrow> []), lf_file := Some f\<rparr>, True))
         else Inr (lf, False))"

definition LogFile_new :: "(int \<Rightarrow> tm) \<Rightarrow> bool \<Rightarrow> int \<Rightarrow> string \<Rightarrow> int \<Rightarrow> int \<Rightarrow> int \<Rightarrow> log_file result" where
  "LogFile_new localtime fopened now base rollSize flushInterval checkEveryN =
     bindr (RollFile localtime fopened now
       \<lparr>basename = base, roll_size = rollSize, flush_interval = flushInterval, check_every_n = checkEveryN, lf_count = 0,
        start_of_period = 0, last_roll = 0, last_flush = 0, lf_file = None, lf_closed = []\<rparr>) (\<lambda>r. Inr (fst r))"

text \<open>
  \<open>AppendInLock\<close>: \<open>now\<close> is the time it reads itself, \<open>roll_now\<close> the time \<open>RollFile\<close> reads. The outer \<open>option\<close> is
  the loop in \<open>FileUtil::Append\<close> that may not end.
\<close>

definition after_append :: "(int \<Rightarrow> tm) \<Rightarrow> bool \<Rightarrow> int \<Rightarrow> int \<Rightarrow> file_util \<Rightarrow> log_file \<Rightarrow> log_file result" where
  "after_append localtime fopened now roll_now f lf =
     (let lf = lf\<lparr>lf_file := Some f\<rparr>
      in if written_bytes f > roll_size lf then bindr (RollFile localtime fopened roll_now lf) (\<lambda>r. Inr (fst r))
         else let lf = lf\<lparr>lf_count := lf_count lf + 1\<rparr>
              in if lf_count lf \<ge> check_every_n lf
                 then let lf = lf\<lparr>lf_count := 0\<rparr>;
                          thisPeriod = now sdiv kRollPerSeconds * kRollPerSeconds
                      in if thisPeriod \<noteq> start_of_period lf then bindr (RollFile localtime fopened roll_now lf) (\<lambda>r. Inr (fst r))
                         else if now - last_flush lf > flush_interval lf
                         then Inr (lf\<lparr>last_flush := now, lf_file := Some (FileUtil_Flush f)\<rparr>)
                         else Inr lf
                 else Inr lf)"

definition AppendInLock :: "(int \<Rightarrow> tm) \<Rightarrow> bool \<Rightarrow> (nat \<Rightarrow> nat) \<Rightarrow> int \<Rightarrow> int \<Rightarrow> string \<Rightarrow> log_file \<Rightarrow> log_file result option" where
  "AppendInLock localtime fopened fw now roll_now data lf =
     (case lf_file lf of
        None \<Rightarrow> Some (Inl Null_pointer)
      | Some f \<Rightarrow> map_option (\<lambda>f. after_append localtime fopened now roll_now f lf) (FileUtil_Append fw data f))"

definition LogFile_Flush :: "log_file \<Rightarrow> log_file result" where
  "LogFile_Flush lf = (case lf_file lf of None \<Rightarrow> Inl Null_pointer | Some f \<Rightarrow> Inr (lf\<lparr>lf_file := Some (FileUtil_Flush f)\<rparr>))"

text \<open>A run: the appended texts with the answers of \<open>fopen\<close>, \<open>fwrite\<close> and the clock.\<close>

record append_call =
  ac_data :: string
  ac_fopened :: bool
  ac_fw :: "nat \<Rightarrow> nat"
  ac_now :: int
  ac_roll_now :: int

fun append_run :: "(int \<Rightarrow> tm) \<Rightarrow> log_file \<Rightarrow> append_call list \<Rightarrow> log_file result option" where
  "append_run localtime lf [] = Some (Inr lf)"
| "append_run localtime lf (c # cs) =
     (case AppendInLock localtime (ac_fopened c) (ac_fw c) (ac_now c) (ac_roll_now c) (ac_data c) lf of
        Some (Inr lf') \<Rightarrow> append_run localtime lf' cs
      | r \<Rightarrow> r)"

section \<open>Lemmas: the append loop\<close>

text \<open>How much of \<open>len\<close> bytes the calls \<open>i, \<dots>, i + k - 1\<close> take.\<close>

fun taken :: "(nat \<Rightarrow> nat) \<Rightarrow> nat \<Rightarrow> nat \<Rightarrow> nat" where
  "taken fw i 0 = 0"
| "taken fw i (Suc k) = fw i + taken fw (Suc i) k"

lemma append_loop_ends:
  assumes "length data \<le> written + taken fw i k" and "written \<le> length data"
  shows "append_loop fw i data written f = Some (length data, f\<lparr>fu_bytes := fu_bytes f @ drop written data\<rparr>)"
  using assms
proof (induction k arbitrary: i written f)
  case 0
  then show ?case by (simp add: append_loop.simps)
next
  case (Suc k)
  show ?case
  proof (cases "written = length data")
    case False
    define n where "n = min (fw i) (length data - written)"
    have "length data \<le> (written + n) + taken fw (Suc i) k" "written + n \<le> length data"
      using Suc.prems by (auto simp: n_def)
    from Suc.IH [OF this] have "append_loop fw (Suc i) data (written + n) (f\<lparr>fu_bytes := fu_bytes f @ take n (drop written data)\<rparr>)
        = Some (length data, f\<lparr>fu_bytes := fu_bytes f @ take n (drop written data) @ drop n (drop written data)\<rparr>)"
      by (simp add: add.commute)
    then have "append_loop fw (Suc i) data (written + n) (f\<lparr>fu_bytes := fu_bytes f @ take n (drop written data)\<rparr>)
        = Some (length data, f\<lparr>fu_bytes := fu_bytes f @ drop written data\<rparr>)"
      by (simp only: append_take_drop_id)
    with False show ?thesis
      by (subst append_loop.simps) (simp add: FileUtil_Write_def Let_def n_def)
  qed (simp add: append_loop.simps)
qed

lemma append_loop_taken:
  assumes "append_loop fw i data written f = Some r"
  shows "\<exists>k. length data \<le> written + taken fw i k"
proof (rule append_loop.raw_induct [where P = "\<lambda>fw i data written f r. \<exists>k. length data \<le> written + taken fw i k", OF _ assms])
  fix al fw i and data :: string and written and f :: file_util and r
  assume IH: "\<And>fw i data written f r. al fw i data written f = Some r \<Longrightarrow> \<exists>k. length data \<le> written + taken fw i k"
    and eq: "(if written = length data then Some (written, f)
      else let (n, f) = FileUtil_Write fw i (drop written data) f in al fw (Suc i) data (written + n) f) = Some r"
  show "\<exists>k. length data \<le> written + taken fw i k"
  proof (cases "written = length data")
    case True
    then show ?thesis by (intro exI [of _ 0]) simp
  next
    case False
    with eq obtain f' where "al fw (Suc i) data (written + min (fw i) (length data - written)) f' = Some r"
      by (auto simp: FileUtil_Write_def Let_def)
    from IH [OF this] obtain k where "length data \<le> written + min (fw i) (length data - written) + taken fw (Suc i) k" by blast
    then have "length data \<le> written + taken fw i (Suc k)" by simp
    then show ?thesis by blast
  qed
qed

lemma FileUtil_Append_ok:
  assumes "length data \<le> taken fw 0 k"
  shows "FileUtil_Append fw data f = Some (f\<lparr>fu_bytes := fu_bytes f @ data, written_bytes := written_bytes f + int (length data)\<rparr>)"
  using append_loop_ends [of data 0 fw 0 k f] assms by (simp add: FileUtil_Append_def)

section \<open>Lemmas: the log\<close>

definition lf_files :: "log_file \<Rightarrow> file_util list" where
  "lf_files lf = lf_closed lf @ (case lf_file lf of Some f \<Rightarrow> [f] | None \<Rightarrow> [])"

definition lf_ok :: "log_file \<Rightarrow> bool" where
  "lf_ok lf \<longleftrightarrow> (\<exists>f. lf_file lf = Some f \<and> written_bytes f = int (length (fu_bytes f)))"

text \<open>
  One append: the bytes are added behind all others. Either the file stays, which it does unless it is small enough or the
  clock stands still, or the log goes on with a new one, which needs a clock that has moved on and fails without \<open>fopen\<close>.
\<close>

definition append_result :: "bool \<Rightarrow> int \<Rightarrow> string \<Rightarrow> log_file \<Rightarrow> file_util \<Rightarrow> log_file result \<Rightarrow> bool" where
  "append_result fopened roll_now data lf f r =
     (case r of
        Inl e \<Rightarrow> e = Null_pointer \<and> \<not> fopened
      | Inr lf' \<Rightarrow> lf_ok lf' \<and> roll_size lf' = roll_size lf
          \<and> (lf_closed lf' = lf_closed lf \<and> last_roll lf' = last_roll lf \<and> (\<exists>h. lf_file lf' = Some h \<and> fu_bytes h = fu_bytes f @ data)
               \<and> (last_roll lf < roll_now \<longrightarrow> int (length (fu_bytes f @ data)) \<le> roll_size lf)
             \<or> last_roll lf < roll_now \<and> last_roll lf' = roll_now
               \<and> (\<exists>g h. lf_closed lf' = lf_closed lf @ [g] \<and> fu_bytes g = fu_bytes f @ data \<and> lf_file lf' = Some h \<and> fu_bytes h = [])))"

lemma AppendInLock_step:
  assumes "lf_ok lf" and "length data \<le> taken fw 0 k"
  shows "\<exists>r f. AppendInLock localtime fopened fw now roll_now data lf = Some r \<and> lf_file lf = Some f \<and> append_result fopened roll_now data lf f r"
proof -
  from assms(1) obtain f where f: "lf_file lf = Some f" "written_bytes f = int (length (fu_bytes f))" by (auto simp: lf_ok_def)
  define g where "g = f\<lparr>fu_bytes := fu_bytes f @ data, written_bytes := written_bytes f + int (length data)\<rparr>"
  have g: "fu_bytes g = fu_bytes f @ data" "written_bytes g = int (length (fu_bytes f @ data))" using f(2) by (simp_all add: g_def)
  have roll: "append_result fopened roll_now data lf f (bindr (RollFile localtime fopened roll_now (lf\<lparr>lf_file := Some g, lf_count := n\<rparr>)) (\<lambda>r. Inr (fst r)))" for n
    using g by (simp add: append_result_def RollFile_def FileUtil_new_def Let_def lf_ok_def)
  have "append_result fopened roll_now data lf f (after_append localtime fopened now roll_now g lf)"
  proof (cases "written_bytes g > roll_size lf")
    case True
    then show ?thesis using roll [of "lf_count lf"] by (simp add: after_append_def)
  next
    case False
    then show ?thesis using roll [of 0] g by (simp add: after_append_def Let_def) (auto simp: append_result_def lf_ok_def FileUtil_Flush_def)
  qed
  then show ?thesis using f(1) by (simp add: AppendInLock_def FileUtil_Append_ok [OF assms(2)] g_def)
qed

lemma append_result_bytes:
  assumes "append_result fopened roll_now data lf f (Inr lf')" and "lf_file lf = Some f"
  shows "concat (map fu_bytes (lf_files lf')) = concat (map fu_bytes (lf_files lf)) @ data"
  using assms by (auto simp: append_result_def lf_files_def)

text \<open>The bytes appended in second \<open>t\<close>, and the size of the files for a clock that does not go back.\<close>

definition in_second :: "int \<Rightarrow> append_call list \<Rightarrow> nat" where
  "in_second t cs = sum_list (map (\<lambda>c. if ac_roll_now c = t then length (ac_data c) else 0) cs)"

definition sizes_ok :: "int \<Rightarrow> int \<Rightarrow> append_call list \<Rightarrow> log_file \<Rightarrow> bool" where
  "sizes_ok m l cs lf \<longleftrightarrow> (\<forall>f\<in>set (lf_closed lf). int (length (fu_bytes f)) \<le> max (roll_size lf) m + l)
     \<and> (\<forall>f. lf_file lf = Some f \<longrightarrow> int (length (fu_bytes f)) + int (in_second (last_roll lf) cs) \<le> m
          \<or> int (length (fu_bytes f)) \<le> roll_size lf \<and> (\<forall>c\<in>set cs. last_roll lf < ac_roll_now c))"

definition calls_ok :: "int \<Rightarrow> int \<Rightarrow> int \<Rightarrow> append_call list \<Rightarrow> bool" where
  "calls_ok m l start cs \<longleftrightarrow> sorted (start # map ac_roll_now cs) \<and> (\<forall>t. int (in_second t cs) \<le> m) \<and> (\<forall>c\<in>set cs. int (length (ac_data c)) \<le> l)"

lemma calls_ok_Cons:
  assumes "calls_ok m l t (c # cs)"
  shows "calls_ok m l (ac_roll_now c) cs" "calls_ok m l t cs" "t \<le> ac_roll_now c" "int (length (ac_data c)) \<le> l"
    "in_second u (c # cs) = (if ac_roll_now c = u then length (ac_data c) else 0) + in_second u cs" "int (in_second u cs) \<le> m"
    "\<forall>d\<in>set cs. ac_roll_now c \<le> ac_roll_now d"
proof -
  have "int (in_second u cs) \<le> m" for u
    using assms by (auto simp: calls_ok_def in_second_def dest: spec [of _ u] split: if_splits)
  then show "int (in_second u cs) \<le> m" "calls_ok m l (ac_roll_now c) cs" "calls_ok m l t cs" using assms by (auto simp: calls_ok_def)
qed (use assms in \<open>auto simp: calls_ok_def in_second_def\<close>)

lemma append_result_sizes:
  assumes "append_result fopened (ac_roll_now c) (ac_data c) lf f (Inr lf')" and "lf_file lf = Some f"
    and "sizes_ok m l (c # cs) lf" and "calls_ok m l (last_roll lf) (c # cs)"
  shows "sizes_ok m l cs lf' \<and> calls_ok m l (last_roll lf') cs"
proof (cases "last_roll lf < ac_roll_now c")
  case True
  note C = calls_ok_Cons [OF assms(4)]
  have size: "int (length (fu_bytes f)) \<le> max (roll_size lf) m"
    using assms(2,3) C(5,6) [of "last_roll lf"] by (auto simp: sizes_ok_def)
  have closed: "\<forall>g\<in>set (lf_closed lf). int (length (fu_bytes g)) \<le> max (roll_size lf) m + l" using assms(3) by (simp add: sizes_ok_def)
  have ahead: "\<forall>d\<in>set cs. last_roll lf < ac_roll_now d" using C(7) True by fastforce
  from assms(1) consider "lf_closed lf' = lf_closed lf" "last_roll lf' = last_roll lf" "roll_size lf' = roll_size lf"
      "\<exists>h. lf_file lf' = Some h \<and> int (length (fu_bytes h)) \<le> roll_size lf"
    | g h where "last_roll lf' = ac_roll_now c" "roll_size lf' = roll_size lf" "lf_closed lf' = lf_closed lf @ [g]" "fu_bytes g = fu_bytes f @ ac_data c" "lf_file lf' = Some h" "fu_bytes h = []"
    using True unfolding append_result_def by fastforce
  then show ?thesis
  proof cases
    case 1
    then show ?thesis using closed ahead C(2) by (auto simp: sizes_ok_def)
  next
    case 2
    then have "int (length (fu_bytes g)) \<le> max (roll_size lf) m + l" using size C(4) by simp
    with 2 show ?thesis using closed C(1,6) by (auto simp: sizes_ok_def)
  qed
next
  case False
  note C = calls_ok_Cons [OF assms(4)]
  have t: "ac_roll_now c = last_roll lf" using False C(3) by simp
  from assms(1) False have r: "lf_closed lf' = lf_closed lf" "last_roll lf' = last_roll lf" "roll_size lf' = roll_size lf"
      "\<exists>h. lf_file lf' = Some h \<and> fu_bytes h = fu_bytes f @ ac_data c" by (auto simp: append_result_def)
  have "int (length (fu_bytes f)) + int (in_second (last_roll lf) (c # cs)) \<le> m" using assms(2,3) t by (auto simp: sizes_ok_def)
  then have "int (length (fu_bytes f @ ac_data c)) + int (in_second (last_roll lf) cs) \<le> m" using C(5) [of "last_roll lf"] t by simp
  with r assms(3) C(2) show ?thesis by (auto simp: sizes_ok_def)
qed

lemma append_run_ok:
  assumes "lf_ok lf" and "\<And>c. c \<in> set cs \<Longrightarrow> \<exists>k. length (ac_data c) \<le> taken (ac_fw c) 0 k"
  shows "\<exists>r. append_run localtime lf cs = Some r \<and> (case r of
      Inl e \<Rightarrow> e = Null_pointer \<and> (\<exists>c\<in>set cs. \<not> ac_fopened c)
    | Inr lf' \<Rightarrow> concat (map fu_bytes (lf_files lf')) = concat (map fu_bytes (lf_files lf)) @ concat (map ac_data cs) \<and> roll_size lf' = roll_size lf
        \<and> (sizes_ok m l cs lf \<and> calls_ok m l (last_roll lf) cs \<longrightarrow> sizes_ok m l [] lf'))"
  using assms
proof (induction cs arbitrary: lf)
  case (Cons c cs)
  obtain k where k: "length (ac_data c) \<le> taken (ac_fw c) 0 k" using Cons.prems(2) [of c] by auto
  from AppendInLock_step [OF Cons.prems(1) k, of localtime "ac_fopened c" "ac_now c" "ac_roll_now c"] obtain r f where
    r: "AppendInLock localtime (ac_fopened c) (ac_fw c) (ac_now c) (ac_roll_now c) (ac_data c) lf = Some r" "lf_file lf = Some f"
      "append_result (ac_fopened c) (ac_roll_now c) (ac_data c) lf f r" by blast
  show ?case
  proof (cases r)
    case (Inl e)
    then show ?thesis using r by (simp add: append_result_def)
  next
    case (Inr lf1)
    have ok: "lf_ok lf1" "roll_size lf1 = roll_size lf" using r(3) Inr by (simp_all add: append_result_def)
    have bytes: "concat (map fu_bytes (lf_files lf1)) = concat (map fu_bytes (lf_files lf)) @ ac_data c"
      using append_result_bytes r(2,3) Inr by blast
    have sizes: "sizes_ok m l cs lf1 \<and> calls_ok m l (last_roll lf1) cs" if "sizes_ok m l (c # cs) lf \<and> calls_ok m l (last_roll lf) (c # cs)"
      using append_result_sizes [OF _ r(2)] r(3) Inr that by blast
    have "\<exists>r. append_run localtime lf1 cs = Some r \<and> (case r of
        Inl e \<Rightarrow> e = Null_pointer \<and> (\<exists>c\<in>set cs. \<not> ac_fopened c)
      | Inr lf' \<Rightarrow> concat (map fu_bytes (lf_files lf')) = concat (map fu_bytes (lf_files lf1)) @ concat (map ac_data cs) \<and> roll_size lf' = roll_size lf1
          \<and> (sizes_ok m l cs lf1 \<and> calls_ok m l (last_roll lf1) cs \<longrightarrow> sizes_ok m l [] lf'))"
      by (rule Cons.IH [OF ok(1)]) (use Cons.prems(2) in auto)
    then obtain r' where "append_run localtime lf (c # cs) = Some r'" and r': "case r' of
        Inl e \<Rightarrow> e = Null_pointer \<and> (\<exists>c\<in>set cs. \<not> ac_fopened c)
      | Inr lf' \<Rightarrow> concat (map fu_bytes (lf_files lf')) = concat (map fu_bytes (lf_files lf1)) @ concat (map ac_data cs) \<and> roll_size lf' = roll_size lf1
          \<and> (sizes_ok m l cs lf1 \<and> calls_ok m l (last_roll lf1) cs \<longrightarrow> sizes_ok m l [] lf')" using r(1) Inr by auto
    then show ?thesis using bytes sizes ok(2) by (cases r') auto
  qed
qed simp

section \<open>Properties\<close>

text \<open>
  \<open>FileUtil::Append\<close> returns exactly when \<open>fwrite\<close>, called again and again for the rest, takes all the bytes in the end; then
  precisely the data were appended, in order and once, and counted. If the calls stop making progress (a full disk) its loop
  never ends.
\<close>

theorem FileUtil_Append_returns_iff:
  "FileUtil_Append fw data f =
     (if \<exists>k. length data \<le> taken fw 0 k
      then Some (f\<lparr>fu_bytes := fu_bytes f @ data, written_bytes := written_bytes f + int (length data)\<rparr>) else None)"
proof (cases "\<exists>k. length data \<le> taken fw 0 k")
  case True
  then show ?thesis using FileUtil_Append_ok by auto
next
  case False
  then have "append_loop fw 0 data 0 f = None" using append_loop_taken [of fw 0 data 0 f] by (cases "append_loop fw 0 data 0 f") auto
  with False show ?thesis by (simp add: FileUtil_Append_def)
qed

text \<open>
  Property C22. The log loses nothing by rolling. Start it at a positive time and append any texts (for which \<open>fwrite\<close> makes progress).
  Without \<open>fopen\<close> the constructor passes a null pointer to \<open>setbuffer\<close>. If the file can be opened, every append returns, and the run fails only with that null
  pointer, and only if \<open>fopen\<close> fails for a later file. If it does not fail, the files in the order of their creation hold exactly the appended
  texts. If moreover the clock does not go back, at most \<open>m\<close> bytes are appended in any one second and no text is longer than \<open>l\<close>, then the
  open file holds at most \<open>roll_size\<close> bytes or \<open>m\<close>, whichever is more, and a closed one at most \<open>l\<close> more than that: \<open>RollFile\<close> refuses to start
  a second file within the second, so that \<open>roll_size\<close> alone is no bound.
\<close>

theorem log_file_rolls_without_loss:
  assumes "0 < start" and "0 \<le> limit" and "\<And>c. c \<in> set cs \<Longrightarrow> \<exists>k. length (ac_data c) \<le> taken (ac_fw c) 0 k"
  shows "LogFile_new localtime False start base limit interval every = Inl Null_pointer
    \<and> (\<exists>lf0 r. LogFile_new localtime True start base limit interval every = Inr lf0 \<and> append_run localtime lf0 cs = Some r
      \<and> (case r of
           Inl e \<Rightarrow> e = Null_pointer \<and> (\<exists>c\<in>set cs. \<not> ac_fopened c)
         | Inr lf \<Rightarrow> concat (map fu_bytes (lf_files lf)) = concat (map ac_data cs)
             \<and> (calls_ok m l start cs \<longrightarrow> (\<forall>f\<in>set (lf_closed lf). int (length (fu_bytes f)) \<le> max limit m + l)
                  \<and> (\<forall>f. lf_file lf = Some f \<longrightarrow> int (length (fu_bytes f)) \<le> max limit m))))"
proof -
  obtain lf0 where lf0: "LogFile_new localtime True start base limit interval every = Inr lf0" and
    new: "lf_ok lf0" "roll_size lf0 = limit" "last_roll lf0 = start" "concat (map fu_bytes (lf_files lf0)) = []"
      "lf_closed lf0 = []" "\<exists>f. lf_file lf0 = Some f \<and> fu_bytes f = []"
    using assms(1) by (simp add: LogFile_new_def RollFile_def FileUtil_new_def Let_def lf_ok_def lf_files_def)
  have sizes: "sizes_ok m l cs lf0" if "calls_ok m l start cs"
    using new that by (auto simp: sizes_ok_def calls_ok_def)
  from append_run_ok [OF new(1), of cs localtime m l] assms(3) obtain r where
    r: "append_run localtime lf0 cs = Some r" and "case r of
      Inl e \<Rightarrow> e = Null_pointer \<and> (\<exists>c\<in>set cs. \<not> ac_fopened c)
    | Inr lf' \<Rightarrow> concat (map fu_bytes (lf_files lf')) = concat (map ac_data cs) \<and> roll_size lf' = limit
        \<and> (sizes_ok m l cs lf0 \<and> calls_ok m l start cs \<longrightarrow> sizes_ok m l [] lf')"
    unfolding new(2-4) append_Nil by blast
  with sizes have "case r of
      Inl e \<Rightarrow> e = Null_pointer \<and> (\<exists>c\<in>set cs. \<not> ac_fopened c)
    | Inr lf' \<Rightarrow> concat (map fu_bytes (lf_files lf')) = concat (map ac_data cs)
        \<and> (calls_ok m l start cs \<longrightarrow> (\<forall>f\<in>set (lf_closed lf'). int (length (fu_bytes f)) \<le> max limit m + l)
            \<and> (\<forall>f. lf_file lf' = Some f \<longrightarrow> int (length (fu_bytes f)) \<le> max limit m))"
    by (cases r) (auto simp: sizes_ok_def in_second_def)
  moreover have "LogFile_new localtime False start base limit interval every = Inl Null_pointer"
    using assms(1) by (simp add: LogFile_new_def RollFile_def FileUtil_new_def Let_def)
  ultimately show ?thesis using lf0 r by blast
qed

definition example_tm :: tm where
  "example_tm = \<lparr>tm_year = 124, tm_mon = 0, tm_mday = 1, tm_hour = 0, tm_min = 0, tm_sec = 1\<rparr>"

definition example_calls :: "append_call list" where
  "example_calls = [\<lparr>ac_data = ''abcd'', ac_fopened = True, ac_fw = (\<lambda>_. 1), ac_now = 11, ac_roll_now = 11\<rparr>,
     \<lparr>ac_data = ''ef'', ac_fopened = True, ac_fw = (\<lambda>_. 9), ac_now = 11, ac_roll_now = 11\<rparr>]"

lemma example_calls_ok: "calls_ok 6 4 10 example_calls" "c \<in> set example_calls \<Longrightarrow> \<exists>k. length (ac_data c) \<le> taken (ac_fw c) 0 k"
proof -
  show "calls_ok 6 4 10 example_calls" by (auto simp: calls_ok_def example_calls_def in_second_def)
  have k: "\<exists>k. length ''abcd'' \<le> taken (\<lambda>_. 1) 0 k" "\<exists>k. length ''ef'' \<le> taken (\<lambda>_. 9) 0 k"
    by (rule exI [of _ 4], code_simp) (rule exI [of _ 1], code_simp)
  assume "c \<in> set example_calls"
  then consider "c = example_calls ! 0" | "c = example_calls ! 1" by (auto simp: example_calls_def)
  then show "\<exists>k. length (ac_data c) \<le> taken (ac_fw c) 0 k"
    using k by cases (simp_all only: example_calls_def nth_Cons_0 nth_Cons_Suc One_nat_def append_call.simps)
qed

theorem log_file_rolls_without_loss_witness:
  "\<exists>lf0 lf. LogFile_new (\<lambda>_. example_tm) True 10 ''log'' 3 3 1024 = Inr lf0 \<and> append_run (\<lambda>_. example_tm) lf0 example_calls = Some (Inr lf)
    \<and> concat (map fu_bytes (lf_files lf)) = ''abcdef'' \<and> (\<forall>f\<in>set (lf_closed lf). int (length (fu_bytes f)) \<le> 10)"
proof -
  have "\<forall>c\<in>set example_calls. ac_fopened c" "concat (map ac_data example_calls) = ''abcdef''" by (simp_all add: example_calls_def)
  moreover from log_file_rolls_without_loss [of 10 3 example_calls "\<lambda>_. example_tm" "''log''" 3 1024 6 4, OF _ _ example_calls_ok(2)] obtain lf0 r where
    "LogFile_new (\<lambda>_. example_tm) True 10 ''log'' 3 3 1024 = Inr lf0" "append_run (\<lambda>_. example_tm) lf0 example_calls = Some r"
    "case r of Inl e \<Rightarrow> e = Null_pointer \<and> (\<exists>c\<in>set example_calls. \<not> ac_fopened c)
     | Inr lf \<Rightarrow> concat (map fu_bytes (lf_files lf)) = concat (map ac_data example_calls)
       \<and> (calls_ok 6 4 10 example_calls \<longrightarrow> (\<forall>f\<in>set (lf_closed lf). int (length (fu_bytes f)) \<le> max 3 6 + 4)
            \<and> (\<forall>f. lf_file lf = Some f \<longrightarrow> int (length (fu_bytes f)) \<le> max 3 6))" by auto
  ultimately show ?thesis using example_calls_ok(1) by (cases r) auto
qed

end
