(* ===== verification/Async_Logging.thy ===== *)
theory Async_Logging
  imports Log_Stream
begin

text \<open>
  \<open>logger/async_logging.{h,cc}\<close>: the double-buffered logger. Front-end threads append lines to the current buffer under the mutex; the
  logging thread takes the filled buffers, and the current one, hands its two spare buffers to the front end and writes
  what it took outside the critical section. Each critical section and each unlocked stretch of the logging thread is one
  function; \<open>async_step\<close> interleaves them. The wait of three seconds ends by a notification, by time or
  spuriously, and nothing is tested afterwards, so it does not restrict when the critical section goes on. The bytes given
  to \<open>LogFile\<close> are collected in a list. The size of the buffers, \<open>kLargeBuffer\<close> in the source, is an argument.
\<close>

section \<open>State\<close>

text \<open>A \<open>unique_ptr\<close> that was moved from is \<open>None\<close>.\<close>

record async_logging =
  al_running :: bool
  current_buffer :: "fixed_buffer option"
  next_buffer :: "fixed_buffer option"
  al_buffers :: "fixed_buffer option list"

datatype be_pc = B_top | B_lock | B_write | B_done

text \<open>The locals of \<open>ThreadFunc\<close>.\<close>

record backend =
  new_buffer1 :: "fixed_buffer option"
  new_buffer2 :: "fixed_buffer option"
  buffersToWrite :: "fixed_buffer option list"
  be_pc :: be_pc
  be_output :: "string list"

definition AsyncLogging_new :: "string \<Rightarrow> string \<Rightarrow> async_logging" where
  "AsyncLogging_new junk1 junk2 =
     \<lparr>al_running = False, current_buffer = Some (Bzero (FixedBuffer_new junk1)), next_buffer = Some (Bzero (FixedBuffer_new junk2)), al_buffers = []\<rparr>"

definition Async_Start :: "async_logging \<Rightarrow> async_logging" where
  "Async_Start s = s\<lparr>al_running := True\<rparr>"

definition Async_Stop :: "async_logging \<Rightarrow> async_logging" where
  "Async_Stop s = s\<lparr>al_running := False\<rparr>"

section \<open>The front end\<close>

definition Async_Append :: "string \<Rightarrow> string \<Rightarrow> async_logging \<Rightarrow> async_logging result" where
  "Async_Append junk logline s =
     (case current_buffer s of
        None \<Rightarrow> Inl Null_pointer
      | Some cur \<Rightarrow>
          if Avail cur > int (length logline)
          then bindr (Fixed_put logline cur) (\<lambda>b. Inr (s\<lparr>current_buffer := Some b\<rparr>))
          else let b = (case next_buffer s of Some n \<Rightarrow> n | None \<Rightarrow> FixedBuffer_new junk)
               in bindr (Fixed_put logline b) (\<lambda>b.
                    Inr (s\<lparr>al_buffers := al_buffers s @ [Some cur], current_buffer := Some b, next_buffer := None\<rparr>)))"

section \<open>The logging thread\<close>

definition thread_begin :: "string \<Rightarrow> string \<Rightarrow> backend" where
  "thread_begin junk1 junk2 =
     \<lparr>new_buffer1 = Some (Bzero (FixedBuffer_new junk1)), new_buffer2 = Some (Bzero (FixedBuffer_new junk2)),
      buffersToWrite = [], be_pc = B_top, be_output = []\<rparr>"

definition thread_test :: "async_logging \<Rightarrow> backend \<Rightarrow> backend" where
  "thread_test s be = be\<lparr>be_pc := (if al_running s then B_lock else B_done)\<rparr>"

definition thread_swap :: "async_logging \<times> backend \<Rightarrow> async_logging \<times> backend" where
  "thread_swap = (\<lambda>(s, be).
     let buffers = al_buffers s @ [current_buffer s];
         s = s\<lparr>current_buffer := new_buffer1 be, al_buffers := buffersToWrite be\<rparr>;
         be = be\<lparr>new_buffer1 := None, buffersToWrite := buffers, be_pc := B_write\<rparr>
     in if next_buffer s = None then (s\<lparr>next_buffer := new_buffer2 be\<rparr>, be\<lparr>new_buffer2 := None\<rparr>) else (s, be))"

fun write_all :: "fixed_buffer option list \<Rightarrow> string list result" where
  "write_all [] = Inr []"
| "write_all (None # bs) = Inl Null_pointer"
| "write_all (Some b # bs) = bindr (write_all bs) (\<lambda>out. Inr (take (nat (Length b)) (fb_data b) # out))"

text \<open>Moving the last buffer of the vector into a spare and resetting it.\<close>

definition take_back :: "fixed_buffer option \<Rightarrow> fixed_buffer option list \<Rightarrow> (fixed_buffer option \<times> fixed_buffer option list) result" where
  "take_back spare bs =
     (if spare \<noteq> None then Inr (spare, bs)
      else if bs = [] then Inl Out_of_bounds
      else case last bs of None \<Rightarrow> Inl Null_pointer | Some b \<Rightarrow> Inr (Some (Fixed_Reset b), butlast bs))"

definition thread_write :: "backend \<Rightarrow> backend result" where
  "thread_write be =
     bindr (write_all (buffersToWrite be)) (\<lambda>out.
     let bs = (if length (buffersToWrite be) > 2 then take 2 (buffersToWrite be) else buffersToWrite be)
     in bindr (take_back (new_buffer1 be) bs) (\<lambda>(n1, bs).
        bindr (take_back (new_buffer2 be) bs) (\<lambda>(n2, bs).
        Inr (be\<lparr>new_buffer1 := n1, new_buffer2 := n2, buffersToWrite := [], be_pc := B_top, be_output := be_output be @ out\<rparr>))))"

section \<open>All interleavings\<close>

text \<open>
  A configuration also records the lines given to \<open>Append\<close> so far and the buffers written so far, as they were when they were written.
\<close>

record async_config =
  cfg_shared :: async_logging
  cfg_thread :: backend
  cfg_lines :: "string list"
  cfg_written :: "fixed_buffer list"

definition config_init :: "string \<Rightarrow> string \<Rightarrow> string \<Rightarrow> string \<Rightarrow> async_config" where
  "config_init j1 j2 j3 j4 =
     \<lparr>cfg_shared = Async_Start (AsyncLogging_new j1 j2), cfg_thread = thread_begin j3 j4, cfg_lines = [], cfg_written = []\<rparr>"

inductive async_step :: "nat \<Rightarrow> async_config \<Rightarrow> async_config \<Rightarrow> bool" for n where
  Step_append: "length junk = n \<Longrightarrow> Async_Append junk line (cfg_shared c) = Inr s \<Longrightarrow>
    async_step n c (c\<lparr>cfg_shared := s, cfg_lines := cfg_lines c @ [line]\<rparr>)"
| Step_stop: "async_step n c (c\<lparr>cfg_shared := Async_Stop (cfg_shared c)\<rparr>)"
| Step_test: "be_pc (cfg_thread c) = B_top \<Longrightarrow> async_step n c (c\<lparr>cfg_thread := thread_test (cfg_shared c) (cfg_thread c)\<rparr>)"
| Step_swap: "be_pc (cfg_thread c) = B_lock \<Longrightarrow> thread_swap (cfg_shared c, cfg_thread c) = (s, be) \<Longrightarrow>
    async_step n c (c\<lparr>cfg_shared := s, cfg_thread := be\<rparr>)"
| Step_write: "be_pc (cfg_thread c) = B_write \<Longrightarrow> thread_write (cfg_thread c) = Inr be \<Longrightarrow>
    async_step n c (c\<lparr>cfg_thread := be, cfg_written := cfg_written c @ map the (buffersToWrite (cfg_thread c))\<rparr>)"

inductive async_reach :: "nat \<Rightarrow> async_config \<Rightarrow> bool" for n where
  Reach_init: "\<forall>j\<in>{j1, j2, j3, j4}. length j = n \<Longrightarrow> async_reach n (config_init j1 j2 j3 j4)"
| Reach_step: "async_reach n c \<Longrightarrow> async_step n c c' \<Longrightarrow> async_reach n c'"

section \<open>Invariant\<close>

definition good :: "nat \<Rightarrow> fixed_buffer \<Rightarrow> bool" where
  "good n b \<longleftrightarrow> fb_ok b \<and> length (fb_data b) = n"

definition filled :: "nat \<Rightarrow> fixed_buffer option \<Rightarrow> bool" where
  "filled n p \<longleftrightarrow> (\<exists>b. p = Some b \<and> good n b)"

definition spare :: "nat \<Rightarrow> fixed_buffer option \<Rightarrow> bool" where
  "spare n p \<longleftrightarrow> (\<exists>b. p = Some b \<and> good n b \<and> fb_curr b = 0)"

definition pending :: "async_config \<Rightarrow> fixed_buffer list" where
  "pending c = cfg_written c @ map the (buffersToWrite (cfg_thread c) @ al_buffers (cfg_shared c) @ [current_buffer (cfg_shared c)])"

definition spares_ok :: "nat \<Rightarrow> backend \<Rightarrow> bool" where
  "spares_ok n be \<longleftrightarrow>
     (if be_pc be = B_write
      then new_buffer1 be = None \<and> buffersToWrite be \<noteq> [] \<and> (\<forall>p\<in>set (buffersToWrite be). filled n p)
           \<and> (if new_buffer2 be = None then 2 \<le> length (buffersToWrite be) else spare n (new_buffer2 be))
      else buffersToWrite be = [] \<and> spare n (new_buffer1 be) \<and> spare n (new_buffer2 be))"

definition front_ok :: "nat \<Rightarrow> async_logging \<Rightarrow> bool" where
  "front_ok n s \<longleftrightarrow> filled n (current_buffer s) \<and> (\<forall>p\<in>set (al_buffers s). filled n p)
     \<and> (if next_buffer s = None then al_buffers s \<noteq> [] else spare n (next_buffer s))"

definition async_inv :: "nat \<Rightarrow> async_config \<Rightarrow> bool" where
  "async_inv n c \<longleftrightarrow> front_ok n (cfg_shared c) \<and> spares_ok n (cfg_thread c)
     \<and> concat (map fb_content (pending c)) = concat (filter (\<lambda>l. length l < n) (cfg_lines c))
     \<and> be_output (cfg_thread c) = map fb_data (cfg_written c) \<and> (\<forall>b\<in>set (cfg_written c). length (fb_data b) = n)"

lemma spare_filled: "spare n p \<Longrightarrow> filled n p"
  by (auto simp: spare_def filled_def)

lemma spare_content: "spare n p \<Longrightarrow> fb_content (the p) = ''''"
  by (auto simp: spare_def fb_content_def)

lemma not_spare_None [simp]: "\<not> spare n None"
  by (simp add: spare_def)

lemma spare_new: "n < 2 ^ 31 \<Longrightarrow> length junk = n \<Longrightarrow> spare n (Some (Bzero (FixedBuffer_new junk)))"
  by (simp add: spare_def good_def fb_ok_def Bzero_def FixedBuffer_new_def)

lemma Fixed_put_good:
  assumes "good n b"
  shows "\<exists>b'. Fixed_put l b = Inr b' \<and> good n b' \<and> fb_content b' = fb_content b @ (if length l < fb_room b then l else '''')"
proof (cases "length l < fb_room b")
  case True
  then show ?thesis using assms Fixed_Append_fits [of b "length l" l] by (auto simp: good_def Fixed_put_def)
next
  case False
  then show ?thesis using assms Fixed_Append_full [of b "length l" l] by (auto simp: good_def Fixed_put_def)
qed

lemma fb_room_le: "good n b \<Longrightarrow> fb_room b \<le> n"
  by (simp add: good_def fb_room_def)

text \<open>The front end: the line goes behind everything pending, or nowhere if it is as long as a buffer.\<close>

lemma Async_Append_inv:
  assumes "front_ok n s" and "n < 2 ^ 31" and "length junk = n"
  shows "\<exists>s'. Async_Append junk l s = Inr s' \<and> front_ok n s' \<and> al_running s' = al_running s
    \<and> concat (map (fb_content \<circ> the) (al_buffers s' @ [current_buffer s']))
      = concat (map (fb_content \<circ> the) (al_buffers s @ [current_buffer s])) @ (if length l < n then l else '''')"
proof -
  from assms(1) obtain cur where cur: "current_buffer s = Some cur" "good n cur" by (auto simp: front_ok_def filled_def)
  have av: "Avail cur > int (length l) \<longleftrightarrow> length l < fb_room cur" using cur(2) by (simp add: good_def Avail_ok)
  show ?thesis
  proof (cases "length l < fb_room cur")
    case True
    then have "length l < n" using fb_room_le [OF cur(2)] by simp
    from Fixed_put_good [OF cur(2), of l] True cur assms(1) this show ?thesis
      by (auto simp: Async_Append_def av front_ok_def filled_def)
  next
    case False
    define b where "b = (case next_buffer s of Some n \<Rightarrow> n | None \<Rightarrow> FixedBuffer_new junk)"
    have b: "good n b" "fb_content b = ''''" "fb_room b = n"
      using assms by (auto simp: b_def front_ok_def spare_def good_def fb_ok_def fb_content_def fb_room_def FixedBuffer_new_def split: option.splits)
    from Fixed_put_good [OF b(1), of l] obtain b' where b': "Fixed_put l b = Inr b'" "good n b'" "fb_content b' = (if length l < n then l else '''')"
      by (auto simp: b(2,3))
    then have "Async_Append junk l s = Inr (s\<lparr>al_buffers := al_buffers s @ [Some cur], current_buffer := Some b', next_buffer := None\<rparr>)"
      using False cur(1) by (simp add: Async_Append_def av flip: b_def)
    then show ?thesis using cur assms(1) b'(2,3) by (simp add: front_ok_def filled_def)
  qed
qed

text \<open>The logging thread: taking the buffers keeps the order, and afterwards there is a spare for each it gave away.\<close>

lemma thread_swap_inv:
  assumes "front_ok n s" and "spares_ok n be" and "be_pc be = B_lock" and "thread_swap (s, be) = (s', be')"
  shows "front_ok n s' \<and> spares_ok n be' \<and> buffersToWrite be' = al_buffers s @ [current_buffer s] \<and> al_buffers s' = []
    \<and> fb_content (the (current_buffer s')) = '''' \<and> be_output be' = be_output be"
  using assms by (auto simp: thread_swap_def front_ok_def spares_ok_def spare_filled spare_content Let_def Suc_le_eq split: if_splits)

lemma write_all_good: "\<forall>p\<in>set bs. filled n p \<Longrightarrow> n < 2 ^ 31 \<Longrightarrow> write_all bs = Inr (map (fb_data \<circ> the) bs)"
  by (induction bs) (auto simp: filled_def good_def Length_def int_of_size_eq)

lemma take_back_good:
  assumes "\<forall>p\<in>set bs. filled n p" and "if p = None then bs \<noteq> [] else spare n p"
  shows "\<exists>q. take_back p bs = Inr (q, if p = None then butlast bs else bs) \<and> spare n q"
proof (cases p)
  case None
  with assms have "filled n (last bs)" by simp
  then show ?thesis using None assms(2) by (auto simp: take_back_def filled_def spare_def good_def fb_ok_def Fixed_Reset_def)
next
  case (Some b)
  then show ?thesis using assms(2) by (simp add: take_back_def)
qed

lemma thread_write_inv:
  assumes "spares_ok n be" and "be_pc be = B_write" and "n < 2 ^ 31"
  shows "\<exists>be'. thread_write be = Inr be' \<and> spares_ok n be' \<and> buffersToWrite be' = []
    \<and> be_output be' = be_output be @ map (fb_data \<circ> the) (buffersToWrite be)"
proof -
  let ?bs = "take 2 (buffersToWrite be)"
  from assms(1,2) have *: "new_buffer1 be = None" "buffersToWrite be \<noteq> []" "\<forall>p\<in>set (buffersToWrite be). filled n p"
    "if new_buffer2 be = None then 2 \<le> length (buffersToWrite be) else spare n (new_buffer2 be)"
    by (auto simp: spares_ok_def)
  have bs: "(if length (buffersToWrite be) > 2 then take 2 (buffersToWrite be) else buffersToWrite be) = ?bs" by simp
  have fill: "\<forall>p\<in>set ?bs. filled n p" using *(3) by (meson in_set_takeD)
  then have fill': "\<forall>p\<in>set (butlast ?bs). filled n p" by (meson in_set_butlastD)
  from take_back_good [OF fill, of None] *(2) obtain q1 where q1: "take_back None ?bs = Inr (q1, butlast ?bs)" "spare n q1" by auto
  have "if new_buffer2 be = None then butlast ?bs \<noteq> [] else spare n (new_buffer2 be)"
    using *(4) by (auto simp flip: length_0_conv)
  from take_back_good [OF fill' this] obtain q2 bs2 where q2: "take_back (new_buffer2 be) (butlast ?bs) = Inr (q2, bs2)" "spare n q2" by auto
  show ?thesis
    unfolding thread_write_def write_all_good [OF *(3) assms(3)] bs Let_def bindr.simps *(1) q1(1) prod.case q2(1)
    using q1(2) q2(2) by (simp add: spares_ok_def)
qed

lemma async_inv_init:
  assumes "\<forall>j\<in>{j1, j2, j3, j4}. length j = n" and "n < 2 ^ 31"
  shows "async_inv n (config_init j1 j2 j3 j4)"
proof -
  have "spare n (Some (Bzero (FixedBuffer_new j)))" if "j \<in> {j1, j2, j3, j4}" for j
    using assms that by (intro spare_new) auto
  moreover have "fb_content (Bzero (FixedBuffer_new j1)) = ''''" by (simp add: fb_content_def Bzero_def FixedBuffer_new_def)
  ultimately show ?thesis
    by (auto simp: async_inv_def config_init_def Async_Start_def AsyncLogging_new_def thread_begin_def front_ok_def spares_ok_def
        pending_def spare_filled)
qed

lemma async_inv_step:
  assumes "async_step n c c'" and "async_inv n c" and "n < 2 ^ 31"
  shows "async_inv n c'"
proof -
  from assms(2) have inv: "front_ok n (cfg_shared c)" "spares_ok n (cfg_thread c)"
    "concat (map fb_content (pending c)) = concat (filter (\<lambda>l. length l < n) (cfg_lines c))"
    "be_output (cfg_thread c) = map fb_data (cfg_written c)" "\<forall>b\<in>set (cfg_written c). length (fb_data b) = n"
    by (auto simp: async_inv_def)
  show ?thesis
    using assms(1)
  proof (cases rule: async_step.cases)
    case (Step_append junk line s)
    from Async_Append_inv [OF inv(1) assms(3) Step_append(2), of line] Step_append(3) inv show ?thesis
      by (simp add: Step_append(1) async_inv_def pending_def)
  next
    case Step_stop
    then show ?thesis using inv by (simp add: async_inv_def pending_def Async_Stop_def front_ok_def)
  next
    case Step_test
    then show ?thesis using inv by (simp add: async_inv_def pending_def thread_test_def spares_ok_def)
  next
    case (Step_swap s be)
    have "buffersToWrite (cfg_thread c) = []" using inv(2) Step_swap(2) by (simp add: spares_ok_def)
    with thread_swap_inv [OF inv(1,2) Step_swap(2,3)] inv show ?thesis
      by (simp add: Step_swap(1) async_inv_def pending_def)
  next
    case (Step_write be)
    have "length (fb_data (the p)) = n" if "p \<in> set (buffersToWrite (cfg_thread c))" for p
      using inv(2) Step_write(2) that by (auto simp: spares_ok_def filled_def good_def)
    with thread_write_inv [OF inv(2) Step_write(2) assms(3)] Step_write(3) inv show ?thesis
      by (auto simp: Step_write(1) async_inv_def pending_def)
  qed
qed

lemma async_inv_reach: "async_reach n c \<Longrightarrow> n < 2 ^ 31 \<Longrightarrow> async_inv n c"
  by (induction rule: async_reach.induct) (auto intro: async_inv_init async_inv_step)

text \<open>A run that stops while the thread is writing: the line appended meanwhile stays in the current buffer.\<close>

lemma stop_run:
  assumes "length line < n" and "n < 2 ^ 31"
  shows "\<exists>c. async_reach n c \<and> be_pc (cfg_thread c) = B_done \<and> cfg_lines c = [line] \<and> concat (map fb_content (cfg_written c)) = ''''"
proof -
  define j where "j = replicate n NUL"
  let ?b = "Bzero (FixedBuffer_new j)"
  let ?c0 = "config_init j j j j"
  let ?s2 = "(cfg_shared ?c0)\<lparr>current_buffer := Some ?b, al_buffers := []\<rparr>"
  let ?be2 = "(cfg_thread ?c0)\<lparr>new_buffer1 := None, buffersToWrite := [Some ?b], be_pc := B_write\<rparr>"
  note defs = config_init_def Async_Start_def AsyncLogging_new_def thread_begin_def
  have j: "length j = n" by (simp add: j_def)
  have r0: "async_reach n ?c0" by (rule Reach_init) (simp add: j)
  have r1: "async_reach n (?c0\<lparr>cfg_thread := (cfg_thread ?c0)\<lparr>be_pc := B_lock\<rparr>\<rparr>)" (is "async_reach n ?c1")
    using Reach_step [OF r0 Step_test] by (simp add: defs thread_test_def)
  have r2: "async_reach n (?c1\<lparr>cfg_shared := ?s2, cfg_thread := ?be2\<rparr>)" (is "async_reach n ?c2")
    by (rule Reach_step [OF r1 Step_swap]) (simp_all add: defs thread_swap_def)
  from async_inv_reach [OF r2 assms(2)] have inv: "front_ok n ?s2" "spares_ok n ?be2" by (simp_all add: async_inv_def)
  from Async_Append_inv [OF inv(1) assms(2) j] obtain s3 where s3: "Async_Append j line ?s2 = Inr s3" by blast
  have r3: "async_reach n (?c2\<lparr>cfg_shared := s3, cfg_lines := [line]\<rparr>)" (is "async_reach n ?c3")
    using Reach_step [OF r2 Step_append [OF j]] s3 by (simp add: defs)
  have r4: "async_reach n (?c3\<lparr>cfg_shared := Async_Stop s3\<rparr>)" (is "async_reach n ?c4") using Reach_step [OF r3 Step_stop] by simp
  from thread_write_inv [OF inv(2) _ assms(2)] obtain be where be: "thread_write ?be2 = Inr be" by auto
  then have top: "be_pc be = B_top" by (auto simp: thread_write_def Let_def)
  have r5: "async_reach n (?c4\<lparr>cfg_thread := be, cfg_written := [?b]\<rparr>)" (is "async_reach n ?c5")
    using Reach_step [OF r4 Step_write] be by (simp add: defs)
  have r6: "async_reach n (?c5\<lparr>cfg_thread := be\<lparr>be_pc := B_done\<rparr>\<rparr>)"
    using Reach_step [OF r5 Step_test] top by (simp add: thread_test_def Async_Stop_def)
  then show ?thesis by (intro exI, intro conjI) (assumption, simp_all add: fb_content_def Bzero_def FixedBuffer_new_def)
qed

section \<open>Properties\<close>

text \<open>
  Property C6. No line is lost or reordered between the front end and the logging thread. In every reachable state, for buffers of any size
  below \<open>2 ^ 31\<close>, the contents of the buffers written, being written, waiting and current are together exactly the
  lines given to \<open>Append\<close>, in order, but for those as long as a whole buffer. Each write however hands the whole array to the file,
  not only the part in use.
\<close>

theorem async_lines_in_order:
  assumes "async_reach n c" and "n < 2 ^ 31"
  shows "concat (map fb_content (cfg_written c @ map the (buffersToWrite (cfg_thread c) @ al_buffers (cfg_shared c) @ [current_buffer (cfg_shared c)])))
      = concat (filter (\<lambda>l. length l < n) (cfg_lines c))
    \<and> be_output (cfg_thread c) = map fb_data (cfg_written c) \<and> (\<forall>out\<in>set (be_output (cfg_thread c)). length out = n)"
  using async_inv_reach [OF assms] by (auto simp: async_inv_def pending_def)

theorem async_lines_in_order_witness:
  "\<exists>c. async_reach 8 c \<and> concat (map fb_content (cfg_written c @ map the (buffersToWrite (cfg_thread c) @ al_buffers (cfg_shared c) @ [current_buffer (cfg_shared c)])))
      = ''ab''"
proof -
  from stop_run [of "''ab''" 8] obtain c where c: "async_reach 8 c" "cfg_lines c = [''ab'']" by auto
  with async_lines_in_order [OF c(1)] show ?thesis by auto
qed

text \<open>
  Property C23. The exchange of buffers is safe in every interleaving: an append never meets a null current buffer, and the logging thread
  never takes a buffer from an empty vector nor uses a null one; after each round it has its two empty spares again.
\<close>

theorem async_buffers_safe:
  assumes "async_reach n c" and "n < 2 ^ 31" and "length junk = n"
  shows "(\<exists>s. Async_Append junk line (cfg_shared c) = Inr s)
    \<and> (be_pc (cfg_thread c) = B_write \<longrightarrow> (\<exists>be b1 b2. thread_write (cfg_thread c) = Inr be
         \<and> new_buffer1 be = Some b1 \<and> new_buffer2 be = Some b2 \<and> fb_curr b1 = 0 \<and> fb_curr b2 = 0))"
proof -
  have inv: "front_ok n (cfg_shared c)" "spares_ok n (cfg_thread c)" using async_inv_reach [OF assms(1,2)] by (auto simp: async_inv_def)
  have "\<exists>be b1 b2. thread_write (cfg_thread c) = Inr be \<and> new_buffer1 be = Some b1 \<and> new_buffer2 be = Some b2 \<and> fb_curr b1 = 0 \<and> fb_curr b2 = 0"
    if w: "be_pc (cfg_thread c) = B_write"
  proof -
    from thread_write_inv [OF inv(2) w assms(2)] obtain be where be: "thread_write (cfg_thread c) = Inr be" "spares_ok n be" "buffersToWrite be = []"
      by blast
    from be(2,3) show ?thesis using be(1) by (auto simp: spares_ok_def spare_def split: if_splits)
  qed
  with Async_Append_inv [OF inv(1) assms(2,3)] show ?thesis by blast
qed

theorem async_buffers_safe_witness:
  "\<exists>c s. async_reach 8 c \<and> cfg_lines c = [''ab''] \<and> Async_Append (replicate 8 NUL) ''cd'' (cfg_shared c) = Inr s"
proof -
  from stop_run [of "''ab''" 8] obtain c where c: "async_reach 8 c" "cfg_lines c = [''ab'']" by auto
  with async_buffers_safe [OF c(1), of "replicate 8 NUL" "''cd''"] show ?thesis by auto
qed

text \<open>
  Property C32. \<open>Stop\<close> can lose lines: for every line that fits a buffer there is a run in which the line is accepted, the logging
  thread then ends, and nothing but empty buffers was ever written, because the thread does not look at the buffers
  again once it has seen the flag.
\<close>

theorem stop_loses_lines:
  assumes "length line < n" and "n < 2 ^ 31"
  shows "\<exists>c. async_reach n c \<and> be_pc (cfg_thread c) = B_done \<and> cfg_lines c = [line] \<and> concat (map fb_content (cfg_written c)) = ''''
    \<and> (\<forall>c'. async_step n c c' \<longrightarrow> cfg_written c' = cfg_written c \<and> be_pc (cfg_thread c') = B_done)"
proof -
  from stop_run [OF assms] obtain c where c: "async_reach n c" "be_pc (cfg_thread c) = B_done" "cfg_lines c = [line]"
    "concat (map fb_content (cfg_written c)) = ''''" by blast
  have "cfg_written c' = cfg_written c \<and> be_pc (cfg_thread c') = B_done" if "async_step n c c'" for c'
    using that c(2) by cases auto
  with c show ?thesis by blast
qed

theorem stop_loses_lines_witness:
  "\<exists>c. async_reach kLargeBuffer c \<and> be_pc (cfg_thread c) = B_done \<and> cfg_lines c = [''lost''] \<and> concat (map fb_content (cfg_written c)) = ''''"
  using stop_loses_lines [of "''lost''" kLargeBuffer] by (auto simp: kLargeBuffer_def)

end
