(* ===== verification/Memory_Pool.thy ===== *)
theory Memory_Pool
  imports Net_Prelude
begin

text \<open>
  \<open>memory_pool/memory_pool.{h,cc}\<close>: blocks of one page from which small requests are cut off in turn, and large requests passed on to
  \<open>posix_memalign\<close>, whose answers are arguments. Addresses are natural numbers. The singly linked lists
  of nodes are lists, from the head on, with \<open>current_\<close> a position; a node in the list knows its address.
  \<open>posix_memalign\<close> does not clear the memory, and the code leaves \<open>quote_\<close> and \<open>next_\<close> of the head and \<open>quote_\<close> and
  \<open>failed_\<close> of the other nodes as it finds them: these values are arguments too, and whether the head's \<open>next_\<close> happens to be
  null is part of the state.
\<close>

unbundle bit_operations_syntax

section \<open>Alignment\<close>

definition PAGE_SIZE :: nat where "PAGE_SIZE = 4096"
definition MP_ALIGNMENT :: nat where "MP_ALIGNMENT = 16"
definition sizeof_Pool :: nat where "sizeof_Pool = 24"
definition sizeof_SmallNode :: nat where "sizeof_SmallNode = 32"
definition sizeof_LargeNode :: nat where "sizeof_LargeNode = 24"

definition mp_align :: "64 word \<Rightarrow> 64 word \<Rightarrow> 64 word" where
  "mp_align n alignment = (n + alignment - 1) AND NOT (alignment - 1)"

definition mp_align_ptr :: "nat \<Rightarrow> nat \<Rightarrow> nat" where
  "mp_align_ptr p alignment = unat ((of_nat p + of_nat alignment - 1 :: 64 word) AND NOT (of_nat alignment - 1))"

section \<open>State\<close>

record small_node =
  sn_addr :: nat
  sn_end :: nat
  sn_last :: nat
  sn_quote :: "32 word"
  sn_failed :: "32 word"

record large_node =
  ln_addr :: nat
  ln_address :: "nat option"
  ln_size :: "32 word"

record mpool =
  mp_base :: nat
  mp_large :: "large_node list"
  mp_nodes :: "small_node list"
  mp_current :: nat
  mp_null_end :: bool          \<comment> \<open>the last \<open>next_\<close> is null\<close>

section \<open>Operations\<close>

text \<open>\<open>CreatePool\<close>: without memory there is no pool.\<close>

definition CreatePool :: "nat option \<Rightarrow> 32 word \<Rightarrow> bool \<Rightarrow> mpool option" where
  "CreatePool page junk_quote junk_next_null =
     map_option (\<lambda>p. \<lparr>mp_base = p, mp_large = [],
         mp_nodes = [\<lparr>sn_addr = p + sizeof_Pool, sn_end = p + PAGE_SIZE, sn_last = p + sizeof_Pool + sizeof_SmallNode, sn_quote = junk_quote, sn_failed = 0\<rparr>],
         mp_current = 0, mp_null_end = junk_next_null\<rparr>) page"

definition addresses :: "large_node list \<Rightarrow> nat list" where
  "addresses ls = concat (map (\<lambda>l. case ln_address l of Some a \<Rightarrow> [a] | None \<Rightarrow> []) ls)"

text \<open>
  \<open>DestroyPool\<close>: the large blocks, then the pages after the first, then the first, which holds the pool. Nodes are named by their position;
  \<open>freed\<close> are the addresses passed to \<open>free\<close> so far. Reading \<open>next_\<close> of a freed node is an error, and so is following a
  \<open>next_\<close> that was never set. The addresses freed are the result.
\<close>

definition read_next :: "mpool \<Rightarrow> nat list \<Rightarrow> nat \<Rightarrow> nat option result" where
  "read_next s freed i =
     (if sn_addr (mp_nodes s ! i) \<in> set freed then Inl Use_after_free
      else if Suc i < length (mp_nodes s) then Inr (Some (Suc i))
      else if mp_null_end s then Inr None else Inl Out_of_bounds)"

function destroy_pages :: "mpool \<Rightarrow> nat option \<Rightarrow> nat list \<Rightarrow> nat list result" where
  "destroy_pages s None freed = Inr freed"
| "destroy_pages s (Some cur) freed =
     (case read_next s freed cur of
        Inl e \<Rightarrow> Inl e
      | Inr next \<Rightarrow>
          let freed = freed @ [sn_addr (mp_nodes s ! cur)]
          in case read_next s freed cur of Inl e \<Rightarrow> Inl e | Inr cur' \<Rightarrow> destroy_pages s cur' freed)"
  by pat_completeness auto
termination
  by (relation "measure (\<lambda>(s, cur, freed). case cur of None \<Rightarrow> 0 | Some i \<Rightarrow> Suc (length (mp_nodes s) - i))")
    (auto simp: read_next_def split: option.splits if_splits)

definition DestroyPool :: "mpool \<Rightarrow> nat list result" where
  "DestroyPool s =
     (let freed = addresses (mp_large s)
      in bindr (read_next s freed 0) (\<lambda>cur.
         bindr (destroy_pages s cur freed) (\<lambda>freed. Inr (freed @ [mp_base s]))))"

text \<open>The walk of \<open>malloc\<close> from position \<open>i\<close>: the first node with room.\<close>

function find_fit :: "nat \<Rightarrow> small_node list \<Rightarrow> nat \<Rightarrow> nat option" where
  "find_fit sz ns i =
     (if i < length ns
      then if sz \<le> size_sub (sn_end (ns ! i)) (mp_align_ptr (sn_last (ns ! i)) MP_ALIGNMENT) then Some i else find_fit sz ns (Suc i)
      else None)"
  by auto
termination by (relation "measure (\<lambda>(sz, ns, i). length ns - i)") auto

declare find_fit.simps [simp del]

text \<open>\<open>MallocSmallNode\<close>: the walk to the last node counts the failures and moves \<open>current_\<close> past nodes that failed often.\<close>

function note_failures :: "nat \<Rightarrow> nat \<Rightarrow> small_node list \<Rightarrow> nat \<times> small_node list" where
  "note_failures cur current ns =
     (if Suc cur < length ns
      then note_failures (Suc cur) (if sn_failed (ns ! cur) \<ge> 5 then Suc cur else current)
             (ns[cur := (ns ! cur)\<lparr>sn_failed := sn_failed (ns ! cur) + 1\<rparr>])
      else (current, ns))"
  by auto
termination by (relation "measure (\<lambda>(cur, current, ns). length ns - cur)") auto

declare note_failures.simps [simp del]

definition MallocSmallNode :: "nat option \<Rightarrow> 32 word \<Rightarrow> 32 word \<Rightarrow> nat \<Rightarrow> mpool \<Rightarrow> (nat option \<times> mpool) result" where
  "MallocSmallNode page junk_quote junk_failed sz s =
     (case page of
        None \<Rightarrow> Inr (None, s)
      | Some block \<Rightarrow>
          if \<not> mp_null_end s then Inl Out_of_bounds
          else let addr = mp_align_ptr (block + sizeof_SmallNode) MP_ALIGNMENT;
                   node = \<lparr>sn_addr = block, sn_end = block + PAGE_SIZE, sn_last = addr + sz, sn_quote = junk_quote + 1, sn_failed = junk_failed\<rparr>;
                   (current, ns) = note_failures (mp_current s) (mp_current s) (mp_nodes s)
               in Inr (Some addr, s\<lparr>mp_nodes := ns @ [node], mp_current := current\<rparr>))"

text \<open>\<open>malloc\<close> of at most a page less a node.\<close>

definition malloc_small :: "nat option \<Rightarrow> 32 word \<Rightarrow> 32 word \<Rightarrow> nat \<Rightarrow> mpool \<Rightarrow> (nat option \<times> mpool) result" where
  "malloc_small page junk_quote junk_failed sz s =
     (case find_fit sz (mp_nodes s) (mp_current s) of
        Some i \<Rightarrow>
          let n = mp_nodes s ! i; addr = mp_align_ptr (sn_last n) MP_ALIGNMENT
          in Inr (Some addr, s\<lparr>mp_nodes := (mp_nodes s)[i := n\<lparr>sn_quote := sn_quote n + 1, sn_last := addr + sz\<rparr>]\<rparr>)
      | None \<Rightarrow> if mp_null_end s then MallocSmallNode page junk_quote junk_failed sz s else Inl Out_of_bounds)"

text \<open>The walk over the first nodes of the large list: the position of a node without a block.\<close>

fun find_unused :: "nat \<Rightarrow> large_node list \<Rightarrow> nat option" where
  "find_unused count [] = None"
| "find_unused count (l # ls) =
     (if ln_address l = None then Some 0 else if count > 3 then None else map_option Suc (find_unused (Suc count) ls))"

text \<open>
  \<open>MallocLargeNode\<close>: \<open>big\<close> is the answer to the request for the block. The node comes from \<open>malloc(sizeof(LargeNode))\<close>, which is the small case.
\<close>

definition MallocLargeNode :: "nat option \<Rightarrow> nat option \<Rightarrow> 32 word \<Rightarrow> 32 word \<Rightarrow> nat \<Rightarrow> mpool \<Rightarrow> (nat option \<times> mpool) result" where
  "MallocLargeNode big page junk_quote junk_failed sz s =
     (case big of
        None \<Rightarrow> Inr (None, s)
      | Some addr \<Rightarrow>
          (case find_unused 0 (mp_large s) of
             Some i \<Rightarrow> Inr (Some addr, s\<lparr>mp_large := (mp_large s)[i := (mp_large s ! i)\<lparr>ln_size := of_nat sz, ln_address := Some addr\<rparr>]\<rparr>)
           | None \<Rightarrow>
               bindr (malloc_small page junk_quote junk_failed sizeof_LargeNode s) (\<lambda>(node, s).
                 case node of
                   None \<Rightarrow> Inr (None, s)
                 | Some l \<Rightarrow> Inr (Some addr, s\<lparr>mp_large := \<lparr>ln_addr = l, ln_address = Some addr, ln_size = of_nat sz\<rparr> # mp_large s\<rparr>))))"

definition mp_malloc :: "nat option \<Rightarrow> nat option \<Rightarrow> 32 word \<Rightarrow> 32 word \<Rightarrow> nat \<Rightarrow> mpool \<Rightarrow> (nat option \<times> mpool) result" where
  "mp_malloc big page junk_quote junk_failed sz s =
     (if sz \<le> 0 then Inr (None, s)
      else if sz > PAGE_SIZE - sizeof_SmallNode then MallocLargeNode big page junk_quote junk_failed sz s
      else malloc_small page junk_quote junk_failed sz s)"

text \<open>\<open>Calloc\<close>: the region that is cleared is the third result.\<close>

definition Calloc :: "nat option \<Rightarrow> nat option \<Rightarrow> 32 word \<Rightarrow> 32 word \<Rightarrow> nat \<Rightarrow> mpool \<Rightarrow> (nat option \<times> mpool \<times> (nat \<times> nat) option) result" where
  "Calloc big page junk_quote junk_failed sz s =
     bindr (mp_malloc big page junk_quote junk_failed sz s) (\<lambda>(addr, s). Inr (addr, s, map_option (\<lambda>a. (a, sz)) addr))"

fun free_large :: "nat \<Rightarrow> large_node list \<Rightarrow> large_node list option" where
  "free_large p [] = None"
| "free_large p (l # ls) =
     (if ln_address l = Some p then Some (l\<lparr>ln_size := 0, ln_address := None\<rparr> # ls) else map_option (Cons l) (free_large p ls))"

fun find_node :: "nat \<Rightarrow> small_node list \<Rightarrow> nat option" where
  "find_node p [] = None"
| "find_node p (n # ns) = (if sn_addr n \<le> p \<and> p \<le> sn_end n then Some 0 else map_option Suc (find_node p ns))"

definition release :: "small_node \<Rightarrow> small_node" where
  "release n = (let n = n\<lparr>sn_quote := sn_quote n - 1\<rparr>
     in if sn_quote n = 0 then n\<lparr>sn_last := sn_addr n + sizeof_SmallNode, sn_failed := 0\<rparr> else n)"

definition FreeMemory :: "nat \<Rightarrow> mpool \<Rightarrow> mpool result" where
  "FreeMemory p s =
     (case free_large p (mp_large s) of
        Some ls \<Rightarrow> Inr (s\<lparr>mp_large := ls\<rparr>)
      | None \<Rightarrow>
          (case find_node p (mp_nodes s) of
             Some i \<Rightarrow>
               let n = release (mp_nodes s ! i)
               in Inr (s\<lparr>mp_nodes := (mp_nodes s)[i := n], mp_current := (if sn_quote n = 0 then 0 else mp_current s)\<rparr>)
           | None \<Rightarrow> if mp_null_end s then Inr s else Inl Out_of_bounds))"

definition ResetPool :: "mpool \<Rightarrow> mpool result" where
  "ResetPool s =
     (if mp_null_end s
      then Inr (s\<lparr>mp_large := [], mp_current := 0,
                  mp_nodes := map (\<lambda>n. n\<lparr>sn_last := sn_addr n + sizeof_SmallNode, sn_failed := 0, sn_quote := 0\<rparr>) (mp_nodes s)\<rparr>)
      else Inl Out_of_bounds)"

section \<open>Lemmas: alignment\<close>

lemmas mp_consts = PAGE_SIZE_def MP_ALIGNMENT_def sizeof_Pool_def sizeof_SmallNode_def sizeof_LargeNode_def

lemma mp_align_ptr_eq: "p + 16 < 2 ^ 64 \<Longrightarrow> mp_align_ptr p MP_ALIGNMENT = (p + 15) div 16 * 16"
proof -
  assume p: "p + 16 < 2 ^ 64"
  define x :: "64 word" where "x = of_nat (p + 15)"
  have x: "unat x = p + 15" using p by (simp add: x_def unat_of_nat del: of_nat_add)
  have "x AND NOT (mask 4) = push_bit 4 (drop_bit 4 x)" by (rule bit_word_eqI) (auto simp: bit_simps)
  moreover have "unat (push_bit 4 (drop_bit 4 x)) = unat x div 16 * 16"
  proof -
    have d: "unat (drop_bit 4 x) = unat x div 16" unfolding unat_drop_bit_eq by (simp add: drop_bit_eq_div)
    have "unat x div 16 * 16 < 2 ^ 64" using p x by linarith
    then show ?thesis unfolding unsigned_push_bit_eq d by (simp add: push_bit_eq_mult take_bit_nat_eq_self)
  qed
  moreover have "(of_nat p + of_nat 16 - 1 :: 64 word) = x" by (simp add: x_def)
  moreover have "(of_nat 16 - 1 :: 64 word) = mask 4" by (simp add: mask_eq_exp_minus_1)
  ultimately show ?thesis using x by (simp add: mp_align_ptr_def MP_ALIGNMENT_def)
qed

lemma align_in_block:
  assumes "p \<le> e" and "e mod 16 = 0" and "e + 16 < 2 ^ 64"
  shows "p \<le> mp_align_ptr p MP_ALIGNMENT" "mp_align_ptr p MP_ALIGNMENT \<le> e" "mp_align_ptr p MP_ALIGNMENT mod 16 = 0"
proof -
  have a: "mp_align_ptr p MP_ALIGNMENT = (p + 15) div 16 * 16" using assms by (intro mp_align_ptr_eq) simp
  show "p \<le> mp_align_ptr p MP_ALIGNMENT" "mp_align_ptr p MP_ALIGNMENT mod 16 = 0" unfolding a by simp_all
  obtain k where k: "e = k * 16" using assms(2) by (metis div_mult_mod_eq add.right_neutral)
  with assms(1) have "(p + 15) div 16 < Suc k" by (intro less_mult_imp_div_less) simp
  then show "mp_align_ptr p MP_ALIGNMENT \<le> e" unfolding a k by simp
qed

section \<open>Invariant\<close>

text \<open>
  Regions are pairs of an address and a length. \<open>L\<close> is the set of live regions cut from the pages, the nodes of the large list among
  them, and \<open>B\<close> the set of live large blocks. \<open>Z\<close> says that the counters \<open>quote_\<close> are exact, which they are not in a page whose
  memory was not zero when the pool got it.
\<close>

definition apart :: "nat \<times> nat \<Rightarrow> nat \<times> nat \<Rightarrow> bool" where
  "apart = (\<lambda>(a, n) (b, m). a + n \<le> b \<or> b + m \<le> a)"

definition blk :: "small_node \<Rightarrow> nat \<times> nat" where
  "blk n = (sn_addr n, sn_end n - sn_addr n)"

definition in_blk :: "small_node \<Rightarrow> nat \<times> nat \<Rightarrow> bool" where
  "in_blk n = (\<lambda>(a, z). sn_addr n \<le> a \<and> a + z \<le> sn_end n)"

definition cell :: "large_node \<Rightarrow> nat \<times> nat" where
  "cell l = (ln_addr l, sizeof_LargeNode)"

definition bounds_ok :: "small_node \<Rightarrow> bool" where
  "bounds_ok n \<longleftrightarrow> sn_addr n + 32 \<le> sn_last n \<and> sn_last n \<le> sn_end n \<and> sn_end n mod 16 = 0 \<and> sn_end n + 16 < 2 ^ 64 \<and> sn_end n \<le> sn_addr n + 4096"

definition node_ok :: "bool \<Rightarrow> (nat \<times> nat) set \<Rightarrow> small_node \<Rightarrow> bool" where
  "node_ok Z L n \<longleftrightarrow> bounds_ok n \<and> (Z \<longrightarrow> unat (sn_quote n) = card {r \<in> L. in_blk n r})
     \<and> (\<forall>r\<in>L. in_blk n r \<longrightarrow> sn_addr n + 32 \<le> fst r \<and> fst r + snd r \<le> sn_last n)"

definition regions_ok :: "bool \<Rightarrow> small_node list \<Rightarrow> (nat \<times> nat) set \<Rightarrow> (nat \<times> nat) set \<Rightarrow> bool" where
  "regions_ok Z ns L B \<longleftrightarrow> (\<forall>n\<in>set ns. node_ok Z L n) \<and> sorted_wrt apart (map blk ns)
     \<and> finite L \<and> pairwise apart L \<and> (\<forall>r\<in>L. 0 < snd r \<and> fst r mod 16 = 0 \<and> (\<exists>n\<in>set ns. in_blk n r))
     \<and> pairwise apart B \<and> (\<forall>b\<in>B. 0 < snd b \<and> fst b mod 16 = 0 \<and> (\<forall>n\<in>set ns. apart b (blk n)))"

definition pool_ok :: "bool \<Rightarrow> mpool \<Rightarrow> (nat \<times> nat) set \<Rightarrow> (nat \<times> nat) set \<Rightarrow> bool" where
  "pool_ok Z s L B \<longleftrightarrow> (mp_null_end s \<or> length (mp_nodes s) = 1) \<and> mp_current s < length (mp_nodes s) \<and> regions_ok Z (mp_nodes s) L B
     \<and> cell ` set (mp_large s) \<subseteq> L \<and> distinct (addresses (mp_large s)) \<and> set (addresses (mp_large s)) = fst ` B"

definition fresh :: "nat \<Rightarrow> nat \<Rightarrow> small_node list \<Rightarrow> (nat \<times> nat) set \<Rightarrow> bool" where
  "fresh a z ns B \<longleftrightarrow> a mod 16 = 0 \<and> (\<forall>n\<in>set ns. apart (a, z) (blk n)) \<and> (\<forall>b\<in>B. apart (a, z) b)"

text \<open>Giving up the exactness of the counters.\<close>

lemma regions_mono: "regions_ok Z ns L B \<Longrightarrow> Z' \<longrightarrow> Z \<Longrightarrow> regions_ok Z' ns L B"
  by (auto simp: regions_ok_def node_ok_def)

lemma pool_ok_mono: "pool_ok Z s L B \<Longrightarrow> Z' \<longrightarrow> Z \<Longrightarrow> pool_ok Z' s L B"
  using regions_mono [of Z "mp_nodes s" L B Z'] by (simp add: pool_ok_def)

lemma apart_sym: "apart x y \<Longrightarrow> apart y x"
  by (auto simp: apart_def)

lemma in_two_blocks:
  assumes "apart (blk n) (blk m)" and "in_blk n r" and "in_blk m r" and "0 < snd r" and "bounds_ok n" and "bounds_ok m"
  shows False
  using assms by (cases r) (auto simp: apart_def blk_def in_blk_def bounds_ok_def)

lemma other_block:
  assumes "regions_ok Z ns L B" and "i < length ns" and "j < length ns" and "i \<noteq> j"
  shows "apart (blk (ns ! i)) (blk (ns ! j))"
proof -
  have "sorted_wrt apart (map blk ns)" using assms(1) by (simp add: regions_ok_def)
  then have "k < l \<Longrightarrow> l < length ns \<Longrightarrow> apart (blk (ns ! k)) (blk (ns ! l))" for k l
    using sorted_wrt_nth_less [of apart "map blk ns" k l] by simp
  with assms(2-4) show ?thesis by (metis apart_sym nat_neq_iff)
qed

text \<open>A page has room for fewer regions than the counter can count.\<close>

lemma count_bound:
  assumes "regions_ok Z ns L B" and "n \<in> set ns"
  shows "card {r \<in> L. in_blk n r} \<le> 4096"
proof -
  have b: "bounds_ok n" using assms by (simp add: regions_ok_def node_ok_def)
  have "inj_on fst {r \<in> L. in_blk n r}"
  proof (rule inj_onI)
    fix x y assume "x \<in> {r \<in> L. in_blk n r}" "y \<in> {r \<in> L. in_blk n r}" "fst x = fst y"
    then have "x \<in> L" "y \<in> L" "fst x = fst y" by simp_all
    moreover from this have "0 < snd x" "0 < snd y" "pairwise apart L" using assms(1) by (simp_all add: regions_ok_def)
    moreover have "apart x y \<Longrightarrow> fst x = fst y \<Longrightarrow> 0 < snd x \<Longrightarrow> 0 < snd y \<Longrightarrow> False" by (auto simp: apart_def)
    ultimately show "x = y" by (meson pairwiseD)
  qed
  moreover have "fst ` {r \<in> L. in_blk n r} \<subseteq> {sn_addr n..<sn_end n}"
    using assms(1) by (fastforce simp: regions_ok_def in_blk_def)
  ultimately have "card {r \<in> L. in_blk n r} \<le> card {sn_addr n..<sn_end n}" by (intro card_inj_on_le) auto
  moreover have "sn_end n - sn_addr n \<le> 4096" using b unfolding bounds_ok_def by linarith
  ultimately show ?thesis by simp
qed

text \<open>Replacing the node of a page.\<close>

lemma regions_update:
  assumes "regions_ok Z ns L B" and "i < length ns" and "sn_addr n' = sn_addr (ns ! i)" and "sn_end n' = sn_end (ns ! i)"
    and "node_ok Z L' n'" and "\<And>j. j < length ns \<Longrightarrow> j \<noteq> i \<Longrightarrow> node_ok Z L' (ns ! j)"
    and "finite L'" and "pairwise apart L'" and "\<And>r. r \<in> L' \<Longrightarrow> 0 < snd r \<and> fst r mod 16 = 0 \<and> (\<exists>n\<in>set ns. in_blk n r)"
  shows "regions_ok Z (ns[i := n']) L' B"
proof -
  have b: "blk n' = blk (ns ! i)" "in_blk n' = in_blk (ns ! i)" using assms(3,4) by (simp_all add: blk_def in_blk_def)
  have blks: "map blk (ns[i := n']) = map blk ns" using b(1) assms(2) by (simp add: map_update list_update_same_conv)
  have nth: "in_blk (ns[i := n'] ! j) = in_blk (ns ! j)" if "j < length ns" for j using that b(2) by (cases "j = i") simp_all
  have "\<exists>m\<in>set (ns[i := n']). in_blk m r" if "m \<in> set ns" "in_blk m r" for m r
  proof -
    from that(1) obtain j where j: "j < length ns" "m = ns ! j" by (auto simp: in_set_conv_nth)
    then have "ns[i := n'] ! j \<in> set (ns[i := n'])" by (intro nth_mem) simp
    with nth [OF j(1)] j(2) that(2) show ?thesis by metis
  qed
  with assms(9) have "\<forall>r\<in>L'. 0 < snd r \<and> fst r mod 16 = 0 \<and> (\<exists>m\<in>set (ns[i := n']). in_blk m r)" by blast
  moreover have "\<forall>m\<in>set (ns[i := n']). node_ok Z L' m" using assms(2,5,6) by (auto simp: in_set_conv_nth nth_list_update)
  moreover have "\<forall>m\<in>set (ns[i := n']). blk m \<in> blk ` set ns" using blks by (metis image_eqI list.set_map)
  ultimately show ?thesis using assms(1,7,8) blks by (auto simp: regions_ok_def)
qed

text \<open>Cutting a region from the free end of a page.\<close>

lemma regions_alloc:
  assumes "regions_ok Z ns L B" and "i < length ns" and "sn_last (ns ! i) \<le> a" and "a + z \<le> sn_end (ns ! i)" and "0 < z" and "a mod 16 = 0"
  shows "regions_ok Z (ns[i := (ns ! i)\<lparr>sn_quote := sn_quote (ns ! i) + 1, sn_last := a + z\<rparr>]) (insert (a, z) L) B \<and> (a, z) \<notin> L"
proof
  let ?n = "ns ! i" and ?r = "(a, z)"
  have n: "node_ok Z L ?n" "?n \<in> set ns" using assms(1,2) by (simp_all add: regions_ok_def)
  have inb: "in_blk ?n ?r" using n(1) assms(3,4) by (auto simp: in_blk_def node_ok_def bounds_ok_def)
  show new: "?r \<notin> L" using n(1) inb assms(3,5) by (auto simp: node_ok_def)
  have fin: "finite L" using assms(1) by (simp add: regions_ok_def)
  have away: "apart ?r r" if "r \<in> L" for r
  proof -
    from that assms(1) obtain j where j: "j < length ns" "in_blk (ns ! j) r" by (force simp: regions_ok_def in_set_conv_nth)
    have m: "bounds_ok (ns ! j)" using assms(1) j(1) by (auto simp: regions_ok_def node_ok_def)
    show ?thesis
    proof (cases "j = i")
      case True
      then show ?thesis using n(1) that j(2) assms(3) by (auto simp: node_ok_def apart_def)
    next
      case False
      then show ?thesis using other_block [OF assms(1,2) j(1)] n(1) m inb j(2)
        by (auto simp: apart_def blk_def in_blk_def bounds_ok_def node_ok_def)
    qed
  qed
  show "regions_ok Z (ns[i := ?n\<lparr>sn_quote := sn_quote ?n + 1, sn_last := a + z\<rparr>]) (insert ?r L) B"
  proof (rule regions_update [OF assms(1,2)])
    have "unat (sn_quote ?n) \<le> 4096" if Z using count_bound [OF assms(1) n(2)] n(1) that by (simp add: node_ok_def)
    then have q: "unat (sn_quote ?n + 1) = Suc (unat (sn_quote ?n))" if Z using that by (simp add: unat_word_ariths)
    have "{r \<in> insert ?r L. in_blk ?n r} = insert ?r {r \<in> L. in_blk ?n r}" using inb by auto
    then show "node_ok Z (insert ?r L) (?n\<lparr>sn_quote := sn_quote ?n + 1, sn_last := a + z\<rparr>)"
      using n(1) q new fin assms(3-6) inb by (auto simp: node_ok_def in_blk_def bounds_ok_def)
    fix j assume j: "j < length ns" "j \<noteq> i"
    have m: "node_ok Z L (ns ! j)" using assms(1) j by (simp add: regions_ok_def)
    then have out: "\<not> in_blk (ns ! j) ?r"
      using in_two_blocks [OF other_block [OF assms(1,2) j(1)] inb] j n(1) assms(5) by (auto simp: node_ok_def)
    then have "{r \<in> insert ?r L. in_blk (ns ! j) r} = {r \<in> L. in_blk (ns ! j) r}" by auto
    with m out show "node_ok Z (insert ?r L) (ns ! j)" by (auto simp: node_ok_def)
  next
    show "pairwise apart (insert ?r L)" using away assms(1) by (auto simp: regions_ok_def pairwise_insert apart_sym)
    show "\<And>r. r \<in> insert ?r L \<Longrightarrow> 0 < snd r \<and> fst r mod 16 = 0 \<and> (\<exists>n\<in>set ns. in_blk n r)"
      using assms(1,5,6) inb n(2) by (auto simp: regions_ok_def)
  qed (use fin in simp_all)
qed

text \<open>Adding a page with an empty node; counting failures.\<close>

lemma regions_add_page:
  assumes "regions_ok Z ns L B" and "fresh b PAGE_SIZE ns B" and "b + 5000 < 2 ^ 64" and "Z \<longrightarrow> q = 0"
  shows "regions_ok Z (ns @ [\<lparr>sn_addr = b, sn_end = b + PAGE_SIZE, sn_last = b + 32, sn_quote = q, sn_failed = f\<rparr>]) L B" (is "regions_ok Z (ns @ [?n]) L B")
proof -
  have n: "blk ?n = (b, PAGE_SIZE)" "bounds_ok ?n" using assms(2,3)
    by (simp_all add: blk_def bounds_ok_def fresh_def PAGE_SIZE_def mod_add_left_eq [symmetric])
  have out: "\<not> in_blk ?n r" if "r \<in> L" for r
  proof
    assume r: "in_blk ?n r"
    from that assms(1) obtain m where m: "m \<in> set ns" "in_blk m r" "0 < snd r" "bounds_ok m" by (auto simp: regions_ok_def node_ok_def)
    have "apart (blk ?n) (blk m)" using assms(2) m(1) by (simp add: n(1) fresh_def)
    from in_two_blocks [OF this r m(2,3) n(2) m(4)] show False .
  qed
  then have none: "{r \<in> L. in_blk ?n r} = {}" by blast
  have "node_ok Z L ?n" unfolding node_ok_def none using n(2) out assms(4) by simp
  moreover have "\<forall>m\<in>set ns. apart (blk m) (blk ?n)" "\<forall>c\<in>B. apart c (blk ?n)"
    using assms(2) unfolding n(1) by (simp_all add: fresh_def apart_sym)
  ultimately show ?thesis using assms(1) by (auto simp: regions_ok_def sorted_wrt_append)
qed

definition strip :: "small_node \<Rightarrow> small_node" where "strip n = n\<lparr>sn_failed := 0\<rparr>"

lemma regions_strip: "regions_ok Z (map strip ns) L B = regions_ok Z ns L B"
proof -
  have "blk \<circ> strip = blk" "in_blk (strip n) = in_blk n" "node_ok Z L (strip n) = node_ok Z L n" "blk (strip n) = blk n" for n
    by (auto simp: strip_def blk_def in_blk_def node_ok_def bounds_ok_def)
  then show ?thesis by (simp add: regions_ok_def)
qed

lemma note_failures_strip:
  "current < length ns \<Longrightarrow> note_failures cur current ns = (c, ns') \<Longrightarrow> map strip ns' = map strip ns \<and> c < length ns'"
proof (induction cur current ns rule: note_failures.induct)
  case (1 cur current ns)
  show ?case
  proof (cases "Suc cur < length ns")
    case True
    have "map strip (ns[cur := (ns ! cur)\<lparr>sn_failed := sn_failed (ns ! cur) + 1\<rparr>]) = map strip ns"
      using True by (simp add: map_update strip_def list_update_same_conv)
    with 1 True show ?thesis by (simp add: note_failures.simps [of cur current ns] split: if_splits)
  next
    case False
    with 1 show ?thesis by (simp add: note_failures.simps [of cur current ns])
  qed
qed

section \<open>The operations keep the invariant\<close>

lemma find_fit_Some: "find_fit z ns i = Some j \<Longrightarrow>
    j < length ns \<and> z \<le> size_sub (sn_end (ns ! j)) (mp_align_ptr (sn_last (ns ! j)) MP_ALIGNMENT)"
  by (induction z ns i rule: find_fit.induct) (subst (asm) (2) find_fit.simps, auto split: if_splits)

lemma aligned_plus_32:
  assumes "b mod 16 = (0 :: nat)"
  shows "(b + 32) mod 16 = 0" and "b + 5000 < 2 ^ 64 \<Longrightarrow> mp_align_ptr (b + 32) MP_ALIGNMENT = b + 32"
proof -
  obtain k where k: "b = 16 * k" using assms by (metis dvd_def mod_eq_0_iff_dvd)
  then show "(b + 32) mod 16 = 0" by simp
  have "(b + 32 + 15) div 16 = k + 2" using k by simp
  then show "b + 5000 < 2 ^ 64 \<Longrightarrow> mp_align_ptr (b + 32) MP_ALIGNMENT = b + 32" using k by (subst mp_align_ptr_eq) simp_all
qed

definition alloc_result :: "bool \<Rightarrow> nat option \<Rightarrow> mpool \<Rightarrow> (nat \<times> nat) set \<Rightarrow> (nat \<times> nat) set \<Rightarrow> nat \<Rightarrow> nat option \<times> mpool \<Rightarrow> bool" where
  "alloc_result Z page s L B z = (\<lambda>(r, s'). mp_large s' = mp_large s
    \<and> blk ` set (mp_nodes s') \<subseteq> blk ` set (mp_nodes s) \<union> (\<lambda>b. (b, PAGE_SIZE)) ` set_option page
    \<and> (case r of None \<Rightarrow> s' = s \<and> page = None
       | Some a \<Rightarrow> (a, z) \<notin> L \<and> (mp_null_end s' \<or> length (mp_nodes s') = 1) \<and> mp_current s' < length (mp_nodes s') \<and> regions_ok Z (mp_nodes s') (insert (a, z) L) B))"

lemma MallocSmallNode_ok:
  assumes "pool_ok Z s L B" and "0 < z" and "z \<le> 4064" and "fresh b PAGE_SIZE (mp_nodes s) B" and "b + 5000 < 2 ^ 64"
    and "Z \<longrightarrow> q = 0" and "MallocSmallNode (Some b) q f z s = Inr r"
  shows "alloc_result Z (Some b) s L B z r"
proof -
  let ?node = "\<lparr>sn_addr = b, sn_end = b + PAGE_SIZE, sn_last = b + 32, sn_quote = q, sn_failed = f\<rparr>"
  obtain c ns where c: "note_failures (mp_current s) (mp_current s) (mp_nodes s) = (c, ns)" by fastforce
  from note_failures_strip [OF _ c] assms(1) have ns: "map strip ns = map strip (mp_nodes s)" "c < length ns" by (auto simp: pool_ok_def)
  have ok: "regions_ok Z ns L B" using assms(1) ns(1) by (metis pool_ok_def regions_strip)
  have "blk = blk \<circ> strip" by (auto simp: strip_def blk_def)
  then have blks: "blk ` set ns = blk ` set (mp_nodes s)" by (metis (no_types, lifting) list.set_map map_map ns(1))
  with assms(4) have "fresh b PAGE_SIZE ns B" by (simp add: fresh_def) (metis (no_types, lifting) image_iff)
  from regions_add_page [OF ok this assms(5,6)] have "regions_ok Z (ns @ [?node]) L B" .
  moreover have al: "b mod 16 = 0" using assms(4) by (simp add: fresh_def)
  ultimately have "regions_ok Z (ns @ [?node\<lparr>sn_last := b + 32 + z, sn_quote := q + 1\<rparr>]) (insert (b + 32, z) L) B \<and> (b + 32, z) \<notin> L"
    using regions_alloc [of Z "ns @ [?node]" L B "length ns" "b + 32" z] assms(2,3) aligned_plus_32(1) by (simp add: PAGE_SIZE_def)
  moreover have "mp_null_end s" and r: "r = (Some (b + 32), s\<lparr>mp_nodes := ns @ [?node\<lparr>sn_last := b + 32 + z, sn_quote := q + 1\<rparr>], mp_current := c\<rparr>)"
    using assms(7) aligned_plus_32(2) [OF al assms(5)] by (simp_all add: MallocSmallNode_def c sizeof_SmallNode_def Let_def split: if_splits)
  ultimately show ?thesis using ns(2) by (simp add: r alloc_result_def blks) (auto simp: blk_def)
qed

lemma malloc_small_ok:
  assumes "pool_ok Z s L B" and "0 < z" and "z \<le> 4064"
    and "\<And>b. page = Some b \<Longrightarrow> fresh b PAGE_SIZE (mp_nodes s) B \<and> b + 5000 < 2 ^ 64"
    and "Z \<longrightarrow> q = 0" and "malloc_small page q f z s = Inr r"
  shows "alloc_result Z page s L B z r"
proof (cases "find_fit z (mp_nodes s) (mp_current s)")
  case (Some i)
  let ?n = "mp_nodes s ! i"
  have ok: "regions_ok Z (mp_nodes s) L B" using assms(1) by (simp add: pool_ok_def)
  from find_fit_Some [OF Some] have i: "i < length (mp_nodes s)" "z \<le> size_sub (sn_end ?n) (mp_align_ptr (sn_last ?n) MP_ALIGNMENT)" by auto
  then have n: "bounds_ok ?n" using ok by (simp add: regions_ok_def node_ok_def)
  note a = align_in_block [of "sn_last ?n" "sn_end ?n"]
  have "sn_last ?n \<le> mp_align_ptr (sn_last ?n) MP_ALIGNMENT" "mp_align_ptr (sn_last ?n) MP_ALIGNMENT + z \<le> sn_end ?n"
    "mp_align_ptr (sn_last ?n) MP_ALIGNMENT mod 16 = 0"
    using n a i(2) by (simp_all add: bounds_ok_def size_sub_eq)
  from regions_alloc [OF ok i(1) this(1,2) assms(2) this(3)]
  have "regions_ok Z ((mp_nodes s)[i := ?n\<lparr>sn_quote := sn_quote ?n + 1, sn_last := mp_align_ptr (sn_last ?n) MP_ALIGNMENT + z\<rparr>])
      (insert (mp_align_ptr (sn_last ?n) MP_ALIGNMENT, z) L) B \<and> (mp_align_ptr (sn_last ?n) MP_ALIGNMENT, z) \<notin> L" .
  moreover have "blk (?n\<lparr>sn_quote := q, sn_last := e\<rparr>) \<in> blk ` set (mp_nodes s)" for q e using i(1) by (simp add: blk_def image_iff) (metis nth_mem)
  then have "blk ` set ((mp_nodes s)[i := ?n\<lparr>sn_quote := q, sn_last := e\<rparr>]) \<subseteq> blk ` set (mp_nodes s)" for q e
    using set_update_subset_insert [of "mp_nodes s" i] by (blast dest: subsetD)
  moreover have "r = (Some (mp_align_ptr (sn_last ?n) MP_ALIGNMENT),
      s\<lparr>mp_nodes := (mp_nodes s)[i := ?n\<lparr>sn_quote := sn_quote ?n + 1, sn_last := mp_align_ptr (sn_last ?n) MP_ALIGNMENT + z\<rparr>]\<rparr>)"
    using assms(6) by (simp add: malloc_small_def Some Let_def)
  ultimately show ?thesis using assms(1) by (simp add: pool_ok_def alloc_result_def le_supI1)
next
  case None
  with assms(6) have "MallocSmallNode page q f z s = Inr r" by (simp add: malloc_small_def split: if_splits)
  then show ?thesis using MallocSmallNode_ok [OF assms(1-3), of _ q f r] assms(4,5)
    by (cases page) (auto simp: MallocSmallNode_def [of None] alloc_result_def)
qed

lemma malloc_small_total: "mp_null_end s \<Longrightarrow> \<exists>r. malloc_small page q f z s = Inr r"
  by (auto simp: malloc_small_def MallocSmallNode_def Let_def split: option.split prod.split)

lemma addresses_simps [simp]:
  "addresses [] = []" "addresses (l # ls) = (case ln_address l of Some a \<Rightarrow> [a] | None \<Rightarrow> []) @ addresses ls"
  "addresses (ls @ ks) = addresses ls @ addresses ks"
  by (simp_all add: addresses_def)

lemma find_unused_Some: "find_unused c ls = Some i \<Longrightarrow> i < length ls \<and> ln_address (ls ! i) = None"
  by (induction c ls arbitrary: i rule: find_unused.induct) (auto split: if_splits)

lemma pool_ok_big:
  assumes "pool_ok Z s L B" and "fresh a z (mp_nodes s) B" and "0 < z"
    and "cell ` set ls \<subseteq> L" and "distinct (addresses ls)" and "set (addresses ls) = insert a (fst ` B)"
  shows "pool_ok Z (s\<lparr>mp_large := ls\<rparr>) L (insert (a, z) B)"
  using assms unfolding pool_ok_def regions_ok_def fresh_def by (auto simp: pairwise_insert apart_sym)

lemma fresh_not_known: "fresh a z ns B \<Longrightarrow> 0 < z \<Longrightarrow> (\<And>b. b \<in> B \<Longrightarrow> 0 < snd b) \<Longrightarrow> a \<notin> fst ` B"
  by (fastforce simp: fresh_def apart_def)

text \<open>What the regions become by a request for \<open>z\<close> bytes that was answered by \<open>r\<close>.\<close>

fun grown :: "nat \<Rightarrow> nat option \<Rightarrow> mpool \<Rightarrow> (nat \<times> nat) set \<times> (nat \<times> nat) set \<Rightarrow> (nat \<times> nat) set \<times> (nat \<times> nat) set" where
  "grown z None s' (L, B) = (L, B)"
| "grown z (Some a) s' (L, B) = (if z \<le> 4064 then (insert (a, z) L, B) else (L \<union> cell ` set (mp_large s'), insert (a, z) B))"

definition answers_ok :: "nat option \<Rightarrow> nat option \<Rightarrow> nat \<Rightarrow> mpool \<Rightarrow> (nat \<times> nat) set \<Rightarrow> bool" where
  "answers_ok big page z s B \<longleftrightarrow> (\<forall>a. big = Some a \<longrightarrow> fresh a z (mp_nodes s) B)
     \<and> (\<forall>b. page = Some b \<longrightarrow> fresh b PAGE_SIZE (mp_nodes s) B \<and> b + 5000 < 2 ^ 64)
     \<and> (\<forall>a b. big = Some a \<and> page = Some b \<longrightarrow> apart (a, z) (b, PAGE_SIZE))"

lemma reuse_large_node:
  assumes "pool_ok Z s L B" and "fresh a z (mp_nodes s) B" and "0 < z" and "find_unused 0 (mp_large s) = Some i"
  shows "pool_ok Z (s\<lparr>mp_large := (mp_large s)[i := (mp_large s ! i)\<lparr>ln_size := m, ln_address := Some a\<rparr>]\<rparr>) L (insert (a, z) B)"
    "cell ` set ((mp_large s)[i := (mp_large s ! i)\<lparr>ln_size := m, ln_address := Some a\<rparr>]) \<subseteq> L"
proof -
  let ?l = "mp_large s ! i" and ?us = "take i (mp_large s)" and ?vs = "drop (Suc i) (mp_large s)"
  let ?ls = "(mp_large s)[i := ?l\<lparr>ln_size := m, ln_address := Some a\<rparr>]"
  from find_unused_Some [OF assms(4)] have i: "i < length (mp_large s)" "ln_address ?l = None" by auto
  have s: "cell ` set (mp_large s) \<subseteq> L" "distinct (addresses (mp_large s))" "set (addresses (mp_large s)) = fst ` B"
    using assms(1) by (simp_all add: pool_ok_def)
  have new: "a \<notin> fst ` B" using fresh_not_known [OF assms(2,3)] assms(1) by (simp add: pool_ok_def regions_ok_def)
  have ls: "mp_large s = ?us @ ?l # ?vs" using i(1) by (rule id_take_nth_drop)
  have ls': "?ls = ?us @ ?l\<lparr>ln_size := m, ln_address := Some a\<rparr> # ?vs" using i(1) by (rule upd_conv_take_nth_drop)
  have ad: "addresses (mp_large s) = addresses ?us @ addresses ?vs" "addresses ?ls = addresses ?us @ a # addresses ?vs"
    by (subst ls, simp add: i(2)) (subst ls', simp)
  have c: "cell ` set ?ls = cell ` set (mp_large s)"
    by (subst (3) ls, subst ls') (simp add: cell_def)
  have "distinct (addresses ?ls)" "set (addresses ?ls) = insert a (fst ` B)" using s(2,3) new unfolding ad by auto
  with pool_ok_big [OF assms(1-3)] s(1) c show "pool_ok Z (s\<lparr>mp_large := ?ls\<rparr>) L (insert (a, z) B)" "cell ` set ?ls \<subseteq> L" by simp_all
qed

lemma MallocLargeNode_ok:
  assumes "pool_ok Z s L B" and "4064 < z" and "answers_ok big page z s B"
    and "Z \<longrightarrow> q = 0" and res: "MallocLargeNode big page q f z s = Inr (r, s')"
  shows "case grown z r s' (L, B) of (L', B') \<Rightarrow> pool_ok Z s' L' B'"
proof (cases big)
  case (Some a)
  have fr: "fresh a z (mp_nodes s) B" using assms(3) Some by (simp add: answers_ok_def)
  show ?thesis
  proof (cases "find_unused 0 (mp_large s)")
    case (Some i)
    from reuse_large_node [OF assms(1) fr _ Some] assms(2) res show ?thesis by (auto simp: MallocLargeNode_def \<open>big = Some a\<close> Some Un_absorb2)
  next
    case None
    with res obtain k s1 where r1: "malloc_small page q f sizeof_LargeNode s = Inr (k, s1)"
      by (cases "malloc_small page q f sizeof_LargeNode s") (auto simp: MallocLargeNode_def \<open>big = Some a\<close>)
    with malloc_small_ok [OF assms(1), of sizeof_LargeNode page q f] assms(3,4)
    have r: "malloc_small page q f sizeof_LargeNode s = Inr (k, s1)" "alloc_result Z page s L B sizeof_LargeNode (k, s1)"
      by (auto simp: answers_ok_def sizeof_LargeNode_def)
    show ?thesis
    proof (cases k)
      case (Some l)
      let ?ls = "\<lparr>ln_addr = l, ln_address = Some a, ln_size = of_nat z\<rparr> # mp_large s1"
      have new: "a \<notin> fst ` B" using fresh_not_known [OF fr] assms(1,2) by (simp add: pool_ok_def regions_ok_def)
      have s: "cell ` set (mp_large s) \<subseteq> L" "distinct (addresses (mp_large s))" "set (addresses (mp_large s)) = fst ` B"
        using assms(1) by (simp_all add: pool_ok_def)
      from r(2) Some s have s1: "pool_ok Z s1 (insert (l, sizeof_LargeNode) L) B" "mp_large s1 = mp_large s"
        "blk ` set (mp_nodes s1) \<subseteq> blk ` set (mp_nodes s) \<union> (\<lambda>b. (b, PAGE_SIZE)) ` set_option page"
        by (auto simp: alloc_result_def pool_ok_def)
      have "\<forall>k\<in>blk ` set (mp_nodes s) \<union> (\<lambda>b. (b, PAGE_SIZE)) ` set_option page. apart (a, z) k"
        using assms(3) \<open>big = Some a\<close> by (auto simp: answers_ok_def fresh_def)
      with s1(3) fr have "fresh a z (mp_nodes s1) B" unfolding fresh_def by blast
      from pool_ok_big [OF s1(1) this, of ?ls] s s1(2) new assms(2) have
        "pool_ok Z (s1\<lparr>mp_large := ?ls\<rparr>) (insert (l, sizeof_LargeNode) L) (insert (a, z) B)" by (auto simp: cell_def)
      moreover have "L \<union> cell ` set ?ls = insert (l, sizeof_LargeNode) L" using s(1) s1(2) by (auto simp: cell_def)
      moreover have "r = Some a \<and> s' = s1\<lparr>mp_large := ?ls\<rparr>" using res by (auto simp: MallocLargeNode_def \<open>big = Some a\<close> None r(1) Some)
      ultimately show ?thesis using assms(2) by simp
    qed (use r None res \<open>big = Some a\<close> assms(1) in \<open>simp add: MallocLargeNode_def alloc_result_def\<close>)
  qed
qed (use assms(1) res in \<open>simp add: MallocLargeNode_def\<close>)

lemma mp_malloc_ok:
  assumes "pool_ok Z s L B" and "answers_ok big page z s B" and "Z \<longrightarrow> q = 0" and res: "mp_malloc big page q f z s = Inr (r, s')"
  shows "case grown z r s' (L, B) of (L', B') \<Rightarrow> pool_ok Z s' L' B'"
proof -
  consider "z = 0" | "0 < z" "z \<le> 4064" | "4064 < z" by linarith
  then show ?thesis
  proof cases
    case 2
    then have "malloc_small page q f z s = Inr (r, s')" using res by (simp add: mp_malloc_def mp_consts)
    from malloc_small_ok [OF assms(1) 2 _ assms(3) this] assms(2) have "alloc_result Z page s L B z (r, s')" by (auto simp: answers_ok_def)
    with 2 assms(1) show ?thesis by (cases r) (auto simp: alloc_result_def pool_ok_def)
  next
    case 3
    then have "MallocLargeNode big page q f z s = Inr (r, s')" using res by (simp add: mp_malloc_def mp_consts)
    from MallocLargeNode_ok [OF assms(1) 3 assms(2,3) this] show ?thesis .
  qed (use assms(1) res in \<open>simp add: mp_malloc_def\<close>)
qed

lemma mp_malloc_total:
  assumes "mp_null_end s"
  shows "\<exists>r. mp_malloc big page q f z s = Inr r"
proof -
  obtain k s1 where "malloc_small page q f sizeof_LargeNode s = Inr (k, s1)" using malloc_small_total [OF assms] by fastforce
  then show ?thesis using malloc_small_total [OF assms, of page q f z]
    by (auto simp: mp_malloc_def MallocLargeNode_def split: option.split)
qed

lemma find_node_Some: "find_node p ns = Some i \<Longrightarrow> i < length ns \<and> sn_addr (ns ! i) \<le> p \<and> p \<le> sn_end (ns ! i)"
  by (induction p ns arbitrary: i rule: find_node.induct) (auto split: if_splits)

lemma find_node_None: "find_node p ns = None \<Longrightarrow> n \<in> set ns \<Longrightarrow> \<not> (sn_addr n \<le> p \<and> p \<le> sn_end n)"
  by (induction p ns rule: find_node.induct) (auto split: if_splits)

lemma regions_node: "regions_ok Z ns L B \<Longrightarrow> j < length ns \<Longrightarrow> node_ok Z L (ns ! j)"
  by (simp add: regions_ok_def)

lemma node_region:
  assumes "node_ok Z L n" and "(p, z) \<in> L" and "in_blk n (p, z)"
  shows "sn_addr n + 32 \<le> p \<and> p + z \<le> sn_last n"
  using assms by (force simp: node_ok_def)

lemma find_node_live:
  assumes "regions_ok Z ns L B" and "(p, z) \<in> L"
  shows "\<exists>i. find_node p ns = Some i \<and> i < length ns \<and> in_blk (ns ! i) (p, z)"
proof -
  from assms obtain j where j: "j < length ns" "in_blk (ns ! j) (p, z)" "0 < z" by (force simp: regions_ok_def in_set_conv_nth)
  have b: "bounds_ok (ns ! k)" if "k < length ns" for k using assms(1) that by (simp add: regions_ok_def node_ok_def)
  have p: "sn_addr (ns ! j) + 32 \<le> p" "p + z \<le> sn_end (ns ! j)"
    using node_region [OF regions_node [OF assms(1) j(1)] assms(2) j(2)] b [OF j(1)] by (auto simp: bounds_ok_def)
  show ?thesis
  proof (cases "find_node p ns")
    case None
    then show ?thesis using find_node_None [OF None nth_mem [OF j(1)]] p by auto
  next
    case (Some i)
    from find_node_Some [OF Some] have i: "i < length ns" "sn_addr (ns ! i) \<le> p" "p \<le> sn_end (ns ! i)" by auto
    have "i = j"
    proof (rule ccontr)
      assume "i \<noteq> j"
      from other_block [OF assms(1) i(1) j(1) this] b [OF i(1)] b [OF j(1)] p i(2,3) j(3) show False
        by (auto simp: apart_def blk_def bounds_ok_def)
    qed
    with Some i(1) j(2) show ?thesis by blast
  qed
qed

lemma release_ok:
  assumes "regions_ok Z ns L B" and "r \<in> L" and "i < length ns" and "in_blk (ns ! i) r"
    and keep: "Z \<or> (sn_quote (ns ! i) = 1 \<longrightarrow> {q \<in> L. in_blk (ns ! i) q} = {r})"
  shows "regions_ok Z (ns[i := release (ns ! i)]) (L - {r}) B"
proof (rule regions_update [OF assms(1,3)])
  let ?n = "ns ! i"
  have n: "node_ok Z L ?n" using assms(1,3) by (simp add: regions_ok_def)
  show "sn_addr (release ?n) = sn_addr ?n" "sn_end (release ?n) = sn_end ?n" by (simp_all add: release_def Let_def)
  then have inb: "in_blk (release ?n) = in_blk ?n" by (simp add: in_blk_def)
  have set: "{q \<in> L - {r}. in_blk ?n q} = {q \<in> L. in_blk ?n q} - {r}" by auto
  have fin: "finite {q \<in> L. in_blk ?n q}" using assms(1) by (simp add: regions_ok_def)
  have "0 < card {q \<in> L. in_blk ?n q}" using fin assms(2,4) by (metis (mono_tags, lifting) card_gt_0_iff emptyE mem_Collect_eq)
  then have "sn_quote ?n \<noteq> 0" if Z using n that by (auto simp: node_ok_def)
  then have q: "unat (sn_quote ?n - 1) = card {q \<in> L - {r}. in_blk ?n q}" if Z
    using n assms(2,4) fin that unfolding set by (simp add: node_ok_def unat_minus_one card_Diff_singleton)
  have none: "{q \<in> L - {r}. in_blk ?n q} = {}" if "sn_quote ?n - 1 = 0"
  proof (cases Z)
    case True
    then have "card ({q \<in> L. in_blk ?n q} - {r}) = 0" using q [OF True] that unfolding set by simp
    then show ?thesis using fin unfolding set by simp
  next
    case False
    with keep that show ?thesis unfolding set by auto
  qed
  show "node_ok Z (L - {r}) (release ?n)"
  proof (cases "sn_quote ?n - 1 = 0")
    case True
    with n q none [OF True] show ?thesis unfolding node_ok_def inb by (auto simp: release_def Let_def bounds_ok_def sizeof_SmallNode_def)
  next
    case False
    with n q show ?thesis unfolding node_ok_def inb by (simp add: release_def Let_def bounds_ok_def)
  qed
  fix j assume j: "j < length ns" "j \<noteq> i"
  have m: "node_ok Z L (ns ! j)" using assms(1) j by (simp add: regions_ok_def)
  have "0 < snd r" using assms(1,2) by (simp add: regions_ok_def)
  then have "\<not> in_blk (ns ! j) r"
    using in_two_blocks [OF other_block [OF assms(1,3) j(1)] assms(4)] j m n by (auto simp: node_ok_def)
  then have "{q \<in> L - {r}. in_blk (ns ! j) q} = {q \<in> L. in_blk (ns ! j) q}" by auto
  with m show "node_ok Z (L - {r}) (ns ! j)" by (simp add: node_ok_def)
next
  show "finite (L - {r})" "pairwise apart (L - {r})" using assms(1) by (auto simp: regions_ok_def intro: pairwise_subset)
  show "\<And>q. q \<in> L - {r} \<Longrightarrow> 0 < snd q \<and> fst q mod 16 = 0 \<and> (\<exists>n\<in>set ns. in_blk n q)" using assms(1) by (simp add: regions_ok_def)
qed

lemma small_not_big:
  assumes "regions_ok Z ns L B" and "(p, z) \<in> L"
  shows "p \<notin> fst ` B"
proof
  assume "p \<in> fst ` B"
  then obtain y where y: "(p, y) \<in> B" "0 < y" using assms(1) by (force simp: regions_ok_def)
  from find_node_live [OF assms] obtain i where i: "i < length ns" "in_blk (ns ! i) (p, z)" by blast
  have "0 < z" "bounds_ok (ns ! i)" "apart (p, y) (blk (ns ! i))"
    using assms y(1) i(1) by (force simp: regions_ok_def node_ok_def)+
  with i(2) y(2) show False by (auto simp: apart_def blk_def in_blk_def bounds_ok_def)
qed

lemma free_large_None: "free_large p ls = None \<longleftrightarrow> p \<notin> set (addresses ls)"
  by (induction p ls rule: free_large.induct) (auto split: option.splits)

lemma free_large_Some:
  "free_large p ls = Some ls' \<Longrightarrow> distinct (addresses ls) \<Longrightarrow>
     distinct (addresses ls') \<and> set (addresses ls') = set (addresses ls) - {p} \<and> map cell ls' = map cell ls"
proof (induction p ls arbitrary: ls' rule: free_large.induct)
  case (2 p l ls)
  show ?case
  proof (cases "ln_address l = Some p")
    case True
    with 2 show ?thesis by (auto simp: cell_def)
  next
    case False
    with 2(2) obtain ks where ks: "free_large p ls = Some ks" "ls' = l # ks" by auto
    from 2(1) [OF False ks(1)] 2(3) have "distinct (addresses ks) \<and> set (addresses ks) = set (addresses ls) - {p} \<and> map cell ks = map cell ls" by simp
    with False 2(3) show ?thesis unfolding ks(2) by (cases "ln_address l") auto
  qed
qed simp

text \<open>A release does not bring a page's counter to zero while another region of the page is live.\<close>

definition keeps_counter :: "nat \<times> nat \<Rightarrow> mpool \<Rightarrow> (nat \<times> nat) set \<Rightarrow> bool" where
  "keeps_counter r s L \<longleftrightarrow> (\<forall>n\<in>set (mp_nodes s). in_blk n r \<and> sn_quote n = 1 \<longrightarrow> {q \<in> L. in_blk n q} = {r})"

lemma FreeMemory_finds:
  assumes "pool_ok Z s L B" and "(p, z) \<in> L"
  obtains i where "i < length (mp_nodes s)" "in_blk (mp_nodes s ! i) (p, z)"
    "FreeMemory p s = Inr (s\<lparr>mp_nodes := (mp_nodes s)[i := release (mp_nodes s ! i)],
       mp_current := (if sn_quote (release (mp_nodes s ! i)) = 0 then 0 else mp_current s)\<rparr>)"
proof -
  have ok: "regions_ok Z (mp_nodes s) L B" using assms by (simp add: pool_ok_def)
  from find_node_live [OF ok assms(2)] obtain i where i: "find_node p (mp_nodes s) = Some i" "i < length (mp_nodes s)" "in_blk (mp_nodes s ! i) (p, z)" by blast
  have "free_large p (mp_large s) = None" using small_not_big [OF ok assms(2)] assms(1) by (simp add: free_large_None pool_ok_def)
  with i that show thesis by (simp add: FreeMemory_def Let_def)
qed

lemma FreeMemory_small:
  assumes "pool_ok Z s L B" and "(p, z) \<in> L - cell ` set (mp_large s)" and "Z \<or> keeps_counter (p, z) s L"
  shows "\<exists>s'. FreeMemory p s = Inr s' \<and> pool_ok Z s' (L - {(p, z)}) B"
proof -
  have ok: "regions_ok Z (mp_nodes s) L B" "(p, z) \<in> L" using assms by (simp_all add: pool_ok_def)
  from FreeMemory_finds [OF assms(1) ok(2)] obtain i where i: "i < length (mp_nodes s)" "in_blk (mp_nodes s ! i) (p, z)"
    "FreeMemory p s = Inr (s\<lparr>mp_nodes := (mp_nodes s)[i := release (mp_nodes s ! i)],
       mp_current := (if sn_quote (release (mp_nodes s ! i)) = 0 then 0 else mp_current s)\<rparr>)" .
  have keep: "Z \<or> (sn_quote (mp_nodes s ! i) = 1 \<longrightarrow> {q \<in> L. in_blk (mp_nodes s ! i) q} = {(p, z)})"
    using assms(3) i(1,2) unfolding keeps_counter_def by (meson nth_mem)
  show ?thesis using release_ok [OF ok i(1,2) keep] assms(1,2) i by (auto simp: pool_ok_def)
qed

lemma FreeMemory_big:
  assumes "pool_ok Z s L B" and "(p, z) \<in> B"
  shows "\<exists>s'. FreeMemory p s = Inr s' \<and> pool_ok Z s' L (B - {(p, z)})"
proof -
  have s: "regions_ok Z (mp_nodes s) L B" "cell ` set (mp_large s) \<subseteq> L" "distinct (addresses (mp_large s))" "set (addresses (mp_large s)) = fst ` B"
    using assms(1) by (simp_all add: pool_ok_def)
  have "p \<in> set (addresses (mp_large s))" using assms(2) s(4) by force
  then obtain ls where ls: "free_large p (mp_large s) = Some ls" by (metis free_large_None not_Some_eq)
  note l = free_large_Some [OF ls s(3)]
  have "r = (p, z)" if "r \<in> B" "fst r = p" for r
  proof (rule ccontr)
    assume "r \<noteq> (p, z)"
    then have "apart r (p, z)" "0 < snd r" "0 < z" using that(1) assms(2) s(1) by (auto simp: regions_ok_def pairwise_def)
    with that(2) show False by (auto simp: apart_def)
  qed
  then have "fst ` (B - {(p, z)}) = fst ` B - {p}" by force
  moreover have "cell ` set ls = cell ` set (mp_large s)" using l by (metis list.set_map)
  moreover have "regions_ok Z (mp_nodes s) L (B - {(p, z)})" using s(1) by (auto simp: regions_ok_def intro: pairwise_subset)
  ultimately show ?thesis using assms(1) l s by (simp add: FreeMemory_def ls pool_ok_def)
qed

lemma ResetPool_ok:
  assumes "pool_ok Z s L B" and "ResetPool s = Inr s'"
  shows "pool_ok True s' {} {}"
proof -
  let ?f = "\<lambda>n. n\<lparr>sn_last := sn_addr n + sizeof_SmallNode, sn_failed := 0, sn_quote := 0\<rparr>"
  have "blk \<circ> ?f = blk" by (auto simp: blk_def)
  then have "map blk (map ?f (mp_nodes s)) = map blk (mp_nodes s)" by simp
  moreover have "node_ok True {} (?f n)" if "n \<in> set (mp_nodes s)" for n
    using assms that by (auto simp: pool_ok_def regions_ok_def node_ok_def bounds_ok_def sizeof_SmallNode_def)
  moreover have "mp_nodes s \<noteq> []" using assms by (auto simp: pool_ok_def)
  ultimately show ?thesis using assms by (auto simp: ResetPool_def pool_ok_def regions_ok_def simp del: map_map split: if_splits)
qed

lemma CreatePool_ok:
  assumes "p mod 16 = 0" and "p + 5000 < 2 ^ 64" and "CreatePool (Some p) q null_next = Some s"
  shows "pool_ok (q = 0) s {} {}"
proof -
  have "(p + 4096) mod 16 = 0" using assms(1) by presburger
  then show ?thesis using assms(2,3) by (auto simp: CreatePool_def pool_ok_def regions_ok_def node_ok_def bounds_ok_def mp_consts)
qed

section \<open>Runs of the pool\<close>

text \<open>
  Requests, releases of live regions and resets in any order. \<open>posix_memalign\<close> may fail at any time; what it gives is
  aligned and apart from everything in use, and holds any values. The flag says whether the counters \<open>quote_\<close> are exact: they are
  as long as \<open>quote_\<close> happened to be zero in every page, and \<open>ResetPool\<close> makes them so. While they are not, the runs are those in which no
  release brings the counter of a page to zero while another region of the page is live.
\<close>

inductive pool_reach :: "bool \<Rightarrow> mpool \<Rightarrow> (nat \<times> nat) set \<Rightarrow> (nat \<times> nat) set \<Rightarrow> bool" where
  Reach_create: "CreatePool (Some p) q null_next = Some s \<Longrightarrow> p mod 16 = 0 \<Longrightarrow> p + 5000 < 2 ^ 64 \<Longrightarrow> pool_reach (q = 0) s {} {}"
| Reach_malloc: "pool_reach exact s L B \<Longrightarrow> answers_ok big page z s B \<Longrightarrow> mp_malloc big page q f z s = Inr (r, s') \<Longrightarrow>
    grown z r s' (L, B) = (L', B') \<Longrightarrow> pool_reach (exact \<and> q = 0) s' L' B'"
| Reach_free: "pool_reach exact s L B \<Longrightarrow> (p, z) \<in> (L - cell ` set (mp_large s)) \<union> B \<Longrightarrow> exact \<or> keeps_counter (p, z) s L \<Longrightarrow>
    FreeMemory p s = Inr s' \<Longrightarrow> pool_reach exact s' (L - {(p, z)}) (B - {(p, z)})"
| Reach_reset: "pool_reach exact s L B \<Longrightarrow> ResetPool s = Inr s' \<Longrightarrow> pool_reach True s' {} {}"

lemma FreeMemory_ok:
  assumes "pool_ok Z s L B" and "(p, z) \<in> (L - cell ` set (mp_large s)) \<union> B" and "Z \<or> keeps_counter (p, z) s L"
  shows "\<exists>s'. FreeMemory p s = Inr s' \<and> pool_ok Z s' (L - {(p, z)}) (B - {(p, z)})"
proof (cases "(p, z) \<in> B")
  case True
  moreover have "regions_ok Z (mp_nodes s) L B" using assms(1) by (simp add: pool_ok_def)
  ultimately have "(p, z) \<notin> L" using small_not_big [of Z "mp_nodes s" L B p z] by force
  with FreeMemory_big [OF assms(1) True] show ?thesis by simp
next
  case False
  with FreeMemory_small [OF assms(1), of p z] assms(2,3) show ?thesis by simp
qed

lemma pool_reach_ok: "pool_reach exact s L B \<Longrightarrow> pool_ok exact s L B"
proof (induction rule: pool_reach.induct)
  case (Reach_create p q null_next s)
  from CreatePool_ok [OF Reach_create(2,3,1)] show ?case .
next
  case (Reach_malloc exact s L B big page z q f r s' L' B')
  have "pool_ok (exact \<and> q = 0) s L B" by (rule pool_ok_mono [OF Reach_malloc.IH]) simp
  from mp_malloc_ok [OF this Reach_malloc.hyps(2) _ Reach_malloc.hyps(3)] Reach_malloc.hyps(4) show ?case by simp
next
  case (Reach_free exact s L B p z s')
  from FreeMemory_ok [OF Reach_free.IH Reach_free.hyps(2,3)] Reach_free.hyps(4) show ?case by simp
next
  case (Reach_reset exact s L B s')
  from ResetPool_ok [OF Reach_reset.IH Reach_reset.hyps(2)] show ?case .
qed

lemma pool_ok_apart: "pool_ok Z s L B \<Longrightarrow> pairwise apart (L \<union> B)"
proof -
  assume ok: "pool_ok Z s L B"
  have "apart r b" if "r \<in> L" "b \<in> B" for r b
  proof -
    from that ok obtain n where n: "n \<in> set (mp_nodes s)" "in_blk n r" "apart b (blk n)" "bounds_ok n"
      by (auto simp: pool_ok_def regions_ok_def node_ok_def)
    then show ?thesis by (auto simp: apart_def blk_def in_blk_def bounds_ok_def)
  qed
  moreover have "pairwise apart L" "pairwise apart B" using ok by (simp_all add: pool_ok_def regions_ok_def)
  ultimately show ?thesis unfolding pairwise_def by (metis Un_iff apart_sym)
qed

lemma malloc_small_nodes: "malloc_small (Some b) q f z s = Inr (r, s') \<Longrightarrow> r \<noteq> None \<and> mp_null_end s' = mp_null_end s"
  by (auto simp: malloc_small_def MallocSmallNode_def Let_def split: option.splits if_splits prod.splits)

lemma small_request_served:
  fixes q :: "32 word"
  assumes "pool_reach exact s L B" and "mp_null_end s" and "0 < z" and "z \<le> 4064" and "fresh b PAGE_SIZE (mp_nodes s) B" and "b + 5000 < 2 ^ 64"
  shows "\<exists>a s'. pool_reach (exact \<and> q = 0) s' (insert (a, z) L) B \<and> mp_null_end s' \<and> (a, z) \<notin> L
    \<and> blk ` set (mp_nodes s') \<subseteq> insert (b, PAGE_SIZE) (blk ` set (mp_nodes s))"
proof -
  obtain r s' where m: "malloc_small (Some b) q 0 z s = Inr (r, s')" using malloc_small_total [OF assms(2)] by fastforce
  with malloc_small_nodes obtain a where a: "r = Some a" "mp_null_end s'" using assms(2) by blast
  have "pool_ok False s L B" by (rule pool_ok_mono [OF pool_reach_ok [OF assms(1)]]) simp
  from malloc_small_ok [OF this assms(3,4) _ _ m] assms(5,6) have al: "alloc_result False (Some b) s L B z (r, s')" by simp
  have "mp_malloc None (Some b) q 0 z s = Inr (Some a, s')" using m a assms(3,4) by (simp add: mp_malloc_def mp_consts)
  then have "pool_reach (exact \<and> q = 0) s' (insert (a, z) L) B"
    using assms by (intro Reach_malloc [OF assms(1), of None "Some b" z q 0 "Some a" s']) (simp_all add: answers_ok_def)
  with al a show ?thesis by (auto simp: alloc_result_def)
qed

lemma example_pool: "\<exists>s a b. pool_reach True s {(a, 3000), (b, 3000)} {} \<and> a \<noteq> b \<and> mp_null_end s"
proof -
  obtain s where s: "CreatePool (Some 4096) 0 True = Some s" by (simp add: CreatePool_def)
  then have b: "blk ` set (mp_nodes s) = {(4120, 4072)}" "mp_null_end s" by (auto simp: CreatePool_def blk_def mp_consts)
  have r: "pool_reach True s {} {}" using Reach_create [OF s] by simp
  have fresh: "fresh p PAGE_SIZE ns {}" if "p mod 16 = 0" "\<forall>k\<in>blk ` set ns. apart (p, PAGE_SIZE) k" for p ns using that by (simp add: fresh_def)
  have "fresh 16384 PAGE_SIZE (mp_nodes s) {}" by (rule fresh) (simp_all only: b, simp_all add: apart_def PAGE_SIZE_def)
  from small_request_served [OF r b(2) _ _ this, of 3000 0] obtain a1 s1 where
    1: "pool_reach True s1 {(a1, 3000)} {}" "mp_null_end s1" "blk ` set (mp_nodes s1) \<subseteq> {(16384, PAGE_SIZE), (4120, 4072)}" by (auto simp: b)
  have "fresh 32768 PAGE_SIZE (mp_nodes s1) {}"
    by (rule fresh) (use 1(3) in \<open>auto simp: apart_def PAGE_SIZE_def\<close>)
  from small_request_served [OF 1(1,2) _ _ this, of 3000 0] obtain a2 s2 where
    "pool_reach True s2 {(a2, 3000), (a1, 3000)} {}" "a2 \<noteq> a1" "mp_null_end s2" by auto
  then show ?thesis by blast
qed

lemma exact_keeps_counter:
  assumes "pool_ok True s L B" and "r \<in> L"
  shows "keeps_counter r s L"
  unfolding keeps_counter_def
proof (intro ballI impI)
  fix n assume n: "n \<in> set (mp_nodes s)" "in_blk n r \<and> sn_quote n = 1"
  then have "card {q \<in> L. in_blk n q} = 1" using assms(1) by (auto simp: pool_ok_def regions_ok_def node_ok_def)
  then obtain x where "{q \<in> L. in_blk n q} = {x}" by (metis card_1_singletonE)
  moreover have "r \<in> {q \<in> L. in_blk n q}" using n assms(2) by simp
  ultimately show "{q \<in> L. in_blk n q} = {r}" by simp
qed

lemma big_keeps_counter:
  assumes "pool_ok Z s L B" and "r \<in> B"
  shows "keeps_counter r s L"
proof -
  have "\<not> in_blk n r" if "n \<in> set (mp_nodes s)" for n
  proof -
    have "apart r (blk n)" "0 < snd r" "bounds_ok n" using assms that by (auto simp: pool_ok_def regions_ok_def node_ok_def)
    then show ?thesis by (auto simp: apart_def blk_def in_blk_def bounds_ok_def)
  qed
  then show ?thesis by (auto simp: keeps_counter_def)
qed

lemma node_not_freed:
  assumes "pool_ok Z s L B" and "i < length (mp_nodes s)"
  shows "sn_addr (mp_nodes s ! i) \<notin> set (addresses (mp_large s))"
proof
  assume "sn_addr (mp_nodes s ! i) \<in> set (addresses (mp_large s))"
  then obtain y where y: "(sn_addr (mp_nodes s ! i), y) \<in> B" using assms(1) by (auto simp: pool_ok_def)
  have n: "mp_nodes s ! i \<in> set (mp_nodes s)" using assms(2) by simp
  then have "apart (sn_addr (mp_nodes s ! i), y) (blk (mp_nodes s ! i))" "0 < y" "bounds_ok (mp_nodes s ! i)"
    using assms(1) y by (force simp: pool_ok_def regions_ok_def node_ok_def)+
  then show False by (auto simp: apart_def blk_def bounds_ok_def)
qed

lemma two_pages:
  assumes "regions_ok Z ns L B" and "(a, y) \<in> L" and "(b, z) \<in> L" and "(a, y) \<noteq> (b, z)" and "4064 < y + z"
  shows "length ns \<noteq> 1"
proof
  assume "length ns = 1"
  then obtain n where n: "ns = [n]" by (auto simp: length_Suc_conv)
  with assms(1-3) have "node_ok Z L n" "in_blk n (a, y)" "in_blk n (b, z)" by (auto simp: regions_ok_def)
  from node_region [OF this(1) assms(2) this(2)] node_region [OF this(1) assms(3) this(3)] this(1)
  have "sn_addr n + 32 \<le> a" "a + y \<le> sn_addr n + 4096" "sn_addr n + 32 \<le> b" "b + z \<le> sn_addr n + 4096" by (auto simp: node_ok_def bounds_ok_def)
  moreover have "apart (a, y) (b, z)" using assms(1-4) by (auto simp: regions_ok_def dest: pairwiseD)
  ultimately show False using assms(5) by (auto simp: apart_def)
qed

section \<open>Properties\<close>



text \<open>
  Without the condition on the releases the pool does hand out memory that is in use: if \<open>quote_\<close> of the first page happens to hold
  \<open>2 ^ 32 - 1\<close>, then after two requests the counter is one, releasing the first region brings it to zero, the page counts as
  empty, and the third request gets the memory of the first and of the second region, which is live.
\<close>

theorem junk_counter_overlaps:
  "\<exists>s s1 s2 s3 s4 a b. CreatePool (Some 4096) (- 1) True = Some s
    \<and> mp_malloc None None 0 0 100 s = Inr (Some a, s1) \<and> mp_malloc None None 0 0 100 s1 = Inr (Some b, s2)
    \<and> FreeMemory a s2 = Inr s3 \<and> mp_malloc None None 0 0 300 s3 = Inr (Some a, s4) \<and> \<not> apart (b, 100) (a, 300)"
  by (simp add: CreatePool_def mp_malloc_def malloc_small_def find_fit.simps mp_consts mp_align_ptr_def size_sub_def Let_def FreeMemory_def release_def apart_def)

text \<open>
  Property C34. \<open>DestroyPool\<close> uses freed memory exactly if the pool has more than one page: the loop over the pages after the first frees a node and
  then reads its \<open>next_\<close> to go on. This happens as soon as the live small regions no longer fit one page, two of more than 4064 bytes together. A pool
  of one page whose \<open>next_\<close> is null is destroyed properly: its large blocks and its page are freed, each once.
\<close>

theorem DestroyPool_use_after_free:
  assumes "pool_reach exact s L B"
  shows "(DestroyPool s = Inl Use_after_free \<longleftrightarrow> length (mp_nodes s) > 1)
    \<and> (\<forall>a y b z. (a, y) \<in> L \<and> (b, z) \<in> L \<and> (a, y) \<noteq> (b, z) \<and> 4064 < y + z \<longrightarrow> length (mp_nodes s) > 1)
    \<and> (length (mp_nodes s) = 1 \<and> mp_null_end s \<longrightarrow>
        DestroyPool s = Inr (addresses (mp_large s) @ [mp_base s]) \<and> distinct (addresses (mp_large s)) \<and> set (addresses (mp_large s)) = fst ` B)"
proof -
  note ok = pool_reach_ok [OF assms]
  have s: "mp_null_end s \<or> length (mp_nodes s) = 1" "mp_nodes s \<noteq> []" "regions_ok exact (mp_nodes s) L B"
    "distinct (addresses (mp_large s))" "set (addresses (mp_large s)) = fst ` B"
    using ok by (auto simp: pool_ok_def)
  have "DestroyPool s = Inl Use_after_free" if "length (mp_nodes s) > 1"
  proof -
    have "mp_null_end s" "sn_addr (mp_nodes s ! 0) \<notin> set (addresses (mp_large s))" "sn_addr (mp_nodes s ! 1) \<notin> set (addresses (mp_large s))"
      using s(1) node_not_freed [OF ok, of 0] node_not_freed [OF ok, of 1] that by (auto simp del: length_greater_0_conv)
    with that show ?thesis by (auto simp: DestroyPool_def read_next_def Let_def)
  qed
  moreover have "DestroyPool s = (if mp_null_end s then Inr (addresses (mp_large s) @ [mp_base s]) else Inl Out_of_bounds)" if "length (mp_nodes s) = 1"
    using that node_not_freed [OF ok, of 0] by (simp add: DestroyPool_def read_next_def Let_def)
  moreover have "length (mp_nodes s) > 1" if "(a, y) \<in> L" "(b, z) \<in> L" "(a, y) \<noteq> (b, z)" "4064 < y + z" for a y b z
    using two_pages [OF s(3) that] s(2) by (cases "length (mp_nodes s)") auto
  moreover have "length (mp_nodes s) > 1 \<or> length (mp_nodes s) = 1" using s(2) by (cases "mp_nodes s") auto
  ultimately have "DestroyPool s = Inl Use_after_free \<longleftrightarrow> length (mp_nodes s) > 1"
    "\<forall>a y b z. (a, y) \<in> L \<and> (b, z) \<in> L \<and> (a, y) \<noteq> (b, z) \<and> 4064 < y + z \<longrightarrow> length (mp_nodes s) > 1"
    "length (mp_nodes s) = 1 \<and> mp_null_end s \<longrightarrow> DestroyPool s = Inr (addresses (mp_large s) @ [mp_base s])"
    by (auto simp del: One_nat_def split: if_splits)
  with s(4,5) show ?thesis by blast
qed

theorem DestroyPool_use_after_free_witness:
  "\<exists>s a b. pool_reach True s {(a, 3000), (b, 3000)} {} \<and> DestroyPool s = Inl Use_after_free"
proof -
  from example_pool obtain s a b where r: "pool_reach True s {(a, 3000), (b, 3000)} {}" "a \<noteq> b" by blast
  with DestroyPool_use_after_free [OF r(1)] show ?thesis by fastforce
qed

end
