(* ===== verification/Mysql_Conn_Pool.thy ===== *)
theory Mysql_Conn_Pool
  imports Net_Prelude
begin

text \<open>
  \<open>mysql/mysql_conn_pool.{h,cc}\<close> and the idle clock of \<open>mysql/mysql_conn.cc\<close>: the pool of database connections with its producer and
  its recycler. The connections are numbered in the order of their creation; what the database does with them is outside the model, as is
  the JSON file, whose values are arguments. Each critical section is a function and \<open>conn_step\<close> interleaves them; the
  callers that wait for a connection do not change the state. \<open>current_size_\<close> is not initialised: its first value is an argument.
\<close>

section \<open>State\<close>

record mysql_conn =
  mc_id :: nat
  m_alivetime :: int      \<comment> \<open>nanoseconds\<close>

record conn_pool =
  min_size :: int
  max_size :: int
  max_idle_time :: int
  current_size :: int
  connection_queue :: "mysql_conn list"
  lent :: "mysql_conn list"      \<comment> \<open>the connections that callers of \<open>GetConnection\<close> hold\<close>
  created :: nat

definition RefreshAliveTime :: "int \<Rightarrow> mysql_conn \<Rightarrow> mysql_conn" where
  "RefreshAliveTime now c = c\<lparr>m_alivetime := now\<rparr>"

definition GetAliveTime :: "int \<Rightarrow> mysql_conn \<Rightarrow> int" where
  "GetAliveTime now c = (now - m_alivetime c) sdiv 1000000"

section \<open>Operations\<close>

definition AddConnection :: "int \<Rightarrow> conn_pool \<Rightarrow> conn_pool" where
  "AddConnection now s = s\<lparr>connection_queue := connection_queue s @ [RefreshAliveTime now \<lparr>mc_id = created s, m_alivetime = 0\<rparr>],
     current_size := current_size s + 1, created := created s + 1\<rparr>"

text \<open>An addition together with the increment that follows every call of \<open>AddConnection\<close>.\<close>

definition add_and_count :: "int \<Rightarrow> conn_pool \<Rightarrow> conn_pool" where
  "add_and_count now s = (AddConnection now s)\<lparr>current_size := current_size (AddConnection now s) + 1\<rparr>"

definition MysqlConnPool_new :: "int \<Rightarrow> int \<Rightarrow> int \<Rightarrow> int \<Rightarrow> int \<Rightarrow> conn_pool" where
  "MysqlConnPool_new junk now mn mx idle =
     (add_and_count now ^^ nat mn)
       \<lparr>min_size = mn, max_size = mx, max_idle_time = idle, current_size = junk, connection_queue = [], lent = [], created = 0\<rparr>"

text \<open>\<open>ProduceConnection\<close> after its wait, that is with an empty queue.\<close>

definition produce :: "int \<Rightarrow> conn_pool \<Rightarrow> conn_pool" where
  "produce now s = (if current_size s < max_size s then add_and_count now s else s)"

text \<open>The loop of \<open>RecycleConnection\<close>; the comparison converts \<open>min_size_\<close> to \<open>size_t\<close>.\<close>

function recycle :: "int \<Rightarrow> conn_pool \<Rightarrow> conn_pool" where
  "recycle now s =
     (case connection_queue s of
        [] \<Rightarrow> s
      | conn # rest \<Rightarrow>
          if length (connection_queue s) > size_of_int (min_size s) \<and> GetAliveTime now conn \<ge> max_idle_time s
          then recycle now (s\<lparr>connection_queue := rest, current_size := current_size s - 1\<rparr>) else s)"
  by auto
termination by (relation "measure (\<lambda>(now, s). length (connection_queue s))") auto

declare recycle.simps [simp del]

text \<open>\<open>GetConnection\<close> once the queue is not empty, and the deleter of the pointer it returns.\<close>

definition get_connection :: "conn_pool \<Rightarrow> (mysql_conn \<times> conn_pool) option" where
  "get_connection s =
     (case connection_queue s of
        [] \<Rightarrow> None
      | conn # rest \<Rightarrow> Some (conn, s\<lparr>connection_queue := rest, lent := lent s @ [conn]\<rparr>))"

definition give_back :: "int \<Rightarrow> mysql_conn \<Rightarrow> conn_pool \<Rightarrow> conn_pool" where
  "give_back now conn s = s\<lparr>lent := remove1 conn (lent s), connection_queue := connection_queue s @ [RefreshAliveTime now conn]\<rparr>"

definition MysqlConnPool_destroy :: "conn_pool \<Rightarrow> conn_pool" where
  "MysqlConnPool_destroy s = s\<lparr>current_size := current_size s - int (length (connection_queue s)), connection_queue := []\<rparr>"

inductive conn_step :: "conn_pool \<Rightarrow> conn_pool \<Rightarrow> bool" where
  Step_produce: "connection_queue s = [] \<Longrightarrow> conn_step s (produce now s)"
| Step_recycle: "conn_step s (recycle now s)"
| Step_get: "get_connection s = Some (c, s') \<Longrightarrow> conn_step s s'"
| Step_give: "c \<in> set (lent s) \<Longrightarrow> conn_step s (give_back now c s)"

inductive conn_reach :: "int \<Rightarrow> int \<Rightarrow> int \<Rightarrow> int \<Rightarrow> conn_pool \<Rightarrow> bool" for junk mn mx idle where
  Conn_init: "conn_reach junk mn mx idle (MysqlConnPool_new junk now mn mx idle)"
| Conn_step: "conn_reach junk mn mx idle s \<Longrightarrow> conn_step s s' \<Longrightarrow> conn_reach junk mn mx idle s'"

section \<open>Invariant\<close>

definition live :: "conn_pool \<Rightarrow> mysql_conn list" where
  "live s = connection_queue s @ lent s"

definition counted :: "int \<Rightarrow> conn_pool \<Rightarrow> bool" where
  "counted junk s \<longleftrightarrow> current_size s = junk + int (length (live s)) + int (created s) \<and> distinct (map mc_id (live s))
     \<and> (\<forall>c\<in>set (live s). mc_id c < created s)"

definition bounded :: "conn_pool \<Rightarrow> bool" where
  "bounded s \<longleftrightarrow> int (length (live s)) + int (created s) \<le> max (2 * min_size s) (max_size s + 1)"

lemma add_and_count_counted: "counted junk s \<Longrightarrow> counted junk (add_and_count now s)"
  by (force simp: counted_def add_and_count_def AddConnection_def RefreshAliveTime_def live_def)

lemma add_and_count_simps [simp]:
  "created (add_and_count now s) = Suc (created s)" "length (live (add_and_count now s)) = Suc (length (live s))"
  "min_size (add_and_count now s) = min_size s" "max_size (add_and_count now s) = max_size s"
  by (simp_all add: add_and_count_def AddConnection_def live_def)

lemma recycle_keeps:
  "counted junk s \<Longrightarrow> counted junk (recycle now s) \<and> (bounded s \<longrightarrow> bounded (recycle now s))
     \<and> min_size (recycle now s) = min_size s \<and> max_size (recycle now s) = max_size s"
proof (induction now s rule: recycle.induct)
  case (1 now s)
  show ?case
  proof (cases "connection_queue s")
    case Nil
    then show ?thesis using 1 by (simp add: recycle.simps)
  next
    case (Cons c rest)
    let ?t = "s\<lparr>connection_queue := rest, current_size := current_size s - 1\<rparr>"
    have t: "counted junk ?t" "bounded s \<Longrightarrow> bounded ?t"
      using 1(2) Cons by (auto simp: counted_def bounded_def live_def)
    show ?thesis
    proof (cases "length (connection_queue s) > size_of_int (min_size s) \<and> GetAliveTime now c \<ge> max_idle_time s")
      case True
      have r: "recycle now s = recycle now ?t" using Cons True by (subst recycle.simps) simp
      from 1(1) [OF Cons True t(1)] t(2) show ?thesis unfolding r by simp
    next
      case False
      then have "recycle now s = s" using Cons by (subst recycle.simps) auto
      then show ?thesis using 1(2) by simp
    qed
  qed
qed

lemma give_back_counted:
  assumes "counted junk s" and "c \<in> set (lent s)"
  shows "counted junk (give_back now c s) \<and> length (live (give_back now c s)) = length (live s)"
proof -
  from split_list_first [OF assms(2)] obtain us vs where l: "lent s = us @ c # vs" "c \<notin> set us" by blast
  have "lent (give_back now c s) = us @ vs" "mc_id (RefreshAliveTime now c) = mc_id c"
    using l by (simp_all add: give_back_def remove1_append RefreshAliveTime_def)
  with assms(1) l(1) show ?thesis by (simp add: counted_def live_def give_back_def Ball_def)
qed

lemma conn_step_inv:
  assumes "conn_step s s'" and "counted junk s"
  shows "counted junk s' \<and> (junk = 0 \<and> bounded s \<longrightarrow> bounded s') \<and> min_size s' = min_size s \<and> max_size s' = max_size s"
  using assms(1)
proof cases
  case (Step_produce now)
  have "current_size s < max_size s \<Longrightarrow> junk = 0 \<Longrightarrow> bounded (add_and_count now s)"
    using assms(2) by (auto simp: counted_def bounded_def)
  then show ?thesis using assms(2) add_and_count_counted [OF assms(2), of now] unfolding Step_produce(1) by (auto simp: produce_def)
next
  case (Step_recycle now)
  then show ?thesis using recycle_keeps [OF assms(2), of now] by simp
next
  case (Step_get c)
  then show ?thesis using assms(2) by (auto simp: get_connection_def counted_def bounded_def live_def split: list.splits) (metis disjoint_iff image_eqI)+
next
  case (Step_give c now')
  then show ?thesis using give_back_counted [OF assms(2) Step_give(2), of now'] by (auto simp: bounded_def) (auto simp: give_back_def)
qed

lemma initial_counted:
  assumes "counted junk s"
  shows "counted junk ((add_and_count now ^^ k) s) \<and> created ((add_and_count now ^^ k) s) = created s + k
    \<and> length (live ((add_and_count now ^^ k) s)) = length (live s) + k
    \<and> min_size ((add_and_count now ^^ k) s) = min_size s \<and> max_size ((add_and_count now ^^ k) s) = max_size s"
  by (induction k) (simp_all add: assms add_and_count_counted)

lemma new_counted:
  assumes "0 \<le> mn"
  shows "counted junk (MysqlConnPool_new junk now mn mx idle) \<and> bounded (MysqlConnPool_new junk now mn mx idle)
    \<and> min_size (MysqlConnPool_new junk now mn mx idle) = mn \<and> max_size (MysqlConnPool_new junk now mn mx idle) = mx"
proof -
  let ?s = "\<lparr>min_size = mn, max_size = mx, max_idle_time = idle, current_size = junk, connection_queue = [], lent = [], created = 0\<rparr>"
  have "counted junk ?s" by (simp add: counted_def live_def)
  from initial_counted [OF this, where now = now and k = "nat mn"] assms show ?thesis by (simp add: MysqlConnPool_new_def bounded_def) (simp add: live_def)
qed

lemma conn_reach_inv:
  assumes "conn_reach junk mn mx idle s" and "0 \<le> mn"
  shows "counted junk s \<and> (junk = 0 \<longrightarrow> bounded s) \<and> min_size s = mn \<and> max_size s = mx"
  using assms
proof (induction rule: conn_reach.induct)
  case (Conn_init now)
  then show ?case using new_counted [of mn] by simp
next
  case (Conn_step s s')
  then show ?case using conn_step_inv [OF Conn_step.hyps(2), of junk] by simp
qed

section \<open>Properties\<close>

text \<open>
  Property C10. The accounts of the connection pool. In every interleaving of the producer, the recycler and the users no connection is
  lent twice or both lent and queued, and \<open>current_size_\<close> is its uninitialised first value plus the number of live connections plus the
  number ever created, since every addition is counted twice and every removal once. Starting from zero, the live connections
  and all those ever created are therefore together bounded by \<open>max (2 * min_size_) (max_size_ + 1)\<close>: the pool never has more than about half
  of \<open>max_size_\<close> connections, and after that many creations it never creates another.
\<close>

theorem conn_pool_accounts:
  assumes "conn_reach junk mn mx idle s" and "0 \<le> mn"
  shows "current_size s = junk + int (length (connection_queue s @ lent s)) + int (created s)
    \<and> distinct (map mc_id (connection_queue s @ lent s))
    \<and> (junk = 0 \<longrightarrow> int (length (connection_queue s @ lent s)) + int (created s) \<le> max (2 * mn) (mx + 1))"
  using conn_reach_inv [OF assms] by (auto simp: counted_def bounded_def live_def)

theorem conn_pool_accounts_witness:
  "current_size (MysqlConnPool_new 0 0 2 8 60) = 4 \<and> length (connection_queue (MysqlConnPool_new 0 0 2 8 60)) = 2"
proof -
  have two: "nat 2 = Suc (Suc 0)" by simp
  have "length (connection_queue (MysqlConnPool_new 0 0 2 8 60)) = 2" "lent (MysqlConnPool_new 0 0 2 8 60) = []"
    "created (MysqlConnPool_new 0 0 2 8 60) = 2"
    by (simp_all add: MysqlConnPool_new_def two add_and_count_def AddConnection_def del: nat_numeral)
  with conn_pool_accounts [OF Conn_init, of 2 0 0 8 60] show ?thesis by simp
qed

end
