(* ===== verification/Mysql_Conn.thy ===== *)
theory Mysql_Conn
  imports Net_Prelude
begin

text \<open>
  \<open>mysql/mysql_conn.{h,cc}\<close>: one connection to the database. The client library is a parameter, a record of the functions the class calls; its
  handle and its result sets are opaque. Result sets live at addresses until \<open>mysql_free_result\<close>, and a row is memory of its result set: a pointer to
  it dangles once the set is freed.
\<close>

section \<open>Client library\<close>

text \<open>A column of a row is a null pointer for SQL's \<open>NULL\<close>. Return values are those of the C interface: non-zero means failure.\<close>

type_synonym mysql_row = "string option list"

record ('h, 'r) mysql_client =
  mysql_init :: "'h option"
  mysql_set_character_set :: "string \<Rightarrow> 'h \<Rightarrow> 'h"
  mysql_real_connect :: "string \<Rightarrow> string \<Rightarrow> string \<Rightarrow> string \<Rightarrow> nat \<Rightarrow> 'h \<Rightarrow> bool \<times> 'h"
  mysql_query :: "string \<Rightarrow> 'h \<Rightarrow> int \<times> 'h"
  mysql_store_result :: "'h \<Rightarrow> 'r option \<times> 'h"
  mysql_fetch_row :: "'r \<Rightarrow> mysql_row option \<times> 'r"
  mysql_num_fields :: "'r \<Rightarrow> nat"
  mysql_fetch_lengths :: "'r \<Rightarrow> nat list"
  mysql_autocommit :: "bool \<Rightarrow> 'h \<Rightarrow> int \<times> 'h"
  mysql_commit :: "'h \<Rightarrow> int \<times> 'h"
  mysql_rollback :: "'h \<Rightarrow> int \<times> 'h"

section \<open>State\<close>

record ('h, 'r) db_conn =
  db_handle :: "'h option"
  db_result :: "nat option"                   \<comment> \<open>\<open>result_\<close>\<close>
  db_row :: "(nat \<times> mysql_row) option"       \<comment> \<open>\<open>row_\<close>: the address of its result set, and its columns\<close>
  db_heap :: "nat \<rightharpoonup> 'r"                   \<comment> \<open>the result sets that are not freed\<close>
  db_next :: nat                              \<comment> \<open>the address of the next result set\<close>

text \<open>The library's functions read the handle they are given.\<close>

definition with_handle :: "('h \<Rightarrow> 'a \<times> 'h) \<Rightarrow> ('h, 'r) db_conn \<Rightarrow> ('a \<times> ('h, 'r) db_conn) result" where
  "with_handle f c = (case db_handle c of None \<Rightarrow> Inl Null_pointer | Some h \<Rightarrow> let (x, h) = f h in Inr (x, c\<lparr>db_handle := Some h\<rparr>))"

section \<open>Operations\<close>

definition MysqlConn_new :: "('h, 'r) mysql_client \<Rightarrow> ('h, 'r) db_conn result" where
  "MysqlConn_new client =
     bindr (with_handle (\<lambda>h. ((), mysql_set_character_set client ''utf8'' h))
              \<lparr>db_handle = mysql_init client, db_result = None, db_row = None, db_heap = Map.empty, db_next = 0\<rparr>)
       (\<lambda>(_, c). Inr c)"

text \<open>\<open>FreeResult\<close>; freeing a set twice would be an error.\<close>

definition FreeResult :: "('h, 'r) db_conn \<Rightarrow> ('h, 'r) db_conn result" where
  "FreeResult c =
     (case db_result c of
        None \<Rightarrow> Inr c
      | Some r \<Rightarrow> if db_heap c r = None then Inl Use_after_free else Inr (c\<lparr>db_heap := (db_heap c)(r := None), db_result := None\<rparr>))"

text \<open>The destructor closes the handle, if there is one, and then frees the result.\<close>

definition MysqlConn_destroy :: "('h, 'r) db_conn \<Rightarrow> ('h, 'r) db_conn result" where
  "MysqlConn_destroy c = FreeResult (c\<lparr>db_handle := None\<rparr>)"

definition Connect :: "('h, 'r) mysql_client \<Rightarrow> string \<Rightarrow> string \<Rightarrow> string \<Rightarrow> string \<Rightarrow> nat \<Rightarrow> ('h, 'r) db_conn \<Rightarrow> (bool \<times> ('h, 'r) db_conn) result" where
  "Connect client user passwd dbName ip port = with_handle (mysql_real_connect client ip user passwd dbName port)"

definition Update :: "('h, 'r) mysql_client \<Rightarrow> string \<Rightarrow> ('h, 'r) db_conn \<Rightarrow> (bool \<times> ('h, 'r) db_conn) result" where
  "Update client sql c = bindr (with_handle (mysql_query client sql) c) (\<lambda>(rc, c). if rc \<noteq> 0 then Inr (False, c) else Inr (True, c))"

definition store_at :: "'r option \<Rightarrow> ('h, 'r) db_conn \<Rightarrow> ('h, 'r) db_conn" where
  "store_at r c =
     (case r of
        None \<Rightarrow> c\<lparr>db_result := None\<rparr>
      | Some r \<Rightarrow> c\<lparr>db_result := Some (db_next c), db_heap := (db_heap c)(db_next c \<mapsto> r), db_next := db_next c + 1\<rparr>)"

definition Query :: "('h, 'r) mysql_client \<Rightarrow> string \<Rightarrow> ('h, 'r) db_conn \<Rightarrow> (bool \<times> ('h, 'r) db_conn) result" where
  "Query client sql c =
     bindr (FreeResult c) (\<lambda>c.
     bindr (with_handle (mysql_query client sql) c) (\<lambda>(rc, c).
       if rc \<noteq> 0 then Inr (False, c)
       else bindr (with_handle (mysql_store_result client) c) (\<lambda>(r, c). Inr (True, store_at r c))))"

definition Next :: "('h, 'r) mysql_client \<Rightarrow> ('h, 'r) db_conn \<Rightarrow> (bool \<times> ('h, 'r) db_conn) result" where
  "Next client c =
     (case db_result c of
        None \<Rightarrow> Inr (False, c)
      | Some a \<Rightarrow>
          (case db_heap c a of
             None \<Rightarrow> Inl Use_after_free
           | Some r \<Rightarrow>
               let (row, r) = mysql_fetch_row client r;
                   c = c\<lparr>db_row := map_option (Pair a) row, db_heap := (db_heap c)(a \<mapsto> r)\<rparr>
               in Inr (db_row c \<noteq> None, c)))"

text \<open>\<open>std::string(val, length)\<close>: a null pointer is allowed only with length 0.\<close>

definition string_of_column :: "string option \<Rightarrow> nat \<Rightarrow> string result" where
  "string_of_column val len =
     (case val of
        None \<Rightarrow> if len = 0 then Inr [] else Inl Null_pointer
      | Some s \<Rightarrow> if len \<le> length s then Inr (take len s) else Inl Out_of_bounds)"

definition Value :: "('h, 'r) mysql_client \<Rightarrow> int \<Rightarrow> ('h, 'r) db_conn \<Rightarrow> string result" where
  "Value client index c =
     (case db_result c of
        None \<Rightarrow> Inl Null_pointer
      | Some a \<Rightarrow>
          (case db_heap c a of
             None \<Rightarrow> Inl Use_after_free
           | Some r \<Rightarrow>
               let rowCount = int_of_size (mysql_num_fields client r)
               in if index \<ge> rowCount \<or> index < 0 then Inr []
                  else (case db_row c of
                          None \<Rightarrow> Inl Null_pointer
                        | Some (owner, cols) \<Rightarrow>
                            if db_heap c owner = None then Inl Use_after_free
                            else if nat index < length cols \<and> nat index < length (mysql_fetch_lengths client r)
                            then string_of_column (cols ! nat index) (mysql_fetch_lengths client r ! nat index)
                            else Inl Out_of_bounds)))"

definition Transaction :: "('h, 'r) mysql_client \<Rightarrow> ('h, 'r) db_conn \<Rightarrow> (bool \<times> ('h, 'r) db_conn) result" where
  "Transaction client c = bindr (with_handle (mysql_autocommit client False) c) (\<lambda>(rc, c). Inr (rc \<noteq> 0, c))"

definition Commit :: "('h, 'r) mysql_client \<Rightarrow> ('h, 'r) db_conn \<Rightarrow> (bool \<times> ('h, 'r) db_conn) result" where
  "Commit client c = bindr (with_handle (mysql_commit client) c) (\<lambda>(rc, c). Inr (rc \<noteq> 0, c))"

definition Rollbock :: "('h, 'r) mysql_client \<Rightarrow> ('h, 'r) db_conn \<Rightarrow> (bool \<times> ('h, 'r) db_conn) result" where
  "Rollbock client c = bindr (with_handle (mysql_rollback client) c) (\<lambda>(rc, c). Inr (rc \<noteq> 0, c))"

text \<open>The calls of a user, one after the other.\<close>

datatype db_call =
    Db_connect string string string string nat
  | Db_update string
  | Db_query string
  | Db_next
  | Db_transaction
  | Db_commit
  | Db_rollback

fun db_step :: "('h, 'r) mysql_client \<Rightarrow> ('h, 'r) db_conn \<Rightarrow> db_call \<Rightarrow> ('h, 'r) db_conn result" where
  "db_step client c (Db_connect user passwd dbName ip port) = bindr (Connect client user passwd dbName ip port c) (\<lambda>(_, c). Inr c)"
| "db_step client c (Db_update sql) = bindr (Update client sql c) (\<lambda>(_, c). Inr c)"
| "db_step client c (Db_query sql) = bindr (Query client sql c) (\<lambda>(_, c). Inr c)"
| "db_step client c Db_next = bindr (Next client c) (\<lambda>(_, c). Inr c)"
| "db_step client c Db_transaction = bindr (Transaction client c) (\<lambda>(_, c). Inr c)"
| "db_step client c Db_commit = bindr (Commit client c) (\<lambda>(_, c). Inr c)"
| "db_step client c Db_rollback = bindr (Rollbock client c) (\<lambda>(_, c). Inr c)"

section \<open>Reading a result\<close>

text \<open>A user of the class: read the columns of the current row, and the rows until \<open>Next\<close> returns false.\<close>

fun read_columns :: "('h, 'r) mysql_client \<Rightarrow> int list \<Rightarrow> ('h, 'r) db_conn \<Rightarrow> string list result" where
  "read_columns client [] c = Inr []"
| "read_columns client (i # is) c = bindr (Value client i c) (\<lambda>v. bindr (read_columns client is c) (\<lambda>vs. Inr (v # vs)))"

partial_function (option) read_rows :: "('h, 'r) mysql_client \<Rightarrow> int list \<Rightarrow> ('h, 'r) db_conn \<Rightarrow> (string list list \<times> ('h, 'r) db_conn) result option" where
  "read_rows client is c =
     (case Next client c of
        Inl e \<Rightarrow> Some (Inl e)
      | Inr (found, c) \<Rightarrow>
          if found
          then (case read_columns client is c of
                  Inl e \<Rightarrow> Some (Inl e)
                | Inr vs \<Rightarrow> Option.bind (read_rows client is c) (\<lambda>r. Some (bindr r (\<lambda>(rows, c). Inr (vs # rows, c)))))
          else Some (Inr ([], c)))"

text \<open>What the library promises of a stored result: \<open>mysql_fetch_row\<close> goes through its rows and ends with a null pointer, every row has \<open>n\<close> columns,
  and \<open>mysql_fetch_lengths\<close> gives the lengths of the current row, 0 for \<open>NULL\<close>.\<close>

definition column_length :: "string option \<Rightarrow> nat" where
  "column_length v = (case v of None \<Rightarrow> 0 | Some s \<Rightarrow> length s)"

fun yields :: "('h, 'r) mysql_client \<Rightarrow> nat \<Rightarrow> 'r \<Rightarrow> mysql_row list \<Rightarrow> bool" where
  "yields client n r [] \<longleftrightarrow> fst (mysql_fetch_row client r) = None"
| "yields client n r (row # rows) \<longleftrightarrow>
     (let (row', r') = mysql_fetch_row client r
      in row' = Some row \<and> length row = n \<and> mysql_num_fields client r' = n
         \<and> mysql_fetch_lengths client r' = map column_length row \<and> yields client n r' rows)"

definition column_text :: "string option \<Rightarrow> string" where
  "column_text v = (case v of None \<Rightarrow> [] | Some s \<Rightarrow> s)"

text \<open>The pointers of the object: \<open>result_\<close> is null or live, and addresses are not reused.\<close>

definition db_ok :: "('h, 'r) db_conn \<Rightarrow> bool" where
  "db_ok c \<longleftrightarrow> db_handle c \<noteq> None \<and> (case db_result c of None \<Rightarrow> db_heap c = Map.empty | Some a \<Rightarrow> a < db_next c \<and> dom (db_heap c) = {a})
     \<and> (case db_row c of None \<Rightarrow> True | Some (owner, _) \<Rightarrow> owner < db_next c)"

section \<open>Lemmas\<close>

lemma with_handle_ok: "db_ok c \<Longrightarrow> \<exists>x h. with_handle f c = Inr (x, c\<lparr>db_handle := Some h\<rparr>) \<and> (\<exists>h0. db_handle c = Some h0 \<and> f h0 = (x, h))"
  by (auto simp: with_handle_def db_ok_def split: prod.splits)

lemma db_ok_handle: "db_ok c \<Longrightarrow> db_ok (c\<lparr>db_handle := Some h\<rparr>)"
  by (auto simp: db_ok_def split: option.splits)

lemma FreeResult_ok:
  assumes "db_ok c"
  shows "FreeResult c = Inr (c\<lparr>db_heap := Map.empty, db_result := None\<rparr>)" "db_ok (c\<lparr>db_heap := Map.empty, db_result := None\<rparr>)"
proof -
  have "(db_heap c)(a := None) = Map.empty" if "dom (db_heap c) = {a}" for a
    using that by (auto simp: fun_eq_iff dom_def)
  moreover have "db_heap c a \<noteq> None" if "dom (db_heap c) = {a}" for a using that by blast
  ultimately show "FreeResult c = Inr (c\<lparr>db_heap := Map.empty, db_result := None\<rparr>)"
    using assms by (auto simp: FreeResult_def db_ok_def split: option.splits)
  show "db_ok (c\<lparr>db_heap := Map.empty, db_result := None\<rparr>)" using assms by (auto simp: db_ok_def split: option.splits)
qed

lemma MysqlConn_destroy_ok: "db_ok c \<Longrightarrow> MysqlConn_destroy c = Inr (c\<lparr>db_handle := None, db_heap := Map.empty, db_result := None\<rparr>)"
  using FreeResult_ok(1) [of c] by (cases "db_result c"; cases c; auto simp: MysqlConn_destroy_def FreeResult_def split: if_splits)

lemma store_at_ok:
  assumes "db_ok c" and "db_result c = None"
  shows "db_ok (store_at r c)"
  using assms by (auto simp: db_ok_def store_at_def split: option.splits)

lemma Query_ok:
  assumes "db_ok c"
  shows "\<exists>ok c'. Query client sql c = Inr (ok, c') \<and> db_ok c' \<and> db_row c' = db_row c \<and> dom (db_heap c') \<subseteq> {db_next c} \<and> (ok \<or> db_result c' = None)"
proof -
  let ?c = "c\<lparr>db_heap := Map.empty, db_result := None\<rparr>"
  note free = FreeResult_ok [OF assms]
  from with_handle_ok [OF free(2), of "mysql_query client sql"] obtain rc h where q: "with_handle (mysql_query client sql) ?c = Inr (rc, ?c\<lparr>db_handle := Some h\<rparr>)" by blast
  note ok = db_ok_handle [OF free(2), of h]
  show ?thesis
  proof (cases "rc = 0")
    case True
    from with_handle_ok [OF ok, of "mysql_store_result client"] obtain r h' where
      "with_handle (mysql_store_result client) (?c\<lparr>db_handle := Some h\<rparr>) = Inr (r, ?c\<lparr>db_handle := Some h\<rparr>\<lparr>db_handle := Some h'\<rparr>)" by blast
    then have "Query client sql c = Inr (True, store_at r (?c\<lparr>db_handle := Some h'\<rparr>))" using True by (simp add: Query_def free(1) q)
    moreover have "db_ok (store_at r (?c\<lparr>db_handle := Some h'\<rparr>))" by (rule store_at_ok [OF db_ok_handle [OF free(2)]]) simp
    ultimately show ?thesis by (auto simp: store_at_def split: option.splits)
  next
    case False
    then have "Query client sql c = Inr (False, ?c\<lparr>db_handle := Some h\<rparr>)" by (simp add: Query_def free(1) q)
    with ok show ?thesis by auto
  qed
qed

lemma Next_ok:
  assumes "db_ok c"
  shows "\<exists>found c'. Next client c = Inr (found, c') \<and> db_ok c'"
proof (cases "db_result c")
  case (Some a)
  then have a: "a < db_next c" "dom (db_heap c) = {a}" using assms by (auto simp: db_ok_def)
  then obtain r where r: "db_heap c a = Some r" by blast
  then show ?thesis using assms Some a by (auto simp: Next_def db_ok_def split: prod.splits option.splits)
qed (use assms in \<open>auto simp: Next_def\<close>)

lemma db_step_ok:
  assumes "db_ok c"
  shows "\<exists>c'. db_step client c x = Inr c' \<and> db_ok c'"
proof (cases x)
  case (Db_query sql)
  then show ?thesis using Query_ok [OF assms, of client sql] by auto
next
  case Db_next
  then show ?thesis using Next_ok [OF assms, of client] by auto
next
  case (Db_connect user passwd dbName ip port)
  then show ?thesis using with_handle_ok [OF assms, of "mysql_real_connect client ip user passwd dbName port"] db_ok_handle [OF assms] by (auto simp: Connect_def)
next
  case (Db_update sql)
  then show ?thesis using with_handle_ok [OF assms, of "mysql_query client sql"] db_ok_handle [OF assms] by (auto simp: Update_def)
next
  case Db_transaction
  then show ?thesis using with_handle_ok [OF assms, of "mysql_autocommit client False"] db_ok_handle [OF assms] by (auto simp: Transaction_def)
next
  case Db_commit
  then show ?thesis using with_handle_ok [OF assms, of "mysql_commit client"] db_ok_handle [OF assms] by (auto simp: Commit_def)
next
  case Db_rollback
  then show ?thesis using with_handle_ok [OF assms, of "mysql_rollback client"] db_ok_handle [OF assms] by (auto simp: Rollbock_def)
qed

lemma MysqlConn_new_ok:
  assumes "mysql_init client \<noteq> None"
  shows "\<exists>c. MysqlConn_new client = Inr c \<and> db_ok c"
  using assms by (auto simp: MysqlConn_new_def with_handle_def db_ok_def)

text \<open>The columns of the current row.\<close>

lemma read_columns_ok:
  assumes "db_result c = Some a" and "db_heap c a = Some r" and "db_row c = Some (a, row)" and "mysql_num_fields client r = length row"
    and "length row < 2 ^ 31" and "mysql_fetch_lengths client r = map column_length row" and "list_all (\<lambda>i. 0 \<le> i \<and> i < int (length row)) is"
  shows "read_columns client is c = Inr (map (\<lambda>i. column_text (row ! nat i)) is)"
  using assms(7)
proof (induction "is")
  case (Cons i "is")
  have "nat i < length row" using Cons.prems by auto
  then have "Value client i c = Inr (column_text (row ! nat i))"
    using Cons.prems assms(1-6)
    by (auto simp: Value_def int_of_size_eq string_of_column_def column_length_def column_text_def split: option.splits)
  then show ?case using Cons by simp
qed simp

lemma read_rows_ok:
  assumes "db_result c = Some a" and "db_heap c a = Some r" and "yields client n r rows" and "n < 2 ^ 31"
  shows "\<exists>r' row'. read_rows client (map int [0..<n]) c = Some (Inr (map (map column_text) rows, c\<lparr>db_row := row', db_heap := (db_heap c)(a \<mapsto> r')\<rparr>)) \<and> row' = None"
  using assms(1-3)
proof (induction rows arbitrary: c r)
  case Nil
  then show ?case by (subst read_rows.simps) (auto simp: Next_def split: prod.splits)
next
  case (Cons row rows)
  obtain r' where r': "mysql_fetch_row client r = (Some row, r')" "length row = n" "mysql_num_fields client r' = n"
    "mysql_fetch_lengths client r' = map column_length row" "yields client n r' rows"
    using Cons.prems(3) by (auto split: prod.splits)
  let ?c = "c\<lparr>db_row := Some (a, row), db_heap := (db_heap c)(a \<mapsto> r')\<rparr>"
  have step: "Next client c = Inr (True, ?c)" using Cons.prems(1,2) by (simp add: Next_def r'(1))
  have "read_columns client (map int [0..<n]) ?c = Inr (map (\<lambda>i. column_text (row ! nat i)) (map int [0..<n]))"
    by (rule read_columns_ok [where a = a and r = r' and row = row]) (use Cons.prems(1) r' assms(4) in \<open>simp_all add: list_all_iff\<close>)
  moreover have "map (\<lambda>i. column_text (row ! nat i)) (map int [0..<n]) = map column_text row"
    using r'(2) by (auto intro: nth_equalityI)
  moreover from Cons.IH [of ?c r'] Cons.prems(1) r'(5) obtain r'' where
    "read_rows client (map int [0..<n]) ?c = Some (Inr (map (map column_text) rows, ?c\<lparr>db_row := None, db_heap := (db_heap ?c)(a \<mapsto> r'')\<rparr>))" by fastforce
  ultimately show ?case by (subst read_rows.simps) (auto simp: step)
qed

section \<open>Properties\<close>

text \<open>
  Property C36. A query reads exactly what the database returned. From any state of the object, if the library runs the query and stores a result,
  then \<open>Query\<close> frees the previous result and returns true, and calling \<open>Next\<close> until it returns false and \<open>Value\<close> on every column gives the rows of
  the result in order, column by column, bytes after a NUL included and SQL's \<open>NULL\<close> as the empty string. The destructor then leaves no result set behind.
\<close>

theorem query_reads_rows:
  assumes "db_ok c" and "db_handle c = Some h" and "mysql_query client sql h = (0, h1)" and "mysql_store_result client h1 = (Some r, h2)"
    and "yields client n r rows" and "n < 2 ^ 31"
  shows "\<exists>c1 c2 c3. Query client sql c = Inr (True, c1) \<and> read_rows client (map int [0..<n]) c1 = Some (Inr (map (map column_text) rows, c2))
    \<and> db_ok c2 \<and> MysqlConn_destroy c2 = Inr c3 \<and> db_heap c3 = Map.empty"
proof -
  let ?c = "c\<lparr>db_heap := Map.empty, db_result := None\<rparr>"
  note free = FreeResult_ok [OF assms(1)]
  let ?c1 = "store_at (Some r) (?c\<lparr>db_handle := Some h2\<rparr>)"
  have q: "Query client sql c = Inr (True, ?c1)"
    using assms(2-4) by (simp add: Query_def free(1) with_handle_def)
  have ok: "db_ok ?c1" by (rule store_at_ok [OF db_ok_handle [OF free(2)]]) simp
  have res: "db_result ?c1 = Some (db_next c)" "db_heap ?c1 (db_next c) = Some r" by (simp_all add: store_at_def)
  from read_rows_ok [OF res assms(5,6)] obtain r' where
    rr: "read_rows client (map int [0..<n]) ?c1 = Some (Inr (map (map column_text) rows, ?c1\<lparr>db_row := None, db_heap := (db_heap ?c1)(db_next c \<mapsto> r')\<rparr>))"
    by blast
  let ?c2 = "?c1\<lparr>db_row := None, db_heap := (db_heap ?c1)(db_next c \<mapsto> r')\<rparr>"
  have "db_ok ?c2" using ok by (simp add: db_ok_def store_at_def)
  moreover have "MysqlConn_destroy ?c2 = Inr (?c2\<lparr>db_handle := None, db_heap := Map.empty, db_result := None\<rparr>)"
    by (simp add: MysqlConn_destroy_def FreeResult_def store_at_def)
  ultimately show ?thesis using q rr by fastforce
qed

text \<open>
  Property C37. The object stays well-formed through any sequence of calls: if the library could allocate the handle, the constructor and every call but \<open>Value\<close> succeed whatever
  the library answers, \<open>result_\<close> is null or points to a live result set, and that set is the only one on the heap, so that no result is leaked or freed
  twice. The destructor frees the last one. Without a handle the constructor itself follows a null pointer.
\<close>

theorem mysql_conn_well_formed:
  "(mysql_init client \<noteq> None \<longrightarrow>
      (\<exists>c0 c c'. MysqlConn_new client = Inr c0 \<and> foldr_result (db_step client) c0 calls = Inr c \<and> db_ok c \<and> card (dom (db_heap c)) \<le> 1
        \<and> MysqlConn_destroy c = Inr c' \<and> db_heap c' = Map.empty))
    \<and> (mysql_init client = None \<longrightarrow> MysqlConn_new client = Inl Null_pointer)"
proof (intro conjI impI)
  assume "mysql_init client \<noteq> None"
  from MysqlConn_new_ok [OF this] obtain c0 where c0: "MysqlConn_new client = Inr c0" "db_ok c0" by blast
  have "\<exists>c. foldr_result (db_step client) c0 calls = Inr c \<and> db_ok c"
    using c0(2)
  proof (induction calls arbitrary: c0)
    case (Cons x calls)
    from db_step_ok [OF Cons.prems, of client x] obtain c1 where "db_step client c0 x = Inr c1" "db_ok c1" by blast
    with Cons.IH [OF this(2)] show ?case by simp
  qed simp
  then obtain c where c: "foldr_result (db_step client) c0 calls = Inr c" "db_ok c" by blast
  then have d: "card (dom (db_heap c)) \<le> 1" by (auto simp: db_ok_def split: option.splits)
  have "\<exists>c'. MysqlConn_destroy c = Inr c' \<and> db_heap c' = Map.empty"
    using MysqlConn_destroy_ok [OF c(2)] by simp
  then show "\<exists>c0 c c'. MysqlConn_new client = Inr c0 \<and> foldr_result (db_step client) c0 calls = Inr c \<and> db_ok c \<and> card (dom (db_heap c)) \<le> 1
      \<and> MysqlConn_destroy c = Inr c' \<and> db_heap c' = Map.empty" using c0(1) c d by blast
qed (simp add: MysqlConn_new_def with_handle_def)

text \<open>A client whose handle and result sets are lists of rows.\<close>

definition example_client :: "(mysql_row list, mysql_row list \<times> mysql_row) mysql_client" where
  "example_client =
     \<lparr>mysql_init = Some [], mysql_set_character_set = (\<lambda>_ h. h), mysql_real_connect = (\<lambda>_ _ _ _ _ h. (True, h)),
      mysql_query = (\<lambda>sql h. if sql = ''SELECT'' then (0, [[Some ''7'', None]]) else (1, h)), mysql_store_result = (\<lambda>h. (Some (h, []), [])),
      mysql_fetch_row = (\<lambda>(rows, cur). case rows of [] \<Rightarrow> (None, ([], cur)) | row # rows \<Rightarrow> (Some row, (rows, row))),
      mysql_num_fields = (\<lambda>_. 2), mysql_fetch_lengths = (\<lambda>(rows, cur). map column_length cur),
      mysql_autocommit = (\<lambda>_ h. (0, h)), mysql_commit = (\<lambda>h. (0, h)), mysql_rollback = (\<lambda>h. (0, h))\<rparr>"

definition example_db :: "(mysql_row list, mysql_row list \<times> mysql_row) db_conn" where
  "example_db = \<lparr>db_handle = Some [], db_result = None, db_row = None, db_heap = Map.empty, db_next = 0\<rparr>"

theorem mysql_conn_well_formed_witness:
  "\<exists>c0 c c'. MysqlConn_new example_client = Inr c0 \<and> foldr_result (db_step example_client) c0 [Db_query ''SELECT'', Db_next, Db_query ''DROP''] = Inr c
    \<and> db_ok c \<and> card (dom (db_heap c)) \<le> 1 \<and> MysqlConn_destroy c = Inr c' \<and> db_heap c' = Map.empty"
proof -
  have "mysql_init example_client \<noteq> None" by (simp add: example_client_def)
  then show ?thesis using mysql_conn_well_formed [of example_client "[Db_query ''SELECT'', Db_next, Db_query ''DROP'']"] by blast
qed

theorem query_reads_rows_witness:
  "\<exists>c1 c2 c3. Query example_client ''SELECT'' example_db = Inr (True, c1)
    \<and> read_rows example_client (map int [0..<2]) c1 = Some (Inr (map (map column_text) [[Some ''7'', None]], c2))
    \<and> db_ok c2 \<and> MysqlConn_destroy c2 = Inr c3 \<and> db_heap c3 = Map.empty"
  by (rule query_reads_rows [where h = "[]" and ?h1.0 = "[[Some ''7'', None]]" and ?h2.0 = "[]" and r = "([[Some ''7'', None]], [])"])
    (simp_all add: example_client_def example_db_def db_ok_def)

text \<open>
  Property C38. The results of the operations disagree, and \<open>Value\<close> is unsafe without a current row. \<open>Update\<close> returns true when the library reports
  success, but \<open>Transaction\<close>, \<open>Commit\<close> and \<open>Rollbock\<close> return true exactly when it reports failure. A query with a result leaves the pointer to the current row
  of an earlier one: reading a column before \<open>Next\<close> then reads a freed row. After the last row, or when the query failed, the same
  call follows a null pointer.
\<close>

theorem mysql_conn_errors:
  assumes "db_ok c" and "db_handle c = Some h"
  shows "(\<exists>c1 c2 c3 c4. Update client sql c = Inr (fst (mysql_query client sql h) = 0, c1)
      \<and> Transaction client c = Inr (fst (mysql_autocommit client False h) \<noteq> 0, c2)
      \<and> Commit client c = Inr (fst (mysql_commit client h) \<noteq> 0, c3) \<and> Rollbock client c = Inr (fst (mysql_rollback client h) \<noteq> 0, c4))
    \<and> (Query client sql c = Inr (True, c') \<and> db_row c \<noteq> None \<and> db_result c' = Some a \<and> db_heap c' a = Some r
        \<and> 0 \<le> i \<and> i < int_of_size (mysql_num_fields client r) \<longrightarrow> Value client i c' = Inl Use_after_free)
    \<and> (Next client c = Inr (False, c') \<and> db_result c' = Some a \<and> db_heap c' a = Some r
        \<and> 0 \<le> i \<and> i < int_of_size (mysql_num_fields client r) \<longrightarrow> Value client i c' = Inl Null_pointer)
    \<and> (Query client sql c = Inr (False, c') \<longrightarrow> Value client i c' = Inl Null_pointer)"
proof (intro conjI impI; (elim conjE)?)
  show "\<exists>c1 c2 c3 c4. Update client sql c = Inr (fst (mysql_query client sql h) = 0, c1)
      \<and> Transaction client c = Inr (fst (mysql_autocommit client False h) \<noteq> 0, c2)
      \<and> Commit client c = Inr (fst (mysql_commit client h) \<noteq> 0, c3) \<and> Rollbock client c = Inr (fst (mysql_rollback client h) \<noteq> 0, c4)"
    using assms(2) by (auto simp: Update_def Transaction_def Commit_def Rollbock_def with_handle_def split: prod.splits)
next
  assume q: "Query client sql c = Inr (True, c')" "db_row c \<noteq> None" "db_result c' = Some a" "db_heap c' a = Some r"
    "0 \<le> i" "i < int_of_size (mysql_num_fields client r)"
  from q(2) obtain owner cols where row: "db_row c = Some (owner, cols)" by auto
  then have "owner < db_next c" using assms(1) by (simp add: db_ok_def)
  moreover have "db_row c' = db_row c" "dom (db_heap c') \<subseteq> {db_next c}" using Query_ok [OF assms(1), of client sql] q(1) by auto
  ultimately have "db_row c' = Some (owner, cols)" "db_heap c' owner = None" using row by auto
  with q(3-6) show "Value client i c' = Inl Use_after_free" by (simp add: Value_def)
next
  assume n: "Next client c = Inr (False, c')" "db_result c' = Some a" "db_heap c' a = Some r" "0 \<le> i" "i < int_of_size (mysql_num_fields client r)"
  have "db_row c' = None"
  proof (cases "db_result c")
    case None
    then show ?thesis using n(1,2) by (simp add: Next_def)
  qed (use n(1) in \<open>auto simp: Next_def split: option.splits prod.splits\<close>)
  with n(2-5) show "Value client i c' = Inl Null_pointer" by (simp add: Value_def)
next
  assume "Query client sql c = Inr (False, c')"
  then have "db_result c' = None" using Query_ok [OF assms(1), of client sql] by auto
  then show "Value client i c' = Inl Null_pointer" by (simp add: Value_def)
qed

theorem mysql_conn_errors_witness:
  "\<exists>c'. Query example_client ''SELECT'' (example_db\<lparr>db_result := Some 0, db_row := Some (0, [Some ''7'', None]), db_heap := [0 \<mapsto> ([], [Some ''7'', None])], db_next := 1\<rparr>)
      = Inr (True, c') \<and> Value example_client 0 c' = Inl Use_after_free"
proof -
  let ?c = "example_db\<lparr>db_result := Some 0, db_row := Some (0, [Some ''7'', None]), db_heap := [0 \<mapsto> ([], [Some ''7'', None])], db_next := 1\<rparr>"
  let ?c' = "example_db\<lparr>db_result := Some 1, db_row := Some (0, [Some ''7'', None]), db_heap := [1 \<mapsto> ([[Some ''7'', None]], [])], db_next := 2\<rparr>"
  have q: "Query example_client ''SELECT'' ?c = Inr (True, ?c')"
    by (simp add: Query_def FreeResult_def with_handle_def store_at_def example_client_def example_db_def)
  moreover have "db_ok ?c" "db_handle ?c = Some []" by (simp_all add: db_ok_def example_db_def)
  from mysql_conn_errors [OF this, of example_client "''SELECT''" ?c' 1 "([[Some ''7'', None]], [])" 0] q have "Value example_client 0 ?c' = Inl Use_after_free"
    by (simp add: example_client_def int_of_size_eq)
  ultimately show ?thesis by blast
qed

end
