(* ===== verification/Idle_Connection.thy ===== *)
theory Idle_Connection
  imports Timestamp Buffer
begin

text \<open>
  \<open>examples/idleconnection\<close>: two echo servers that close idle connections. The first (\<open>echo.{h,cc}\<close>) is a timing wheel: a ring of
  buckets of reference-counted entries, one bucket per second, and an entry that falls out of the last bucket shuts its
  connection down. The second (\<open>sortedlist.cc\<close>) keeps the connections in the order of their last message. A connection is a
  number, and so is the one entry or node it has, since \<open>TcpConnection\<close> reports a connection as up once; the calls of
  \<open>Shutdown\<close> and \<open>Send\<close> are collected. The ring is Boost's \<open>circular_buffer\<close>: what
  \<open>resize\<close> and \<open>push_back\<close> make of its contents are parameters.
\<close>

section \<open>The echo\<close>

definition echo_message :: "nat \<Rightarrow> buffer \<Rightarrow> (nat \<times> string) list \<Rightarrow> ((nat \<times> string) list \<times> buffer) result" where
  "echo_message c buf sent = bindr (RetrieveAllAsString buf) (\<lambda>(msg, buf). Inr (sent @ [(c, msg)], buf))"

section \<open>The timing wheel\<close>

record wheel =
  connectionBuckets :: "nat set list"   \<comment> \<open>the oldest bucket first\<close>
  wh_alive :: "nat set"                 \<comment> \<open>connections whose object exists\<close>
  wh_context :: "nat set"               \<comment> \<open>connections whose context is set\<close>
  wh_shutdown :: "nat set"              \<comment> \<open>connections on which \<open>~Entry\<close> called \<open>Shutdown\<close>\<close>
  wh_sent :: "(nat \<times> string) list"      \<comment> \<open>what was passed to \<open>Send\<close>, in order\<close>

type_synonym ring_push = "nat set list \<Rightarrow> nat set \<Rightarrow> nat set list"

definition Wheel_new :: "(nat \<Rightarrow> nat set list result) \<Rightarrow> int \<Rightarrow> wheel result" where
  "Wheel_new resized idleSeconds =
     bindr (resized (size_of_int idleSeconds)) (\<lambda>bs. Inr \<lparr>connectionBuckets = bs, wh_alive = {}, wh_context = {}, wh_shutdown = {}, wh_sent = []\<rparr>)"

text \<open>\<open>connectionBuckets_.back().insert(entry)\<close>\<close>

definition insert_back :: "nat \<Rightarrow> wheel \<Rightarrow> wheel result" where
  "insert_back c w =
     (if connectionBuckets w = [] then Inl Out_of_bounds
      else Inr (w\<lparr>connectionBuckets := (connectionBuckets w)[length (connectionBuckets w) - 1 := insert c (last (connectionBuckets w))]\<rparr>))"

definition Wheel_up :: "nat \<Rightarrow> wheel \<Rightarrow> wheel result" where
  "Wheel_up c w = bindr (insert_back c w) (\<lambda>w. Inr (w\<lparr>wh_alive := insert c (wh_alive w), wh_context := insert c (wh_context w)\<rparr>))"

definition Wheel_down :: "nat \<Rightarrow> wheel \<Rightarrow> wheel result" where
  "Wheel_down c w = assertr (c \<in> wh_context w) (Inr w)"

text \<open>An entry exists, and can be locked, while a bucket holds it.\<close>

definition entries :: "nat set list \<Rightarrow> nat set" where
  "entries bs = \<Union> (set bs)"

definition Wheel_OnMessage :: "nat \<Rightarrow> buffer \<Rightarrow> wheel \<Rightarrow> (wheel \<times> buffer) result" where
  "Wheel_OnMessage c buf w =
     bindr (echo_message c buf (wh_sent w)) (\<lambda>(sent, buf). let w = w\<lparr>wh_sent := sent\<rparr> in
       assertr (c \<in> wh_context w)
         (bindr (if c \<in> entries (connectionBuckets w) then insert_back c w else Inr w) (\<lambda>w. Inr (w, buf))))"

text \<open>The entries that no bucket holds after \<open>push_back\<close> are destroyed: \<open>~Entry\<close> shuts those connections down that still exist.\<close>

definition destroy_entries :: "nat set \<Rightarrow> wheel \<Rightarrow> wheel" where
  "destroy_entries es w = w\<lparr>wh_shutdown := wh_shutdown w \<union> (es \<inter> wh_alive w)\<rparr>"

definition Wheel_OnTimer :: "ring_push \<Rightarrow> wheel \<Rightarrow> wheel" where
  "Wheel_OnTimer push_back w =
     (let bs = push_back (connectionBuckets w) {}
      in destroy_entries (entries (connectionBuckets w) - entries bs) (w\<lparr>connectionBuckets := bs\<rparr>))"

datatype wheel_op = W_up nat | W_down nat | W_message nat buffer | W_gone nat | is_tick: W_tick

fun wheel_step :: "ring_push \<Rightarrow> wheel \<Rightarrow> wheel_op \<Rightarrow> wheel result" where
  "wheel_step push_back w (W_up c) = Wheel_up c w"
| "wheel_step push_back w (W_down c) = Wheel_down c w"
| "wheel_step push_back w (W_message c buf) = bindr (Wheel_OnMessage c buf w) (\<lambda>(w, buf). Inr w)"
| "wheel_step push_back w (W_gone c) = Inr (w\<lparr>wh_alive := wh_alive w - {c}\<rparr>)"
| "wheel_step push_back w W_tick = Inr (Wheel_OnTimer push_back w)"

section \<open>The sorted list\<close>

record sorted_list =
  idleSeconds :: int
  connectionList :: "nat list"
  sl_alive :: "nat set"                        \<comment> \<open>connections whose object exists\<close>
  sl_up :: "nat set"                           \<comment> \<open>reported as up and not yet as down\<close>
  sl_connected :: "nat set"                    \<comment> \<open>those for which \<open>Connected()\<close> holds\<close>
  lastReceiveTime :: "nat \<rightharpoonup> timestamp"       \<comment> \<open>the node in the context\<close>
  sl_shutdown :: "nat list"                    \<comment> \<open>\<open>Shutdown\<close> and \<open>ForceCloseWithDelay(3.5)\<close>, in order\<close>
  sl_sent :: "(nat \<times> string) list"             \<comment> \<open>what was passed to \<open>Send\<close>, in order\<close>

definition List_new :: "int \<Rightarrow> sorted_list" where
  "List_new idle_seconds =
     \<lparr>idleSeconds = idle_seconds, connectionList = [], sl_alive = {}, sl_up = {}, sl_connected = {},
      lastReceiveTime = Map.empty, sl_shutdown = [], sl_sent = []\<rparr>"

definition List_up :: "timestamp \<Rightarrow> nat \<Rightarrow> sorted_list \<Rightarrow> sorted_list" where
  "List_up now c s = s\<lparr>connectionList := connectionList s @ [c], sl_alive := insert c (sl_alive s), sl_up := insert c (sl_up s),
     sl_connected := insert c (sl_connected s), lastReceiveTime := (lastReceiveTime s)(c \<mapsto> now)\<rparr>"

text \<open>\<open>erase\<close> and \<open>splice\<close> at the node's position; the position of an erased element is no longer valid.\<close>

definition List_down :: "nat \<Rightarrow> sorted_list \<Rightarrow> sorted_list result" where
  "List_down c s = assertr (lastReceiveTime s c \<noteq> None)
     (if c \<notin> set (connectionList s) then Inl Use_after_free
      else Inr (s\<lparr>connectionList := remove1 c (connectionList s), sl_up := sl_up s - {c}, sl_connected := sl_connected s - {c}\<rparr>))"

definition List_OnMessage :: "nat \<Rightarrow> buffer \<Rightarrow> timestamp \<Rightarrow> sorted_list \<Rightarrow> (sorted_list \<times> buffer) result" where
  "List_OnMessage c buf time s =
     bindr (echo_message c buf (sl_sent s)) (\<lambda>(sent, buf). let s = s\<lparr>sl_sent := sent\<rparr> in
       assertr (lastReceiveTime s c \<noteq> None)
         (if c \<notin> set (connectionList s) then Inl Use_after_free
          else Inr (s\<lparr>lastReceiveTime := (lastReceiveTime s)(c \<mapsto> time), connectionList := remove1 c (connectionList s) @ [c]\<rparr>, buf)))"

text \<open>
  The body of \<open>OnTimer\<close> for a connection that is too old: \<open>Shutdown\<close> leaves \<open>kConnected\<close>, so a connection is shut down
  once; it stays in the list until it is reported as down. The loop gives what remains of the list and the new state.
\<close>

definition close_idle :: "nat \<Rightarrow> sorted_list \<Rightarrow> sorted_list" where
  "close_idle c s =
     (if c \<in> sl_connected s then s\<lparr>sl_connected := sl_connected s - {c}, sl_shutdown := sl_shutdown s @ [c]\<rparr> else s)"

fun timer_loop :: "(rat \<Rightarrow> rat) \<Rightarrow> timestamp \<Rightarrow> sorted_list \<Rightarrow> nat list \<Rightarrow> (nat list \<times> sorted_list) result" where
  "timer_loop rnd now s [] = Inr ([], s)"
| "timer_loop rnd now s (c # cs) =
     (if c \<in> sl_alive s
      then case lastReceiveTime s c of
             None \<Rightarrow> Inl Null_pointer
           | Some t \<Rightarrow>
               let age = TimeDifference rnd now t
               in if age > of_int (idleSeconds s)
                  then bindr (timer_loop rnd now (close_idle c s) cs) (\<lambda>(l, s). Inr (c # l, s))
                  else if age < 0
                  then bindr (timer_loop rnd now (s\<lparr>lastReceiveTime := (lastReceiveTime s)(c \<mapsto> now)\<rparr>) cs) (\<lambda>(l, s). Inr (c # l, s))
                  else Inr (c # cs, s)
      else timer_loop rnd now s cs)"

definition List_OnTimer :: "(rat \<Rightarrow> rat) \<Rightarrow> timestamp \<Rightarrow> sorted_list \<Rightarrow> sorted_list result" where
  "List_OnTimer rnd now s = bindr (timer_loop rnd now s (connectionList s)) (\<lambda>(l, s). Inr (s\<lparr>connectionList := l\<rparr>))"

text \<open>
  The states the server reaches. A message carries the time \<open>P\<close> at which the poller last returned, while \<open>OnConnection\<close> and
  \<open>OnTimer\<close> read the clock themselves, later in the same iteration of the loop: \<open>N\<close> is the latest time that was read, and
  an iteration lasts at most \<open>slack\<close> microseconds. The clock does not go back. A connection comes up once, and its object
  disappears only after it was reported as down.
\<close>

inductive list_reach :: "(rat \<Rightarrow> rat) \<Rightarrow> int \<Rightarrow> int \<Rightarrow> timestamp \<Rightarrow> timestamp \<Rightarrow> sorted_list \<Rightarrow> bool" for rnd idle slack where
  reach_new: "list_reach rnd idle slack P P (List_new idle)"
| reach_poll: "list_reach rnd idle slack P N s \<Longrightarrow> N \<le> P' \<Longrightarrow> list_reach rnd idle slack P' P' s"
| reach_up: "list_reach rnd idle slack P N s \<Longrightarrow> N \<le> now \<Longrightarrow> micro_seconds_since_epoch now \<le> micro_seconds_since_epoch P + slack
    \<Longrightarrow> lastReceiveTime s c = None \<Longrightarrow> list_reach rnd idle slack P now (List_up now c s)"
| reach_down: "list_reach rnd idle slack P N s \<Longrightarrow> List_down c s = Inr s' \<Longrightarrow> list_reach rnd idle slack P N s'"
| reach_message: "list_reach rnd idle slack P N s \<Longrightarrow> List_OnMessage c buf P s = Inr (s', buf') \<Longrightarrow> list_reach rnd idle slack P N s'"
| reach_gone: "list_reach rnd idle slack P N s \<Longrightarrow> c \<notin> sl_up s \<Longrightarrow> list_reach rnd idle slack P N (s\<lparr>sl_alive := sl_alive s - {c}\<rparr>)"
| reach_timer: "list_reach rnd idle slack P N s \<Longrightarrow> N \<le> now \<Longrightarrow> micro_seconds_since_epoch now \<le> micro_seconds_since_epoch P + slack
    \<Longrightarrow> List_OnTimer rnd now s = Inr s' \<Longrightarrow> list_reach rnd idle slack P now s'"

section \<open>Lemmas: the wheel\<close>

text \<open>The newest bucket that holds \<open>c\<close> is number \<open>j\<close>.\<close>

definition newest_at :: "nat \<Rightarrow> nat \<Rightarrow> wheel \<Rightarrow> bool" where
  "newest_at c j w \<longleftrightarrow> j < length (connectionBuckets w) \<and> c \<in> connectionBuckets w ! j
     \<and> (\<forall>i. j < i \<and> i < length (connectionBuckets w) \<longrightarrow> c \<notin> connectionBuckets w ! i)"

fun about :: "nat \<Rightarrow> wheel_op \<Rightarrow> bool" where
  "about c (W_up d) = (c = d)" | "about c (W_message d buf) = (c = d)" | "about c (W_gone d) = (c = d)" | "about c _ = False"

lemma newest_at_update [simp]: "newest_at c j (w\<lparr>wh_alive := a, wh_context := d\<rparr>) = newest_at c j w"
  "newest_at c j (w\<lparr>wh_sent := m\<rparr>) = newest_at c j w"
  by (simp_all add: newest_at_def)

lemma insert_back_keeps:
  assumes "insert_back d w = Inr w'" and "c \<noteq> d"
  shows "length (connectionBuckets w') = length (connectionBuckets w)" "newest_at c j w' = newest_at c j w"
    "wh_alive w' = wh_alive w \<and> wh_shutdown w' = wh_shutdown w"
proof -
  let ?bs = "connectionBuckets w"
  from assms(1) have ne: "?bs \<noteq> []" and w': "w' = w\<lparr>connectionBuckets := ?bs[length ?bs - 1 := insert d (last ?bs)]\<rparr>"
    by (auto simp: insert_back_def split: if_splits)
  show "length (connectionBuckets w') = length ?bs" "wh_alive w' = wh_alive w \<and> wh_shutdown w' = wh_shutdown w" by (simp_all add: w')
  have "c \<in> connectionBuckets w' ! i \<longleftrightarrow> c \<in> ?bs ! i" if "i < length ?bs" for i
    using that ne assms(2) by (simp add: w' nth_list_update last_conv_nth)
  then show "newest_at c j w' = newest_at c j w" by (auto simp: newest_at_def w')
qed

lemma insert_back_newest:
  assumes "insert_back c w = Inr w'"
  shows "length (connectionBuckets w') = length (connectionBuckets w)" "newest_at c (length (connectionBuckets w) - 1) w'"
    "wh_alive w' = wh_alive w \<and> wh_shutdown w' = wh_shutdown w"
  using assms by (auto simp: insert_back_def newest_at_def split: if_splits)

lemma tick_moves:
  assumes ring: "\<And>b bs x. push_back (b # bs) x = bs @ [x]"
    and "newest_at c j w" and "c \<in> wh_alive w" and "c \<notin> wh_shutdown w"
  shows "if j = 0 then c \<in> wh_shutdown (Wheel_OnTimer push_back w)
         else newest_at c (j - 1) (Wheel_OnTimer push_back w) \<and> c \<notin> wh_shutdown (Wheel_OnTimer push_back w)"
proof -
  from assms(2) obtain b bs where b: "connectionBuckets w = b # bs" by (cases "connectionBuckets w") (auto simp: newest_at_def)
  have later: "c \<notin> bs ! i" if "j \<le> i" "i < length bs" for i
    using assms(2) that by (auto simp: newest_at_def b dest: spec [of _ "Suc i"])
  note simps = Wheel_OnTimer_def destroy_entries_def entries_def b ring Let_def
  show ?thesis
  proof (cases j)
    case 0
    then have "c \<in> b" "\<forall>d\<in>set bs. c \<notin> d" using assms(2) later by (auto simp: newest_at_def b in_set_conv_nth)
    then show ?thesis using 0 assms(3) by (simp add: simps)
  next
    case (Suc k)
    then have k: "k < length bs" "c \<in> bs ! k" using assms(2) by (auto simp: newest_at_def b)
    have "c \<notin> (bs @ [{}]) ! i" if "k < i" "i < Suc (length bs)" for i using later [of i] that Suc by (auto simp: nth_append)
    with k show ?thesis using Suc assms(4) by (auto simp: simps newest_at_def nth_append)
  qed
qed

lemma message_step:
  assumes "wheel_step push_back w (W_message c buf) = Inr w'"
  shows "\<exists>sent. c \<in> wh_context w
    \<and> (if c \<in> entries (connectionBuckets w) then insert_back c (w\<lparr>wh_sent := sent\<rparr>) = Inr w' else w' = w\<lparr>wh_sent := sent\<rparr>)"
proof (cases "echo_message c buf (wh_sent w)")
  case (Inr r)
  obtain sent buf' where r: "r = (sent, buf')" by (cases r)
  from assms Inr show ?thesis
    by (cases "insert_back c (w\<lparr>wh_sent := sent\<rparr>)") (auto simp: Wheel_OnMessage_def assertr_def Let_def r split: if_splits)
qed (use assms in \<open>simp add: Wheel_OnMessage_def\<close>)

lemma other_step:
  assumes "wheel_step push_back w op = Inr w'" and "\<not> about c op" and "\<not> is_tick op" and "newest_at c j w" and "c \<in> wh_alive w" and "c \<notin> wh_shutdown w"
  shows "newest_at c j w' \<and> c \<in> wh_alive w' \<and> c \<notin> wh_shutdown w'"
proof (cases op)
  case (W_up d)
  with assms(1) obtain w1 where w1: "insert_back d w = Inr w1" "w' = w1\<lparr>wh_alive := insert d (wh_alive w1), wh_context := insert d (wh_context w1)\<rparr>"
    by (cases "insert_back d w") (auto simp: Wheel_up_def)
  have "c \<noteq> d" using W_up assms(2) by auto
  from insert_back_keeps [OF w1(1) this] assms(4-6) show ?thesis by (simp add: w1(2))
next
  case (W_message d buf)
  with message_step assms(1) obtain sent where
    w': "if d \<in> entries (connectionBuckets w) then insert_back d (w\<lparr>wh_sent := sent\<rparr>) = Inr w' else w' = w\<lparr>wh_sent := sent\<rparr>" by blast
  from W_message assms(2) have "c \<noteq> d" by auto
  with w' assms(4-6) insert_back_keeps [of d "w\<lparr>wh_sent := sent\<rparr>" w' c] show ?thesis by (auto split: if_splits)
qed (use assms in \<open>auto simp: Wheel_down_def newest_at_def assertr_def split: if_splits\<close>)

lemmas wheel_ops = Wheel_up_def Wheel_down_def Wheel_OnTimer_def destroy_entries_def insert_back_def assertr_def Let_def

lemma shutdown_kept: "foldr_result (wheel_step push_back) w ops = Inr w' \<Longrightarrow> c \<in> wh_shutdown w \<Longrightarrow> c \<in> wh_shutdown w'"
proof (erule foldr_result_invariant)
  fix s op t assume "c \<in> wh_shutdown s" "wheel_step push_back s op = Inr t"
  then show "c \<in> wh_shutdown t"
  proof (cases op)
    case (W_message d buf)
    with \<open>wheel_step push_back s op = Inr t\<close> \<open>c \<in> wh_shutdown s\<close> message_step [of push_back s d buf t] show ?thesis
      by (auto simp: wheel_ops split: if_splits)
  qed (auto simp: wheel_ops split: if_splits)
qed

definition ticks :: "wheel_op list \<Rightarrow> nat" where
  "ticks ops = length (filter is_tick ops)"

lemma idle_run:
  assumes ring: "\<And>b bs x. push_back (b # bs) x = bs @ [x]"
    and "foldr_result (wheel_step push_back) w ops = Inr w'" and "\<And>op. op \<in> set ops \<Longrightarrow> \<not> about c op"
    and "newest_at c j w" and "c \<in> wh_alive w" and "c \<notin> wh_shutdown w"
  shows "c \<in> wh_shutdown w' \<longleftrightarrow> j < ticks ops"
  using assms(2-)
proof (induction ops arbitrary: w j)
  case (Cons op ops)
  then obtain w1 where w1: "wheel_step push_back w op = Inr w1" "foldr_result (wheel_step push_back) w1 ops = Inr w'"
    by (cases "wheel_step push_back w op") auto
  show ?case
  proof (cases "is_tick op")
    case False
    from other_step [OF w1(1) Cons.prems(2) [of op] False Cons.prems(3-5)] Cons.IH [OF w1(2), of j] Cons.prems(2) False show ?thesis
      by (auto simp: ticks_def)
  next
    case True
    then have w1': "w1 = Wheel_OnTimer push_back w" using w1(1) by (cases op) auto
    have al: "c \<in> wh_alive w1" using Cons.prems(4) by (simp add: w1' Wheel_OnTimer_def destroy_entries_def Let_def)
    note t = tick_moves [OF ring Cons.prems(3-5), folded w1']
    show ?thesis
    proof (cases "j = 0")
      case True
      then show ?thesis using t shutdown_kept [OF w1(2)] \<open>is_tick op\<close> by (simp add: ticks_def)
    next
      case False
      with t Cons.IH [OF w1(2), of "j - 1"] Cons.prems(2) al \<open>is_tick op\<close> show ?thesis by (auto simp: ticks_def)
    qed
  qed
qed (simp add: ticks_def)

lemma ring_length: "(\<And>b bs x. push_back (b # bs) x = bs @ [x]) \<Longrightarrow> bs \<noteq> [] \<Longrightarrow> length (push_back bs x) = length bs"
  by (cases bs) simp_all

lemma wheel_length:
  assumes "\<And>b bs x. push_back (b # bs) x = bs @ [x]" and "foldr_result (wheel_step push_back) w ops = Inr w'"
    and "length (connectionBuckets w) = n" and "0 < n"
  shows "length (connectionBuckets w') = n"
  using assms(2,3)
proof (rule foldr_result_invariant [where P = "\<lambda>w. length (connectionBuckets w) = n"])
  fix s op t assume "length (connectionBuckets s) = n" "wheel_step push_back s op = Inr t"
  then show "length (connectionBuckets t) = n"
  proof (cases op)
    case (W_message d buf)
    with \<open>wheel_step push_back s op = Inr t\<close> \<open>length (connectionBuckets s) = n\<close> message_step [of push_back s d buf t] show ?thesis
      by (auto simp: wheel_ops split: if_splits)
  qed (use ring_length [of push_back "connectionBuckets s"] assms(1,4) in \<open>auto simp: wheel_ops split: if_splits\<close>)
qed

text \<open>Activity of a connection puts its entry into the newest bucket.\<close>

lemma activity_newest:
  assumes "wheel_step push_back w act = Inr w'" and "c \<notin> wh_shutdown w"
    and "act = W_up c \<or> act = W_message c buf \<and> c \<in> entries (connectionBuckets w) \<inter> wh_alive w"
  shows "newest_at c (length (connectionBuckets w) - 1) w' \<and> c \<in> wh_alive w' \<and> c \<notin> wh_shutdown w' \<and> connectionBuckets w \<noteq> []"
  using assms(3)
proof
  assume "act = W_up c"
  with assms(1) obtain w1 where w1: "insert_back c w = Inr w1" "w' = w1\<lparr>wh_alive := insert c (wh_alive w1), wh_context := insert c (wh_context w1)\<rparr>"
    by (cases "insert_back c w") (auto simp: Wheel_up_def)
  from insert_back_newest [OF w1(1)] w1(1) assms(2) show ?thesis by (auto simp: w1(2) insert_back_def split: if_splits)
next
  assume "act = W_message c buf \<and> c \<in> entries (connectionBuckets w) \<inter> wh_alive w"
  with message_step [of push_back w c buf w'] assms(1) obtain sent where w': "insert_back c (w\<lparr>wh_sent := sent\<rparr>) = Inr w'" and "c \<in> wh_alive w"
    by auto
  with insert_back_newest [OF w'] assms(2) show ?thesis by (auto simp: insert_back_def split: if_splits)
qed

section \<open>Lemmas: the list\<close>

lemma age_antitone:
  assumes "mono rnd" and "t \<le> t'"
  shows "TimeDifference rnd now t' \<le> TimeDifference rnd now t"
proof -
  have "rnd (of_int (micro_seconds_since_epoch now - micro_seconds_since_epoch t'))
      \<le> rnd (of_int (micro_seconds_since_epoch now - micro_seconds_since_epoch t))"
    using assms(2) by (intro monoD [OF assms(1)]) (simp add: less_eq_timestamp_def)
  then show ?thesis
    unfolding TimeDifference_def Let_def
    by (intro monoD [OF assms(1)]) (rule divide_right_mono, simp_all add: kMicroSecondsPerSecond_def)
qed

lemma age_nonneg: "mono rnd \<Longrightarrow> rnd 0 = 0 \<Longrightarrow> t \<le> now \<Longrightarrow> 0 \<le> TimeDifference rnd now t"
  using age_antitone [of rnd t now now] by (simp add: TimeDifference_def)

definition idle_for :: "(rat \<Rightarrow> rat) \<Rightarrow> timestamp \<Rightarrow> sorted_list \<Rightarrow> nat \<Rightarrow> bool" where
  "idle_for rnd now s c \<longleftrightarrow> TimeDifference rnd now (the (lastReceiveTime s c)) > of_int (idleSeconds s)"

text \<open>
  The invariant: every listed connection has a node, stamped by now, and nobody is stamped more than \<open>slack\<close> after one
  that is behind it in the list; who was shut down is no longer connected.
\<close>

definition nearly :: "int \<Rightarrow> (nat \<rightharpoonup> timestamp) \<Rightarrow> nat \<Rightarrow> nat \<Rightarrow> bool" where
  "nearly slack m c d \<longleftrightarrow> micro_seconds_since_epoch (the (m c)) \<le> micro_seconds_since_epoch (the (m d)) + slack"

definition list_inv :: "int \<Rightarrow> timestamp \<Rightarrow> timestamp \<Rightarrow> sorted_list \<Rightarrow> bool" where
  "list_inv slack P N s \<longleftrightarrow> distinct (connectionList s) \<and> set (connectionList s) = sl_up s \<and> sl_up s \<subseteq> sl_alive s
     \<and> sl_connected s \<subseteq> sl_up s \<and> (\<forall>c\<in>sl_up s. \<exists>t. lastReceiveTime s c = Some t \<and> t \<le> N)
     \<and> sorted_wrt (nearly slack (lastReceiveTime s)) (connectionList s)
     \<and> distinct (sl_shutdown s) \<and> set (sl_shutdown s) \<inter> sl_connected s = {} \<and> set (sl_shutdown s) \<subseteq> dom (lastReceiveTime s)
     \<and> P \<le> N \<and> micro_seconds_since_epoch N \<le> micro_seconds_since_epoch P + slack"

text \<open>The loop shuts down the connected ones of the idle connections before the first younger one.\<close>

definition shut_down :: "(rat \<Rightarrow> rat) \<Rightarrow> timestamp \<Rightarrow> sorted_list \<Rightarrow> nat list \<Rightarrow> nat list" where
  "shut_down rnd now s cs = filter (\<lambda>c. c \<in> sl_connected s) (takeWhile (idle_for rnd now s) cs)"

lemma takeWhile_filter_cong:
  assumes "\<And>c. c \<in> set cs \<Longrightarrow> P c = Q c" and "\<And>c. c \<in> set cs \<Longrightarrow> R c = T c"
  shows "filter R (takeWhile P cs) = filter T (takeWhile Q cs)"
  using assms by (induction cs) auto

lemma timer_loop_prefix:
  assumes "mono rnd" and "rnd 0 = 0" and "set cs \<subseteq> sl_alive s" and "distinct cs"
    and "\<And>c. c \<in> set cs \<Longrightarrow> \<exists>t. lastReceiveTime s c = Some t \<and> t \<le> now"
  shows "timer_loop rnd now s cs = Inr (cs, s\<lparr>sl_connected := sl_connected s - set (shut_down rnd now s cs),
    sl_shutdown := sl_shutdown s @ shut_down rnd now s cs\<rparr>)"
  using assms(3-)
proof (induction cs arbitrary: s)
  case (Cons c cs)
  from Cons.prems(3) [of c] obtain t where t: "lastReceiveTime s c = Some t" "t \<le> now" by auto
  have age: "0 \<le> TimeDifference rnd now t" by (rule age_nonneg [OF assms(1,2) t(2)])
  have keep: "sl_alive (close_idle c s) = sl_alive s" "lastReceiveTime (close_idle c s) = lastReceiveTime s"
      "idleSeconds (close_idle c s) = idleSeconds s" by (simp_all add: close_idle_def)
  have "shut_down rnd now (close_idle c s) cs = shut_down rnd now s cs"
    unfolding shut_down_def using Cons.prems(2)
    by (intro takeWhile_filter_cong) (auto simp: idle_for_def keep, auto simp: close_idle_def split: if_splits)
  moreover have "idle_for rnd now s c \<Longrightarrow> timer_loop rnd now (close_idle c s) cs = Inr (cs, (close_idle c s)\<lparr>sl_connected := sl_connected
      (close_idle c s) - set (shut_down rnd now (close_idle c s) cs), sl_shutdown := sl_shutdown (close_idle c s) @ shut_down rnd now (close_idle c s) cs\<rparr>)"
    by (rule Cons.IH) (use Cons.prems in \<open>auto simp: keep\<close>)
  ultimately have rest: "idle_for rnd now s c \<Longrightarrow> timer_loop rnd now (close_idle c s) cs = Inr (cs, (close_idle c s)\<lparr>sl_connected :=
      sl_connected (close_idle c s) - set (shut_down rnd now s cs), sl_shutdown := sl_shutdown (close_idle c s) @ shut_down rnd now s cs\<rparr>)"
    by simp
  show ?case
  proof (cases "idle_for rnd now s c")
    case True
    moreover from this have "shut_down rnd now s (c # cs) = (if c \<in> sl_connected s then [c] else []) @ shut_down rnd now s cs"
      by (simp add: shut_down_def)
    moreover have "timer_loop rnd now s (c # cs) = bindr (timer_loop rnd now (close_idle c s) cs) (\<lambda>(l, s). Inr (c # l, s))"
      using True t Cons.prems(1) by (simp add: idle_for_def)
    ultimately show ?thesis
      by (cases "c \<in> sl_connected s") (simp_all only: rest [OF True] bindr.simps prod.case if_True if_False, simp_all add: close_idle_def Diff_insert2 [symmetric])
  next
    case False
    then show ?thesis using age t Cons.prems(1) by (simp add: idle_for_def shut_down_def)
  qed
qed (simp add: shut_down_def)

lemma OnTimer_prefix:
  assumes "mono rnd" and "rnd 0 = 0" and "list_inv slack P N s" and "N \<le> now"
  shows "List_OnTimer rnd now s = Inr (s\<lparr>sl_connected := sl_connected s - set (shut_down rnd now s (connectionList s)),
    sl_shutdown := sl_shutdown s @ shut_down rnd now s (connectionList s)\<rparr>)"
proof -
  have "\<exists>t. lastReceiveTime s c = Some t \<and> t \<le> now" if "c \<in> set (connectionList s)" for c
    using assms(3,4) that by (fastforce simp: list_inv_def)
  then show ?thesis
    using timer_loop_prefix [OF assms(1,2), of "connectionList s" s now] assms(3) by (simp add: List_OnTimer_def list_inv_def)
qed

lemma shut_down_set: "set (shut_down rnd now s cs) \<subseteq> {c \<in> sl_connected s. idle_for rnd now s c}"
  by (auto simp: shut_down_def dest: set_takeWhileD)

lemma distinct_shut_down: "distinct cs \<Longrightarrow> distinct (shut_down rnd now s cs)"
  by (simp add: shut_down_def)

text \<open>Whoever is behind the first younger connection is at most \<open>slack\<close> older than it.\<close>

lemma shut_down_finds:
  assumes "mono rnd" and "sorted_wrt (nearly slack (lastReceiveTime s)) cs" and "0 \<le> slack" and "c \<in> set cs" and "c \<in> sl_connected s"
    and "idle_for rnd (Timestamp (micro_seconds_since_epoch now - slack)) s c"
  shows "c \<in> set (shut_down rnd now s cs)"
  using assms(2,4)
proof (induction cs)
  case (Cons d cs)
  have old: "idle_for rnd now s d" if "nearly slack (lastReceiveTime s) d c"
  proof -
    have "TimeDifference rnd (Timestamp (micro_seconds_since_epoch now - slack)) (the (lastReceiveTime s c))
        \<le> TimeDifference rnd now (the (lastReceiveTime s d))"
      unfolding TimeDifference_def Let_def
      by (intro monoD [OF assms(1)] divide_right_mono) (use that in \<open>simp_all add: nearly_def kMicroSecondsPerSecond_def\<close>)
    with assms(6) show ?thesis by (simp add: idle_for_def)
  qed
  show ?case
  proof (cases "c = d")
    case True
    then show ?thesis using old assms(3,5) by (simp add: shut_down_def nearly_def)
  next
    case False
    with Cons have "nearly slack (lastReceiveTime s) d c" and "c \<in> set (shut_down rnd now s cs)" by auto
    with old show ?thesis by (simp add: shut_down_def)
  qed
qed simp

lemma nearly_cong:
  assumes "sorted_wrt (nearly slack m) cs" and "c \<notin> set cs"
  shows "sorted_wrt (nearly slack (m(c := x))) cs"
  by (rule sorted_wrt_mono_rel [OF _ assms(1)]) (use assms(2) in \<open>auto simp: nearly_def\<close>)

lemma nearly_remove: "distinct cs \<Longrightarrow> sorted_wrt (nearly slack m) cs \<Longrightarrow> sorted_wrt (nearly slack m) (remove1 c cs)"
  by (metis sorted_wrt_filter distinct_remove1_removeAll removeAll_filter_not_eq)

lemma List_up_inv:
  assumes "list_inv slack P N s" and "N \<le> now" and "micro_seconds_since_epoch now \<le> micro_seconds_since_epoch P + slack"
    and "lastReceiveTime s c = None"
  shows "list_inv slack P now (List_up now c s)"
proof -
  note inv = assms(1) [unfolded list_inv_def]
  have new: "c \<notin> sl_up s" "c \<notin> set (sl_shutdown s)" using inv assms(4) by auto
  have old: "\<exists>t. lastReceiveTime s d = Some t \<and> t \<le> now" if "d \<in> sl_up s" for d using inv assms(2) that by fastforce
  have slack: "0 \<le> slack" using inv by (simp add: less_eq_timestamp_def)
  have "sorted_wrt (nearly slack ((lastReceiveTime s)(c \<mapsto> now))) (connectionList s @ [c])"
    using nearly_cong [of slack "lastReceiveTime s" "connectionList s" c "Some now"] inv new old slack
    by (fastforce simp: sorted_wrt_append nearly_def less_eq_timestamp_def)
  with inv new old assms(2,3) show ?thesis by (auto simp: list_inv_def List_up_def)
qed

lemma OnMessage_inv:
  assumes "list_inv slack P N s" and "List_OnMessage c buf P s = Inr (s', buf')"
  shows "list_inv slack P N s' \<and> idleSeconds s' = idleSeconds s"
proof -
  let ?m = "(lastReceiveTime s)(c \<mapsto> P)" and ?l = "remove1 c (connectionList s)"
  from assms(2) obtain sent where s': "s' = s\<lparr>sl_sent := sent, lastReceiveTime := ?m, connectionList := ?l @ [c]\<rparr>"
    and c: "c \<in> set (connectionList s)"
    by (cases "echo_message c buf (sl_sent s)") (auto simp: List_OnMessage_def assertr_def Let_def split: if_splits)
  note inv = assms(1) [unfolded list_inv_def]
  have rest: "set ?l = sl_up s - {c}" using inv by auto
  have "sorted_wrt (nearly slack ?m) ?l" by (intro nearly_cong nearly_remove) (use inv rest in auto)
  moreover have "nearly slack ?m d c" if "d \<in> set ?l" for d
  proof -
    have "\<exists>t. lastReceiveTime s d = Some t \<and> t \<le> N" and "d \<noteq> c" using that rest inv by auto
    then show ?thesis using inv by (auto simp: nearly_def less_eq_timestamp_def)
  qed
  ultimately have "sorted_wrt (nearly slack ?m) (?l @ [c])" by (simp add: sorted_wrt_append)
  with inv c rest show ?thesis by (auto simp: s' list_inv_def)
qed

lemma List_down_inv:
  assumes "list_inv slack P N s" and "List_down c s = Inr s'"
  shows "list_inv slack P N s' \<and> idleSeconds s' = idleSeconds s"
proof -
  from assms(2) have s': "s' = s\<lparr>connectionList := remove1 c (connectionList s), sl_up := sl_up s - {c}, sl_connected := sl_connected s - {c}\<rparr>"
    by (auto simp: List_down_def assertr_def split: if_splits)
  show ?thesis
    using assms(1) nearly_remove [of "connectionList s" slack "lastReceiveTime s" c] by (auto simp: s' list_inv_def)
qed

lemma OnTimer_inv:
  assumes "mono rnd" and "rnd 0 = 0" and "list_inv slack P N s" and "N \<le> now"
    and "micro_seconds_since_epoch now \<le> micro_seconds_since_epoch P + slack" and "List_OnTimer rnd now s = Inr s'"
  shows "list_inv slack P now s' \<and> idleSeconds s' = idleSeconds s"
proof -
  note inv = assms(3) [unfolded list_inv_def]
  have stamps: "\<forall>c\<in>sl_up s. \<exists>t. lastReceiveTime s c = Some t \<and> t \<le> now" using inv assms(4) by fastforce
  let ?cs = "shut_down rnd now s (connectionList s)"
  have cs: "set ?cs \<subseteq> sl_connected s" "distinct ?cs" using shut_down_set inv distinct_shut_down by fast+
  from assms(6) have s': "s' = s\<lparr>sl_connected := sl_connected s - set ?cs, sl_shutdown := sl_shutdown s @ ?cs\<rparr>"
    by (simp add: OnTimer_prefix [OF assms(1-4)])
  have "set ?cs \<subseteq> dom (lastReceiveTime s)" using cs inv by blast
  with cs inv stamps assms(4,5) show ?thesis by (auto simp: s' list_inv_def)
qed

lemma list_reach_inv:
  assumes "mono rnd" and "rnd 0 = 0" and "0 \<le> slack" and "list_reach rnd idle slack P N s"
  shows "list_inv slack P N s \<and> idleSeconds s = idle"
  using assms(4)
proof induction
  case (reach_poll P N s P')
  then have "\<forall>c\<in>sl_up s. \<exists>t. lastReceiveTime s c = Some t \<and> t \<le> P'" by (fastforce simp: list_inv_def)
  with reach_poll assms(3) show ?case by (auto simp: list_inv_def)
next
  case (reach_timer P N s now s')
  then show ?case using OnTimer_inv [OF assms(1,2), of slack P N s now s'] by simp
next
  case (reach_down P N s c s')
  then show ?case using List_down_inv by auto
next
  case (reach_message P N s c buf s' buf')
  then show ?case using OnMessage_inv by auto
next
  case (reach_up P N s now c)
  then have "list_inv slack P now (List_up now c s)" by (intro List_up_inv) simp_all
  then show ?case using reach_up.IH by (simp add: List_up_def)
qed (use assms(3) in \<open>auto simp: list_inv_def List_new_def\<close>)

section \<open>Properties\<close>

text \<open>
  Property C24. The timing wheel: let a connection be active (it comes up, or a message arrives on it while its entry exists), and let
  nothing more happen on it. Whatever the other connections do, its \<open>Shutdown\<close> is called exactly when \<open>idleSeconds\<close> ticks of
  the timer have passed: not at an earlier tick and not at a later one. The ring holds the documented behaviour of \<open>circular_buffer\<close>:
  \<open>resize\<close> fills it with empty buckets and \<open>push_back\<close> on a full ring drops the oldest.
\<close>

theorem timing_wheel:
  assumes "\<And>b bs x. push_back (b # bs) x = bs @ [x]" and "resized (nat idle) = Inr (replicate (nat idle) {})"
    and "0 < idle" and "idle < 2 ^ 31" and "Wheel_new resized idle = Inr w0" and "foldr_result (wheel_step push_back) w0 before = Inr w"
    and "act = W_up c \<or> act = W_message c buf \<and> c \<in> entries (connectionBuckets w) \<inter> wh_alive w" and "c \<notin> wh_shutdown w"
    and "wheel_step push_back w act = Inr w1"
    and "foldr_result (wheel_step push_back) w1 later = Inr w'" and "\<And>op. op \<in> set later \<Longrightarrow> \<not> about c op"
  shows "c \<in> wh_shutdown w' \<longleftrightarrow> nat idle \<le> ticks later"
proof -
  have size: "size_of_int idle = nat idle" using assms(3,4) by (simp add: size_of_int_def)
  have w0: "length (connectionBuckets w0) = nat idle" using assms(2,5) by (auto simp: Wheel_new_def size)
  have w: "length (connectionBuckets w) = nat idle" using wheel_length [OF assms(1,6) w0] assms(3) by simp
  from activity_newest [OF assms(9,8,7)] have "c \<in> wh_shutdown w' \<longleftrightarrow> nat idle - 1 < ticks later"
    by (intro idle_run [OF assms(1,10,11)]) (simp_all add: w)
  then show ?thesis using assms(3) by auto
qed

theorem timing_wheel_witness:
  "(7::nat) \<in> wh_shutdown \<lparr>connectionBuckets = [{8}, {}, {}], wh_alive = {8, 7}, wh_context = {8, 7}, wh_shutdown = {7}, wh_sent = []\<rparr>
     \<longleftrightarrow> nat 3 \<le> ticks [W_tick, W_up 8, W_tick, W_tick]"
proof (rule timing_wheel [where push_back = "\<lambda>bs x. tl bs @ [x]" and resized = "\<lambda>n. Inr (replicate n {})" and before = "[W_tick]"
      and c = 7 and act = "W_up 7"])
  show "Wheel_new (\<lambda>n. Inr (replicate n {})) 3 = Inr \<lparr>connectionBuckets = replicate 3 {}, wh_alive = {}, wh_context = {}, wh_shutdown = {},
      wh_sent = []\<rparr>"
    by (simp add: Wheel_new_def size_of_int_def)
qed (auto simp: wheel_ops entries_def numeral_3_eq_3)


text \<open>Connection 1 came up during an iteration, after which connection 2 sent a message stamped with the iteration's start.\<close>

definition example_list :: sorted_list where
  "example_list = \<lparr>idleSeconds = 10, connectionList = [1, 2], sl_alive = {1, 2}, sl_up = {1, 2}, sl_connected = {1, 2},
     lastReceiveTime = [1 \<mapsto> Timestamp 1000500, 2 \<mapsto> Timestamp 1000000], sl_shutdown = [], sl_sent = [(2, [])]\<rparr>"

lemma example_list_reach: "list_reach id 10 1000 (Timestamp 1000000) (Timestamp 1000500) example_list"
proof -
  let ?s = "List_up (Timestamp 1000500) 1 (List_up (Timestamp 0) 2 (List_new 10))"
  have "list_reach id 10 1000 (Timestamp 0) (Timestamp 0) (List_up (Timestamp 0) 2 (List_new 10))"
    by (rule reach_up [OF reach_new]) (simp_all add: List_new_def)
  then have "list_reach id 10 1000 (Timestamp 1000000) (Timestamp 1000000) (List_up (Timestamp 0) 2 (List_new 10))"
    by (rule reach_poll) simp
  then have "list_reach id 10 1000 (Timestamp 1000000) (Timestamp 1000500) ?s"
    by (rule reach_up) (simp_all add: List_new_def List_up_def)
  moreover have "RetrieveAllAsString default_buffer = Inr ([], default_buffer)"
    by (simp add: default_buffer_def Buffer_ctor_def RetrieveAllAsString_def RetrieveAsString_def ReadableBytes_def Retrieve_def
        RetrieveAll_def content_def kInitialSize_def kCheapPrepend_def assertr_def size_sub_def)
  then have "List_OnMessage 2 default_buffer (Timestamp 1000000) ?s = Inr (example_list, default_buffer)"
    by (simp add: List_OnMessage_def List_up_def List_new_def example_list_def echo_message_def assertr_def insert_commute)
  ultimately show ?thesis by (rule reach_message)
qed


end
