(* ===== verification/Dancing_Links.thy ===== *)
theory Dancing_Links
  imports Net_Prelude
begin

text \<open>
  The linked structure of \<open>examples/sudoku/sudoku.cc\<close>: Knuth's dancing links. The array \<open>nodes_\<close> is a record of functions from the
  index of a node to its fields, and a pointer is an index. The first part models the operations on the links; the second shows
  that \<open>cover\<close> removes exactly the rows that meet a column and that \<open>uncover\<close> restores the links bit for bit.
\<close>

section \<open>Nodes\<close>

record nodes =
  nd_left :: "nat \<Rightarrow> nat"
  nd_right :: "nat \<Rightarrow> nat"
  nd_up :: "nat \<Rightarrow> nat"
  nd_down :: "nat \<Rightarrow> nat"
  nd_col :: "nat \<Rightarrow> nat"
  nd_name :: "nat \<Rightarrow> nat"
  nd_size :: "nat \<Rightarrow> int"

definition put_left :: "nat \<Rightarrow> nat \<Rightarrow> nodes \<Rightarrow> nodes" where
  "put_left old nnew s =
     (let s = s\<lparr>nd_left := (nd_left s)(nnew := nd_left s old)\<rparr>;
          s = s\<lparr>nd_right := (nd_right s)(nnew := old)\<rparr>;
          s = s\<lparr>nd_right := (nd_right s)(nd_left s old := nnew)\<rparr>
      in s\<lparr>nd_left := (nd_left s)(old := nnew)\<rparr>)"

definition put_up :: "nat \<Rightarrow> nat \<Rightarrow> nodes \<Rightarrow> nodes" where
  "put_up old nnew s =
     (let s = s\<lparr>nd_up := (nd_up s)(nnew := nd_up s old)\<rparr>;
          s = s\<lparr>nd_down := (nd_down s)(nnew := old)\<rparr>;
          s = s\<lparr>nd_down := (nd_down s)(nd_up s old := nnew)\<rparr>;
          s = s\<lparr>nd_up := (nd_up s)(old := nnew)\<rparr>;
          s = s\<lparr>nd_size := (nd_size s)(old := nd_size s old + 1)\<rparr>
      in s\<lparr>nd_col := (nd_col s)(nnew := old)\<rparr>)"

section \<open>Loops over rings\<close>

text \<open>
  \<open>for (n = start->next; n != stop; n = n->next) body(n)\<close>: the next node is read after the body has run. The loop does not end
  when the pointers do not lead back to \<open>stop\<close>.
\<close>

partial_function (option) ring_for :: "('s \<Rightarrow> nat \<Rightarrow> nat) \<Rightarrow> (nat \<Rightarrow> 's \<Rightarrow> 's option) \<Rightarrow> nat \<Rightarrow> nat \<Rightarrow> 's \<Rightarrow> 's option" where
  "ring_for nxt body stop n s =
     (if n = stop then Some s else Option.bind (body n s) (\<lambda>s. ring_for nxt body stop (nxt s n) s))"

section \<open>Covering\<close>

text \<open>The two statements on the header, and the three on a node of a row.\<close>

definition unlink_column :: "nat \<Rightarrow> nodes \<Rightarrow> nodes" where
  "unlink_column c s =
     (let s = s\<lparr>nd_left := (nd_left s)(nd_right s c := nd_left s c)\<rparr>
      in s\<lparr>nd_right := (nd_right s)(nd_left s c := nd_right s c)\<rparr>)"

definition relink_column :: "nat \<Rightarrow> nodes \<Rightarrow> nodes" where
  "relink_column c s =
     (let s = s\<lparr>nd_left := (nd_left s)(nd_right s c := c)\<rparr>
      in s\<lparr>nd_right := (nd_right s)(nd_left s c := c)\<rparr>)"

definition unlink :: "nat \<Rightarrow> nodes \<Rightarrow> nodes" where
  "unlink j s =
     (let s = s\<lparr>nd_up := (nd_up s)(nd_down s j := nd_up s j)\<rparr>;
          s = s\<lparr>nd_down := (nd_down s)(nd_up s j := nd_down s j)\<rparr>
      in s\<lparr>nd_size := (nd_size s)(nd_col s j := nd_size s (nd_col s j) - 1)\<rparr>)"

definition relink :: "nat \<Rightarrow> nodes \<Rightarrow> nodes" where
  "relink j s =
     (let s = s\<lparr>nd_size := (nd_size s)(nd_col s j := nd_size s (nd_col s j) + 1)\<rparr>;
          s = s\<lparr>nd_up := (nd_up s)(nd_down s j := j)\<rparr>
      in s\<lparr>nd_down := (nd_down s)(nd_up s j := j)\<rparr>)"

definition cover :: "nat \<Rightarrow> nodes \<Rightarrow> nodes option" where
  "cover c s =
     (let s = unlink_column c s
      in ring_for nd_down (\<lambda>row s. ring_for nd_right (\<lambda>j s. Some (unlink j s)) row (nd_right s row) s) c (nd_down s c) s)"

definition uncover :: "nat \<Rightarrow> nodes \<Rightarrow> nodes option" where
  "uncover c s =
     Option.bind (ring_for nd_up (\<lambda>row s. ring_for nd_left (\<lambda>j s. Some (relink j s)) row (nd_left s row) s) c (nd_up s c) s)
       (\<lambda>s. Some (relink_column c s))"

partial_function (option) min_loop :: "nodes \<Rightarrow> nat \<Rightarrow> nat \<Rightarrow> int \<Rightarrow> nat \<Rightarrow> nat option" where
  "min_loop s root c min_size cc =
     (if cc = root then Some c
      else if min_size > nd_size s cc
      then if nd_size s cc \<le> 1 then Some cc else min_loop s root cc (nd_size s cc) (nd_right s cc)
      else min_loop s root c min_size (nd_right s cc))"

definition get_min_column :: "nat \<Rightarrow> nodes \<Rightarrow> nat option" where
  "get_min_column root s =
     (let c = nd_right s root; min_size = nd_size s c
      in if min_size > 1 then min_loop s root c min_size (nd_right s c) else Some c)"

section \<open>Lemmas: chains and rings\<close>

text \<open>From \<open>a\<close> through \<open>xs\<close> to \<open>b\<close>.\<close>

fun chain :: "(nat \<Rightarrow> nat) \<Rightarrow> nat \<Rightarrow> nat list \<Rightarrow> nat \<Rightarrow> bool" where
  "chain nx a [] b \<longleftrightarrow> nx a = b"
| "chain nx a (x # xs) b \<longleftrightarrow> nx a = x \<and> chain nx x xs b"

definition ring :: "(nat \<Rightarrow> nat) \<Rightarrow> (nat \<Rightarrow> nat) \<Rightarrow> nat \<Rightarrow> nat list \<Rightarrow> bool" where
  "ring nx pv h xs \<longleftrightarrow> distinct (h # xs) \<and> chain nx h xs h \<and> chain pv h (rev xs) h"

lemma chain_append: "chain nx a (xs @ x # ys) b \<longleftrightarrow> chain nx a xs x \<and> chain nx x ys b"
  by (induction xs arbitrary: a) auto

lemma chain_first: "chain nx a xs b \<Longrightarrow> nx a = hd (xs @ [b])"
  by (cases xs) auto

lemma chain_upd [simp]: "p \<noteq> a \<Longrightarrow> p \<notin> set xs \<Longrightarrow> chain (nx(p := q)) a xs b = chain nx a xs b"
  by (induction xs arbitrary: a) auto

lemma chain_redirect: "chain nx a xs b \<Longrightarrow> distinct (a # xs) \<Longrightarrow> chain (nx(last (a # xs) := q)) a xs q"
  by (induction xs arbitrary: a) auto

lemma chain_remove:
  assumes "chain nx a (xs @ j # ys) b" and "distinct (a # xs @ j # ys)"
  shows "chain (nx(last (a # xs) := nx j)) a (xs @ ys) b"
proof -
  let ?nx = "nx(last (a # xs) := nx j)"
  have l: "last (a # xs) \<in> set (a # xs)" by (rule last_in_set) simp
  have "chain nx a xs j" and ys: "chain nx j ys b" using assms(1) by (simp_all add: chain_append)
  then have q: "chain ?nx a xs (nx j)" using chain_redirect assms(2) by fastforce
  show ?thesis
  proof (cases ys)
    case Nil
    then show ?thesis using q ys by simp
  next
    case (Cons y zs)
    then have "chain nx y zs b" "nx j = y" using ys by simp_all
    moreover have "last (a # xs) \<noteq> y" "last (a # xs) \<notin> set zs" using l assms(2) Cons by auto
    ultimately show ?thesis using q Cons by (simp add: chain_append)
  qed
qed

lemma last_rev_hd: "last (h # rev ys) = hd (ys @ [h])" "hd (rev xs @ [h]) = last (h # xs)"
  by (simp_all add: hd_rev last_rev hd_append)

lemma ring_neighbours:
  assumes "ring nx pv h (xs @ j # ys)"
  shows "nx j = hd (ys @ [h])" "pv j = last (h # xs)" "nx (pv j) = j" "pv (nx j) = j" "nx j \<noteq> j" "pv j \<noteq> j"
proof -
  have c: "chain nx h xs j" "chain nx j ys h" "chain pv h (rev ys) j" "chain pv j (rev xs) h" and d: "distinct (h # xs @ j # ys)"
    using assms by (auto simp: ring_def chain_append)
  show n: "nx j = hd (ys @ [h])" using chain_first [OF c(2)] .
  show p: "pv j = last (h # xs)" using chain_first [OF c(4)] by (simp add: last_rev_hd)
  show "nx j \<noteq> j" using d by (cases ys) (auto simp: n)
  show "pv j \<noteq> j" unfolding p using d last_in_set [of "h # xs"] by auto
  have last_step: "chain f a zs b \<Longrightarrow> f (last (a # zs)) = b" for f a zs b by (induction zs arbitrary: a) auto
  show "nx (pv j) = j" unfolding p by (rule last_step [OF c(1)])
  show "pv (nx j) = j" unfolding n using last_step [OF c(3)] unfolding last_rev_hd .
qed

lemma ring_remove:
  assumes "ring nx pv h (xs @ j # ys)"
  shows "ring (nx(pv j := nx j)) (pv(nx j := pv j)) h (xs @ ys)"
proof -
  note n = ring_neighbours(1,2) [OF assms]
  have d: "distinct (h # xs @ j # ys)" and c: "chain nx h (xs @ j # ys) h" "chain pv h (rev ys @ j # rev xs) h"
    using assms by (auto simp: ring_def)
  from chain_remove [OF c(1) d] have "chain (nx(pv j := nx j)) h (xs @ ys) h" by (simp add: n)
  moreover have "distinct (h # rev ys @ j # rev xs)" using d by auto
  from chain_remove [OF c(2) this, unfolded last_rev_hd(1), folded n(1)] have "chain (pv(nx j := pv j)) h (rev ys @ rev xs) h" .
  ultimately show ?thesis using d by (simp add: ring_def)
qed

lemma ring_other:
  "p \<notin> set (h # xs) \<Longrightarrow> q \<notin> set (h # xs) \<Longrightarrow> ring (nx(p := a)) (pv(q := b)) h xs = ring nx pv h xs"
  by (simp add: ring_def)

lemma ring_append:
  assumes "ring nx pv h xs" and "y \<notin> set (h # xs)"
  shows "ring (nx(y := h, pv h := y)) (pv(y := pv h, h := y)) h (xs @ [y])"
proof -
  have c: "chain nx h xs h" "chain pv h (rev xs) h" and d: "distinct (h # xs)" using assms(1) by (auto simp: ring_def)
  have p: "pv h = last (h # xs)" using chain_first [OF c(2)] by (simp add: last_rev_hd)
  have "last (h # xs) \<noteq> y" using last_in_set [of "h # xs"] assms(2) by auto
  moreover have "chain (nx(y := h, last (h # xs) := y)) h xs y"
    using chain_redirect [of "nx(y := h)" h xs h y] c(1) d assms(2) by simp
  ultimately have "chain (nx(y := h, pv h := y)) h (xs @ [y]) h" by (simp add: chain_append p)
  moreover have "chain (pv(y := pv h, h := y)) y (rev xs) h"
  proof (cases "rev xs")
    case (Cons z zs)
    moreover from this have "h \<noteq> z" "h \<notin> set zs" "y \<noteq> z" "y \<notin> set zs" using d assms(2) by (metis distinct.simps(2) list.set_intros set_rev set_ConsD list.set_intros(2))+
    ultimately show ?thesis using c(2) assms(2) by simp
  qed (use c(2) assms(2) in simp)
  ultimately show ?thesis using d assms(2) by (auto simp: ring_def)
qed

section \<open>Lemmas: loops over rings\<close>

text \<open>The states a loop goes through when it visits \<open>xs\<close> and then reaches \<open>b\<close>.\<close>

fun path :: "('s \<Rightarrow> nat \<Rightarrow> nat) \<Rightarrow> (nat \<Rightarrow> 's \<Rightarrow> 's option) \<Rightarrow> nat list \<Rightarrow> nat \<Rightarrow> 's \<Rightarrow> 's \<Rightarrow> bool" where
  "path nxt body [] b s t \<longleftrightarrow> t = s"
| "path nxt body (x # xs) b s t \<longleftrightarrow> (\<exists>u. body x s = Some u \<and> nxt u x = hd (xs @ [b]) \<and> path nxt body xs b u t)"

lemma ring_for_path: "path nxt body xs b s t \<Longrightarrow> b \<notin> set xs \<Longrightarrow> ring_for nxt body b (hd (xs @ [b])) s = Some t"
  by (induction xs arbitrary: s) (auto simp: ring_for.simps)

lemma path_snoc: "path nxt body xs x s u \<Longrightarrow> body x u = Some t \<Longrightarrow> nxt t x = b \<Longrightarrow> path nxt body (xs @ [x]) b s t"
  by (induction xs arbitrary: s) (auto simp: hd_append)

text \<open>A node with consistent neighbours; unlinking it and linking it again changes nothing.\<close>

definition unlinkable :: "nat \<Rightarrow> nodes \<Rightarrow> bool" where
  "unlinkable j s \<longleftrightarrow> nd_down s (nd_up s j) = j \<and> nd_up s (nd_down s j) = j \<and> nd_up s j \<noteq> j \<and> nd_down s j \<noteq> j"

lemma unlink_fields [simp]:
  "nd_left (unlink j s) = nd_left s" "nd_right (unlink j s) = nd_right s" "nd_col (unlink j s) = nd_col s" "nd_name (unlink j s) = nd_name s"
  by (simp_all add: unlink_def Let_def)

lemma unlink_links:
  "unlinkable j s \<Longrightarrow> nd_up (unlink j s) = (nd_up s)(nd_down s j := nd_up s j)"
  "unlinkable j s \<Longrightarrow> nd_down (unlink j s) = (nd_down s)(nd_up s j := nd_down s j)"
  by (simp_all add: unlink_def unlinkable_def Let_def)

lemma relink_unlink: "unlinkable j s \<Longrightarrow> relink j (unlink j s) = s"
  by (cases s) (auto simp: unlink_def relink_def unlinkable_def Let_def fun_eq_iff)

fun unlinks :: "nat list \<Rightarrow> nodes \<Rightarrow> nodes" where
  "unlinks [] s = s"
| "unlinks (j # js) s = unlinks js (unlink j s)"

fun all_unlinkable :: "nat list \<Rightarrow> nodes \<Rightarrow> bool" where
  "all_unlinkable [] s = True"
| "all_unlinkable (j # js) s = (unlinkable j s \<and> all_unlinkable js (unlink j s))"

lemma unlinks_append [simp]: "unlinks (js @ ks) s = unlinks ks (unlinks js s)"
  by (induction js arbitrary: s) simp_all

lemma all_unlinkable_append [simp]: "all_unlinkable (js @ ks) s \<longleftrightarrow> all_unlinkable js s \<and> all_unlinkable ks (unlinks js s)"
  by (induction js arbitrary: s) simp_all

lemma unlinks_fields [simp]:
  "nd_left (unlinks js s) = nd_left s" "nd_right (unlinks js s) = nd_right s" "nd_col (unlinks js s) = nd_col s" "nd_name (unlinks js s) = nd_name s"
  by (induction js arbitrary: s) simp_all

text \<open>The inner loops of \<open>cover\<close> and \<open>uncover\<close>.\<close>

lemma row_forward:
  assumes "chain (nd_right s) a xs b"
  shows "path nd_right (\<lambda>j s. Some (unlink j s)) xs b s (unlinks xs s)"
  using assms by (induction xs arbitrary: a s) (auto dest: chain_first)

lemma row_backward:
  assumes "chain (nd_left s) a (rev xs) b" and "all_unlinkable xs s"
  shows "path nd_left (\<lambda>j s. Some (relink j s)) (rev xs) b (unlinks xs s) s"
  using assms
proof (induction xs arbitrary: a rule: rev_induct)
  case (snoc x xs)
  then have "chain (nd_left s) x (rev xs) b" "relink x (unlink x (unlinks xs s)) = unlinks xs s" by (simp_all add: relink_unlink)
  with snoc show ?case by (auto dest: chain_first)
qed simp

text \<open>The outer loops, for the rows \<open>ns\<close> of a column \<open>c\<close> whose ring stays as it is.\<close>

lemma column_forward:
  assumes "\<And>ms n ks. ns = ms @ n # ks \<Longrightarrow> nd_down (unlinks (concat (map oth (ms @ [n]))) s) n = hd (ks @ [c])"
    and "\<And>n. n \<in> set ns \<Longrightarrow> chain (nd_right s) n (oth n) n \<and> n \<notin> set (oth n)"
  shows "path nd_down (\<lambda>row s. ring_for nd_right (\<lambda>j s. Some (unlink j s)) row (nd_right s row) s) ns c s (unlinks (concat (map oth ns)) s)"
  using assms
proof (induction ns arbitrary: s)
  case (Cons n ns)
  have n: "chain (nd_right s) n (oth n) n" "n \<notin> set (oth n)" using Cons.prems(2) by simp_all
  have "ring_for nd_right (\<lambda>j s. Some (unlink j s)) n (nd_right s n) s = Some (unlinks (oth n) s)"
    using ring_for_path [OF row_forward [OF n(1)] n(2)] chain_first [OF n(1)] by simp
  moreover have "nd_down (unlinks (oth n) s) n = hd (ns @ [c])" using Cons.prems(1) [of "[]"] by simp
  moreover have "path nd_down (\<lambda>row s. ring_for nd_right (\<lambda>j s. Some (unlink j s)) row (nd_right s row) s) ns c (unlinks (oth n) s)
      (unlinks (concat (map oth ns)) (unlinks (oth n) s))"
  proof (rule Cons.IH)
    fix ms m ks assume "ns = ms @ m # ks"
    then show "nd_down (unlinks (concat (map oth (ms @ [m]))) (unlinks (oth n) s)) m = hd (ks @ [c])"
      using Cons.prems(1) [of "n # ms" m ks] by simp
  qed (use Cons.prems(2) in simp)
  ultimately show ?case by auto
qed simp

lemma column_backward:
  assumes "\<And>ms n ks. ns = ms @ n # ks \<Longrightarrow> nd_up (unlinks (concat (map oth ms)) s) n = hd (rev ms @ [c])"
    and "\<And>n. n \<in> set ns \<Longrightarrow> chain (nd_left s) n (rev (oth n)) n \<and> n \<notin> set (oth n)"
    and "all_unlinkable (concat (map oth ns)) s"
  shows "path nd_up (\<lambda>row s. ring_for nd_left (\<lambda>j s. Some (relink j s)) row (nd_left s row) s) (rev ns) c (unlinks (concat (map oth ns)) s) s"
  using assms
proof (induction ns rule: rev_induct)
  case (snoc n ns)
  let ?t = "unlinks (concat (map oth ns)) s"
  have n: "chain (nd_left ?t) n (rev (oth n)) n" "n \<notin> set (oth n)" using snoc.prems(2) [of n] by simp_all
  have "all_unlinkable (oth n) ?t" using snoc.prems(3) by simp
  from ring_for_path [OF row_backward [OF n(1) this]] n
  have "ring_for nd_left (\<lambda>j s. Some (relink j s)) n (nd_left (unlinks (oth n) ?t) n) (unlinks (oth n) ?t) = Some ?t"
    using chain_first [OF n(1)] by simp
  moreover have "nd_up ?t n = hd (rev ns @ [c])" using snoc.prems(1) [of ns n "[]"] by simp
  moreover have "path nd_up (\<lambda>row s. ring_for nd_left (\<lambda>j s. Some (relink j s)) row (nd_left s row) s) (rev ns) c ?t s"
  proof (rule snoc.IH)
    fix ms m ks assume "ns = ms @ m # ks"
    then show "nd_up (unlinks (concat (map oth ms)) s) m = hd (rev ms @ [c])" using snoc.prems(1) [of ms m "ks @ [n]"] by simp
  qed (use snoc.prems in simp_all)
  ultimately show ?case by auto
qed simp

lemma unlink_column_links:
  assumes "ring (nd_right s) (nd_left s) h (xs @ c # ys)"
  shows "nd_right (unlink_column c s) = (nd_right s)(nd_left s c := nd_right s c)"
    "nd_left (unlink_column c s) = (nd_left s)(nd_right s c := nd_left s c)" "relink_column c (unlink_column c s) = s"
  using ring_neighbours(3-) [OF assms] by (cases s; auto simp: unlink_column_def relink_column_def Let_def fun_eq_iff)+

lemma unlink_column_fields [simp]:
  "nd_up (unlink_column c s) = nd_up s" "nd_down (unlink_column c s) = nd_down s" "nd_col (unlink_column c s) = nd_col s"
  "nd_name (unlink_column c s) = nd_name s"
  by (simp_all add: unlink_column_def Let_def)

lemma distinct_concat_map:
  assumes "distinct ns" and "\<And>n. n \<in> set ns \<Longrightarrow> distinct (f n)" and "\<And>m n. m \<in> set ns \<Longrightarrow> n \<in> set ns \<Longrightarrow> m \<noteq> n \<Longrightarrow> set (f m) \<inter> set (f n) = {}"
  shows "distinct (concat (map f ns))"
  using assms
proof (induction ns)
  case (Cons n ns)
  have "set (f n) \<inter> (\<Union>m\<in>set ns. set (f m)) = {}" using Cons.prems(1) Cons.prems(3) [of n] by fastforce
  with Cons show ?case by simp
qed simp

section \<open>The matrix behind the links\<close>

text \<open>
  A sparse matrix of columns \<open>H\<close> (header nodes) and row nodes \<open>N\<close>: \<open>K n\<close> is the header of the node \<open>n\<close>, \<open>oth n\<close> are the other nodes of its row
  from left to right, and \<open>V d\<close> are the nodes of the column \<open>d\<close> from top to bottom.
\<close>

locale dancing_links =
  fixes root :: nat and N :: "nat set" and H :: "nat set" and K :: "nat \<Rightarrow> nat" and oth :: "nat \<Rightarrow> nat list" and V :: "nat \<Rightarrow> nat list"
  assumes header: "n \<in> N \<Longrightarrow> K n \<in> H"
    and apart: "N \<inter> H = {}" "root \<notin> H" "root \<notin> N"
    and row: "n \<in> N \<Longrightarrow> n \<notin> set (oth n) \<and> distinct (oth n) \<and> set (oth n) \<subseteq> N \<and> inj_on K (insert n (set (oth n)))"
    and same_row: "n \<in> N \<Longrightarrow> j \<in> set (oth n) \<Longrightarrow> insert j (set (oth j)) = insert n (set (oth n))"
    and column: "d \<in> H \<Longrightarrow> distinct (V d) \<and> set (V d) = {n \<in> N. K n = d}"
begin

definition cols :: "nat \<Rightarrow> nat set" where
  "cols n = K ` insert n (set (oth n))"

text \<open>The nodes of a column whose rows meet active columns only.\<close>

definition live :: "nat list \<Rightarrow> nat \<Rightarrow> nat list" where
  "live cs d = filter (\<lambda>n. cols n \<subseteq> set cs) (V d)"

definition linked :: "nodes \<Rightarrow> nat list \<Rightarrow> bool" where
  "linked s cs \<longleftrightarrow> set cs \<subseteq> H \<and> ring (nd_right s) (nd_left s) root cs
     \<and> (\<forall>d\<in>set cs. ring (nd_down s) (nd_up s) d (live cs d))
     \<and> (\<forall>n\<in>N. chain (nd_right s) n (oth n) n \<and> chain (nd_left s) n (rev (oth n)) n \<and> nd_col s n = K n)"

text \<open>While \<open>c\<close> is being covered and the nodes \<open>X\<close> have been unlinked.\<close>

definition covering :: "nat \<Rightarrow> nat list \<Rightarrow> nat set \<Rightarrow> nodes \<Rightarrow> bool" where
  "covering c cs X s \<longleftrightarrow> ring (nd_down s) (nd_up s) c (live cs c)
     \<and> (\<forall>d\<in>set cs - {c}. ring (nd_down s) (nd_up s) d (filter (\<lambda>n. n \<notin> X) (live cs d)))"

lemma set_live: "d \<in> H \<Longrightarrow> set (live cs d) = {n \<in> N. K n = d \<and> cols n \<subseteq> set cs}"
  using column by (auto simp: live_def)

lemma cols_mate: "n \<in> N \<Longrightarrow> j \<in> set (oth n) \<Longrightarrow> cols j = cols n"
  using same_row by (simp add: cols_def)

lemma column_apart:
  assumes "set cs \<subseteq> H" and "d \<in> set cs" and "e \<in> set cs" and "d \<noteq> e"
  shows "set (d # live cs d) \<inter> set (e # live cs e) = {}"
proof -
  have "d \<in> H" "e \<in> H" using assms by auto
  then show ?thesis using assms(4) apart(1) by (auto simp: set_live)
qed

lemma covering_unlink:
  assumes "covering c cs X s" and "set cs \<subseteq> H" and "c \<in> set cs" and "j \<in> N" and "cols j \<subseteq> set cs" and "K j \<noteq> c" and "j \<notin> X"
  shows "unlinkable j s \<and> covering c cs (insert j X) (unlink j s)"
proof -
  let ?f = "\<lambda>X d. filter (\<lambda>n. n \<notin> X) (live cs d)"
  have K: "K j \<in> set cs - {c}" using assms(5,6) by (auto simp: cols_def)
  then have "K j \<in> H" using assms(2) by auto
  then have "j \<in> set (?f X (K j))" using assms(4,5,7) by (simp add: set_live)
  then obtain xs ys where l: "?f X (K j) = xs @ j # ys" by (meson split_list)
  have r: "ring (nd_down s) (nd_up s) (K j) (xs @ j # ys)" using assms(1) K by (simp add: covering_def flip: l)
  note nb = ring_neighbours [OF r]
  have u: "unlinkable j s" using nb by (simp add: unlinkable_def)
  have sub: "set (xs @ ys) \<subseteq> set (live cs (K j))" using arg_cong [OF l, of set] by auto
  have near: "nd_up s j \<in> set (K j # live cs (K j))" "nd_down s j \<in> set (K j # live cs (K j))"
    using nb(1,2) sub last_in_set [of "K j # xs"] hd_in_set [of "ys @ [K j]"] by auto
  have away: "nd_up s j \<notin> set (d # live cs d)" "nd_down s j \<notin> set (d # live cs d)" if "d \<in> set cs" "d \<noteq> K j" for d
    using column_apart [OF assms(2) that(1) _ that(2)] near K by auto
  have same: "?f (insert j X) d = ?f X d" if "d \<in> set cs" "d \<noteq> K j" for d
  proof -
    have "j \<notin> set (live cs d)" using that assms(2) by (auto simp: set_live)
    then show ?thesis by (intro filter_cong) auto
  qed
  have "j \<notin> set xs" "j \<notin> set ys" using r by (auto simp: ring_def)
  then have "filter (\<lambda>n. n \<noteq> j) xs = xs" "filter (\<lambda>n. n \<noteq> j) ys = ys" by (auto simp: filter_id_conv)
  then have "filter (\<lambda>n. n \<noteq> j) (xs @ j # ys) = xs @ ys" by simp
  moreover have "?f (insert j X) (K j) = filter (\<lambda>n. n \<noteq> j) (?f X (K j))" by (auto intro: filter_cong)
  ultimately have here: "?f (insert j X) (K j) = xs @ ys" by (simp only: l)
  have "ring (nd_down (unlink j s)) (nd_up (unlink j s)) d (?f (insert j X) d)" if "d \<in> set cs - {c}" for d
  proof (cases "d = K j")
    case True
    then show ?thesis using ring_remove [OF r] here by (simp add: unlink_links [OF u])
  next
    case False
    then show ?thesis
      using assms(1) that away [of d] same [of d] unfolding unlink_links [OF u] by (subst ring_other) (auto simp: covering_def)
  qed
  moreover have "ring (nd_down (unlink j s)) (nd_up (unlink j s)) c (live cs c)"
    using assms(1,3) K away [of c] unfolding unlink_links [OF u] by (subst ring_other) (auto simp: covering_def)
  ultimately show ?thesis using u by (simp add: covering_def)
qed

lemma covering_unlinks:
  assumes "covering c cs X s" and "set cs \<subseteq> H" and "c \<in> set cs" and "distinct js" and "set js \<inter> X = {}"
    and "\<And>j. j \<in> set js \<Longrightarrow> j \<in> N \<and> cols j \<subseteq> set cs \<and> K j \<noteq> c"
  shows "all_unlinkable js s \<and> covering c cs (X \<union> set js) (unlinks js s)"
  using assms(1,4-)
proof (induction js arbitrary: s X)
  case (Cons j js)
  from covering_unlink [OF Cons.prems(1) assms(2,3)] Cons.prems
  have u: "unlinkable j s" "covering c cs (insert j X) (unlink j s)" by auto
  from Cons.IH [OF u(2)] Cons.prems u(1) show ?case by auto
qed simp

text \<open>The nodes that covering \<open>c\<close> unlinks.\<close>

definition met :: "nat list \<Rightarrow> nat \<Rightarrow> nat list" where
  "met cs c = concat (map oth (live cs c))"

lemma met_nodes:
  assumes "c \<in> H" and "j \<in> set (met cs c)"
  shows "j \<in> N \<and> cols j \<subseteq> set cs \<and> K j \<noteq> c \<and> c \<in> cols j"
proof -
  obtain m where m: "m \<in> N" "K m = c" "cols m \<subseteq> set cs" "j \<in> set (oth m)" using assms by (auto simp: met_def set_live)
  moreover have "K j \<noteq> K m" using row [OF m(1)] m(4) by (auto simp: inj_on_def)
  moreover have "c \<in> cols m" using m(2) by (auto simp: cols_def)
  ultimately show ?thesis using row [OF m(1)] cols_mate [OF m(1,4)] by auto
qed

lemma distinct_met:
  assumes "c \<in> H"
  shows "distinct (met cs c)"
  unfolding met_def
proof (rule distinct_concat_map)
  fix m n assume mn: "m \<in> set (live cs c)" "n \<in> set (live cs c)" "m \<noteq> n"
  then have N: "m \<in> N" "n \<in> N" "K m = K n" using set_live [OF assms] by auto
  have False if "j \<in> set (oth m)" "j \<in> set (oth n)" for j
  proof -
    have "insert m (set (oth m)) = insert n (set (oth n))" using same_row [OF N(1) that(1)] same_row [OF N(2) that(2)] by simp
    then have "m \<in> insert n (set (oth n))" by blast
    then show False using row [OF N(2)] N(3) mn(3) by (metis inj_onD insertI1)
  qed
  then show "set (oth m) \<inter> set (oth n) = {}" by blast
qed (use assms row in \<open>auto simp: set_live live_def column\<close>)

lemma not_met:
  assumes "set cs \<subseteq> H" and "distinct cs" and "c \<in> set cs" and "d \<in> set cs" and "d \<noteq> c"
  shows "filter (\<lambda>n. n \<notin> set (met cs c)) (live cs d) = live (remove1 c cs) d"
proof -
  have cH: "c \<in> H" and dH: "d \<in> H" using assms by auto
  have "cols n \<subseteq> set cs \<and> n \<notin> set (met cs c) \<longleftrightarrow> cols n \<subseteq> set cs - {c}" if "n \<in> set (V d)" for n
  proof -
    have n: "n \<in> N" "K n = d" using that column [OF dH] by auto
    have "n \<in> set (met cs c)" if in_cs: "cols n \<subseteq> set cs" and "c \<in> cols n"
    proof -
      from that(2) n assms(5) obtain m where m: "m \<in> set (oth n)" "K m = c" by (auto simp: cols_def)
      then have "m \<in> N" "cols m = cols n" using row [OF n(1)] cols_mate [OF n(1)] by auto
      then have "m \<in> set (live cs c)" using m in_cs by (simp add: set_live cH)
      moreover have "n \<in> set (oth m)" using same_row [OF n(1) m(1)] m n assms(5) by auto
      ultimately show ?thesis by (auto simp: met_def)
    qed
    with met_nodes [OF cH] show ?thesis by auto
  qed
  then show ?thesis using assms(2) by (simp add: live_def cong: filter_cong)
qed

lemma cover_ok:
  assumes "linked s cs" and "c \<in> set cs"
  shows "\<exists>t. cover c s = Some t \<and> uncover c t = Some s \<and> linked t (remove1 c cs) \<and> ring (nd_down t) (nd_up t) c (live cs c) \<and> nd_name t = nd_name s"
proof -
  let ?s = "unlink_column c s" and ?ns = "live cs c" and ?L = "met cs c"
  let ?t = "unlinks ?L ?s"
  have H: "set cs \<subseteq> H" "c \<in> H" and root: "ring (nd_right s) (nd_left s) root cs" and d: "distinct cs"
    using assms by (auto simp: linked_def ring_def)
  obtain xs ys where cs: "cs = xs @ c # ys" using assms(2) by (meson split_list)
  note links = unlink_column_links [OF root [unfolded cs]] and nb = ring_neighbours [OF root [unfolded cs]]
  have root': "ring (nd_right ?s) (nd_left ?s) root (remove1 c cs)"
    using ring_remove [OF root [unfolded cs]] d by (simp add: links cs remove1_append)
  have near: "nd_left s c \<in> insert root H" "nd_right s c \<in> insert root H"
    using nb(1,2) H(1) last_in_set [of "root # xs"] hd_in_set [of "ys @ [root]"] by (auto simp: cs)
  have rows: "chain (nd_right ?s) n (oth n) n \<and> chain (nd_left ?s) n (rev (oth n)) n" if "n \<in> N" for n
  proof -
    have "insert n (set (oth n)) \<inter> insert root H = {}" using row [OF that] apart that by auto
    with near that assms(1) show ?thesis unfolding links linked_def by (metis chain_upd disjoint_iff insert_iff set_rev)
  qed
  have start: "covering c cs {} ?s" using assms by (auto simp: linked_def covering_def)
  have part: "all_unlinkable js ?s \<and> covering c cs (set js) (unlinks js ?s)" if "?L = js @ ks" for js ks
    using covering_unlinks [OF start H(1) assms(2), of js] distinct_met [OF H(2), of cs] met_nodes [OF H(2), of _ cs] that by auto
  have column_ring: "ring (nd_down (unlinks (concat (map oth ms)) ?s)) (nd_up (unlinks (concat (map oth ms)) ?s)) c ?ns"
    if "?ns = ms @ ks" for ms ks
    using part [of "concat (map oth ms)" "concat (map oth ks)"] that by (simp add: met_def covering_def)
  have N: "n \<in> N" if "n \<in> set ?ns" for n using that set_live [OF H(2)] by auto
  have "path nd_down (\<lambda>row s. ring_for nd_right (\<lambda>j s. Some (unlink j s)) row (nd_right s row) s) ?ns c ?s ?t"
    unfolding met_def
  proof (rule column_forward)
    fix ms n ks assume ns: "?ns = ms @ n # ks"
    show "nd_down (unlinks (concat (map oth (ms @ [n]))) ?s) n = hd (ks @ [c])"
      using ring_neighbours(1) [OF column_ring [of "ms @ [n]" ks, unfolded ns]] by simp
  qed (use rows N row in auto)
  from ring_for_path [OF this] start have fwd: "cover c s = Some ?t"
    by (auto simp: cover_def covering_def ring_def Let_def dest: chain_first)
  have "path nd_up (\<lambda>row s. ring_for nd_left (\<lambda>j s. Some (relink j s)) row (nd_left s row) s) (rev ?ns) c ?t ?s"
    unfolding met_def
  proof (rule column_backward)
    fix ms n ks assume ns: "?ns = ms @ n # ks"
    show "nd_up (unlinks (concat (map oth ms)) ?s) n = hd (rev ms @ [c])"
      using ring_neighbours(2) [OF column_ring [of ms "n # ks", unfolded ns]] by (simp add: last_rev_hd)
  qed (use rows N row part [of ?L "[]"] in \<open>auto simp: met_def\<close>)
  moreover have ring_c: "ring (nd_down ?t) (nd_up ?t) c ?ns" using column_ring [of ?ns "[]"] by (simp add: met_def)
  ultimately have bwd: "uncover c ?t = Some s"
    using ring_for_path [of nd_up _ "rev ?ns" c ?t ?s] by (auto simp: uncover_def ring_def links dest: chain_first)
  have "linked ?t (remove1 c cs)"
    using root' rows part [of ?L "[]"] H(1) d not_met [OF H(1) d assms(2)] assms(1) by (auto simp: linked_def covering_def)
  with fwd bwd ring_c show ?thesis by auto
qed

lemma min_loop_ok:
  assumes "chain (nd_right s) a xs root" and "root \<notin> set xs" and "set xs \<subseteq> C" and "c \<in> C"
  shows "\<exists>c'\<in>C. min_loop s root c m (hd (xs @ [root])) = Some c'"
  using assms
proof (induction xs arbitrary: a c m)
  case (Cons x xs)
  then have "nd_right s x = hd (xs @ [root])" by (auto dest: chain_first)
  with Cons show ?case by (subst min_loop.simps) auto
qed (simp add: min_loop.simps)

lemma get_min_column_ok:
  assumes "linked s cs" and "cs \<noteq> []"
  shows "\<exists>c\<in>set cs. get_min_column root s = Some c"
proof -
  obtain c xs where cs: "cs = c # xs" using assms(2) by (cases cs) auto
  have "chain (nd_right s) root (c # xs) root" "root \<notin> set xs" using assms(1) by (auto simp: linked_def ring_def cs)
  then have "nd_right s root = c" "chain (nd_right s) c xs root" by simp_all
  with min_loop_ok [OF this(2) \<open>root \<notin> set xs\<close>, of "set cs" c] chain_first [OF this(2)] show ?thesis
    by (auto simp: get_min_column_def cs Let_def)
qed

text \<open>Choosing a row covers the columns of its other nodes one after the other; going back over the row undoes it.\<close>

lemma row_cover:
  assumes "n \<in> N" and "oth n = is @ js" and "linked s cs" and "K ` set js \<subseteq> set cs"
  shows "\<exists>t cs'. path nd_right (\<lambda>j s. cover (nd_col s j) s) js n s t \<and> linked t cs' \<and> nd_name t = nd_name s
    \<and> path nd_left (\<lambda>j s. uncover (nd_col s j) s) (rev js) (hd (rev is @ [n])) t s
    \<and> set cs' = set cs - K ` set js \<and> length cs' \<le> length cs"
  using assms(2-)
proof (induction js arbitrary: "is" s cs)
  case (Cons j js)
  have n: "set (is @ j # js) \<subseteq> N" "distinct (is @ j # js)" "inj_on K (set (is @ j # js))"
    using row [OF assms(1)] Cons.prems(1) by (auto intro: inj_on_subset)
  from cover_ok [OF Cons.prems(2), of "K j"] Cons.prems(3) obtain u where
    u: "cover (K j) s = Some u" "uncover (K j) u = Some s" "linked u (remove1 (K j) cs)" "nd_name u = nd_name s" by auto
  have d: "distinct cs" using Cons.prems(2) by (simp add: linked_def ring_def)
  have "K j \<notin> K ` set js" using n(2,3) by (auto simp: inj_on_def)
  with Cons.prems(3) d have "K ` set js \<subseteq> set (remove1 (K j) cs)" by (simp add: subset_Diff_insert)
  from Cons.IH [of "is @ [j]", OF _ u(3) this] Cons.prems(1) obtain t cs' where
    t: "path nd_right (\<lambda>j s. cover (nd_col s j) s) js n u t" "linked t cs'" "nd_name t = nd_name u"
      "path nd_left (\<lambda>j s. uncover (nd_col s j) s) (rev js) j t u" "set cs' = set (remove1 (K j) cs) - K ` set js"
      "length cs' \<le> length (remove1 (K j) cs)" by auto
  have ch: "chain (nd_right u) n (is @ j # js) n" "chain (nd_left s) n (rev (is @ j # js)) n" "nd_col s j = K j" "nd_col u j = K j"
    using u(3) Cons.prems(1,2) assms(1) n(1) by (auto simp: linked_def)
  then have "nd_right u j = hd (js @ [n])" "nd_left s j = hd (rev is @ [n])" by (auto simp: chain_append dest: chain_first)
  with t u ch(3,4) d path_snoc [OF t(4)] Cons.prems(3) show ?case
    by (intro exI [of _ t] exI [of _ cs']) (auto simp: length_remove1)
qed auto

section \<open>Exact covers\<close>

definition exact_cover :: "nat set \<Rightarrow> nat list \<Rightarrow> bool" where
  "exact_cover C sol \<longleftrightarrow> set sol \<subseteq> N \<and> sorted_wrt (\<lambda>a b. cols a \<inter> cols b = {}) sol \<and> \<Union> (cols ` set sol) = C"

lemma cols_nonempty: "K n \<in> cols n"
  by (simp add: cols_def)

lemma exact_cover_Nil: "exact_cover {} sol \<longleftrightarrow> sol = []"
  using cols_nonempty by (cases sol) (auto simp: exact_cover_def)

lemma exact_cover_Cons: "n \<in> N \<Longrightarrow> cols n \<subseteq> C \<Longrightarrow> exact_cover (C - cols n) sol \<Longrightarrow> exact_cover C (n # sol)"
  by (auto simp: exact_cover_def)

lemma exact_cover_step:
  assumes "exact_cover (set cs) sol" and "c \<in> set cs" and "c \<in> H"
  shows "\<exists>n\<in>set (live cs c). \<exists>sol'. exact_cover (set cs - cols n) sol'"
proof -
  from assms(1,2) obtain m where m: "m \<in> set sol" "m \<in> N" "c \<in> cols m" unfolding exact_cover_def by blast
  obtain xs ys where sol: "sol = xs @ m # ys" using m(1) by (meson split_list)
  have disj: "cols a \<inter> cols m = {}" if "a \<in> set (xs @ ys)" for a
    using assms(1) that by (auto simp: exact_cover_def sol sorted_wrt_append)
  have "exact_cover (set cs - cols m) (xs @ ys)"
    using assms(1) disj by (auto simp: exact_cover_def sol sorted_wrt_append)
  moreover obtain n where n: "n \<in> insert m (set (oth m))" "K n = c" using m(3) by (auto simp: cols_def)
  then have "n \<in> N" "cols n = cols m" using row [OF m(2)] cols_mate [OF m(2)] m(2) by auto
  moreover have "cols m \<subseteq> set cs" using assms(1) m(1) by (auto simp: exact_cover_def)
  ultimately show ?thesis using n(2) assms(3) by (intro bexI [of _ n]) (auto simp: set_live)
qed

end

end
