(* ===== verification/Sudoku.thy ===== *)
theory Sudoku
  imports Dancing_Links
begin

text \<open>
  \<open>examples/sudoku/sudoku.{h,cc}\<close>: the solver. Its state is the array of nodes with the links of \<open>Dancing_Links\<close>, the table of column
  headers, the stack of chosen rows and the board. The constructor can fail in an assertion or by an access outside an array, so
  it returns a \<open>result\<close>; the search may run forever, so it is a partial function into \<open>option\<close>. The uninitialised memory of the nodes is a parameter.
\<close>

section \<open>The solver object\<close>

definition kCells :: nat where "kCells = 81"

definition kMaxNodes :: nat where "kMaxNodes = 1 + 81 * 4 + 9 * 9 * 9 * 4"

definition kRow :: nat where "kRow = 100"
definition kCol :: nat where "kCol = 200"
definition kBox :: nat where "kBox = 300"

definition kNoSolution :: string where "kNoSolution = ''NoSolution''"

record solver =
  sv_root :: nat
  sv_inout :: "int list"
  sv_columns :: "nat \<rightharpoonup> nat"    \<comment> \<open>the 400 pointers; null is \<open>None\<close>\<close>
  sv_stack :: "nat list"
  sv_nodes :: nodes
  curr_node :: nat

text \<open>\<open>memset\<close> and the pointers of a new node to itself.\<close>

definition reset_node :: "nat \<Rightarrow> nat \<Rightarrow> nodes \<Rightarrow> nodes" where
  "reset_node c n s = s\<lparr>nd_left := (nd_left s)(c := c), nd_right := (nd_right s)(c := c), nd_up := (nd_up s)(c := c), nd_down := (nd_down s)(c := c),
     nd_col := (nd_col s)(c := c), nd_name := (nd_name s)(c := n), nd_size := (nd_size s)(c := 0)\<rparr>"

definition new_column :: "nat \<Rightarrow> solver \<Rightarrow> (nat \<times> solver) result" where
  "new_column n s = assertr (curr_node s < kMaxNodes)
     (let c = curr_node s in Inr (c, s\<lparr>curr_node := c + 1, sv_nodes := reset_node c n (sv_nodes s)\<rparr>))"

definition append_column :: "solver \<Rightarrow> nat \<Rightarrow> solver result" where
  "append_column s n =
     (if 400 \<le> n then Inl Out_of_bounds
      else assertr (sv_columns s n = None)
        (bindr (new_column n s) (\<lambda>(c, s). Inr (s\<lparr>sv_nodes := put_left (sv_root s) c (sv_nodes s), sv_columns := (sv_columns s)(n \<mapsto> c)\<rparr>))))"

definition new_row :: "nat \<Rightarrow> solver \<Rightarrow> (nat \<times> solver) result" where
  "new_row col s =
     (if 400 \<le> col then Inl Out_of_bounds
      else case sv_columns s col of
             None \<Rightarrow> Inl Assert_failed
           | Some c \<Rightarrow> assertr (curr_node s < kMaxNodes)
               (let r = curr_node s; nodes = reset_node r col (sv_nodes s); nodes = nodes\<lparr>nd_col := (nd_col nodes)(r := c)\<rparr>
                in Inr (r, s\<lparr>curr_node := r + 1, sv_nodes := put_up c r nodes\<rparr>)))"

definition get_row_col :: "nat \<Rightarrow> nat \<Rightarrow> nat" where "get_row_col row val = kRow + row * 10 + val"
definition get_col_col :: "nat \<Rightarrow> nat \<Rightarrow> nat" where "get_col_col col val = kCol + col * 10 + val"
definition get_box_col :: "nat \<Rightarrow> nat \<Rightarrow> nat" where "get_box_col box val = kBox + box * 10 + val"

definition row_of :: "nat \<Rightarrow> nat" where "row_of i = i div 9"
definition col_of :: "nat \<Rightarrow> nat" where "col_of i = i mod 9"
definition box_of :: "nat \<Rightarrow> nat" where "box_of i = row_of i div 3 * 3 + col_of i div 3"

text \<open>The three tables of the digits that are given.\<close>

type_synonym table = "nat \<times> nat \<Rightarrow> bool"

definition mark_cell :: "int list \<Rightarrow> table \<times> table \<times> table \<Rightarrow> nat \<Rightarrow> (table \<times> table \<times> table) result" where
  "mark_cell board m i =
     (let val = board ! i
      in case m of (rows, cols, boxes) \<Rightarrow>
        if val < 0 \<or> 10 \<le> val then Inl Out_of_bounds
        else Inr (rows((row_of i, nat val) := True), cols((col_of i, nat val) := True), boxes((box_of i, nat val) := True)))"

definition append_unit_columns :: "table \<Rightarrow> table \<Rightarrow> table \<Rightarrow> solver \<Rightarrow> nat \<times> nat \<Rightarrow> solver result" where
  "append_unit_columns rows cols boxes s iv =
     (case iv of (i, v) \<Rightarrow>
        bindr (if \<not> rows (i, v) then append_column s (get_row_col i v) else Inr s) (\<lambda>s.
        bindr (if \<not> cols (i, v) then append_column s (get_col_col i v) else Inr s) (\<lambda>s.
        if \<not> boxes (i, v) then append_column s (get_box_col i v) else Inr s)))"

text \<open>The four nodes of one choice, linked into a row.\<close>

definition append_choice :: "solver \<Rightarrow> nat \<times> nat \<Rightarrow> solver result" where
  "append_choice s iv =
     (case iv of (i, v) \<Rightarrow>
        bindr (new_row i s) (\<lambda>(n0, s).
        bindr (new_row (get_row_col (row_of i) v) s) (\<lambda>(nr, s).
        bindr (new_row (get_col_col (col_of i) v) s) (\<lambda>(nc, s).
        bindr (new_row (get_box_col (box_of i) v) s) (\<lambda>(nb, s).
        Inr (s\<lparr>sv_nodes := put_left n0 nb (put_left n0 nc (put_left n0 nr (sv_nodes s)))\<rparr>))))))"

text \<open>In the constructor \<open>inout_\<close> points to the board.\<close>

definition append_choices :: "int list \<Rightarrow> table \<Rightarrow> table \<Rightarrow> table \<Rightarrow> solver \<Rightarrow> nat \<Rightarrow> solver result" where
  "append_choices board rows cols boxes s i =
     (if board ! i = 0
      then foldr_result (\<lambda>s v. if \<not> (rows (row_of i, v) \<or> cols (col_of i, v) \<or> boxes (box_of i, v)) then append_choice s (i, v) else Inr s)
             s [1..<10]
      else Inr s)"

definition SudokuSolver_new :: "nodes \<Rightarrow> int list \<Rightarrow> solver result" where
  "SudokuSolver_new junk board =
     bindr (new_column 0 \<lparr>sv_root = 0, sv_inout = board, sv_columns = Map.empty, sv_stack = [], sv_nodes = junk, curr_node = 0\<rparr>) (\<lambda>(root, s).
     let s = s\<lparr>sv_root := root, sv_nodes := (sv_nodes s)\<lparr>nd_right := (nd_right (sv_nodes s))(root := root), nd_left := (nd_left (sv_nodes s))(root := root)\<rparr>\<rparr>
     in bindr (foldr_result (mark_cell board) (\<lambda>_. False, \<lambda>_. False, \<lambda>_. False) [0..<kCells]) (\<lambda>(rows, cols, boxes).
        bindr (foldr_result (\<lambda>s i. if board ! i = 0 then append_column s i else Inr s) s [0..<kCells]) (\<lambda>s.
        bindr (foldr_result (append_unit_columns rows cols boxes) s (List.product [0..<9] [1..<10])) (\<lambda>s.
        foldr_result (append_choices board rows cols boxes) s [0..<kCells]))))"

section \<open>The search\<close>

text \<open>The loop that reads cell and digit off the row of \<open>n\<close>.\<close>

partial_function (option) read_choice :: "nodes \<Rightarrow> nat \<Rightarrow> int \<Rightarrow> int \<Rightarrow> (int \<times> int) option" where
  "read_choice s n cell val =
     (if cell = -1 \<or> val = -1
      then if nd_name s n < 100 then read_choice s (nd_right s n) (int (nd_name s n)) val
           else read_choice s (nd_right s n) cell (int (nd_name s n mod 10))
      else Some (cell, val))"

fun write_solution :: "nodes \<Rightarrow> nat list \<Rightarrow> int list \<Rightarrow> int list option" where
  "write_solution s [] board = Some board"
| "write_solution s (n # ns) board =
     Option.bind (read_choice s n (-1) (-1)) (\<lambda>(cell, val). write_solution s ns (board[nat cell := val]))"

text \<open>\<open>Solve\<close> is a call of \<open>solve\<close>; \<open>Try col row\<close> is its loop over the rows of the covered column, at \<open>row\<close>.\<close>

datatype search = Solve | Try nat nat

partial_function (option) solve :: "search \<Rightarrow> solver \<Rightarrow> (bool \<times> solver) option" where
  "solve call s =
     (case call of
        Solve \<Rightarrow>
          (if nd_left (sv_nodes s) (sv_root s) = sv_root s
           then Option.bind (write_solution (sv_nodes s) (sv_stack s) (sv_inout s)) (\<lambda>b. Some (True, s\<lparr>sv_inout := b\<rparr>))
           else Option.bind (get_min_column (sv_root s) (sv_nodes s)) (\<lambda>col.
                Option.bind (cover col (sv_nodes s)) (\<lambda>nodes.
                solve (Try col (nd_down nodes col)) (s\<lparr>sv_nodes := nodes\<rparr>))))
      | Try col row \<Rightarrow>
          (if row = col
           then Option.bind (uncover col (sv_nodes s)) (\<lambda>nodes. Some (False, s\<lparr>sv_nodes := nodes\<rparr>))
           else Option.bind (ring_for nd_right (\<lambda>j s. cover (nd_col s j) s) row (nd_right (sv_nodes s) row) (sv_nodes s)) (\<lambda>nodes.
                Option.bind (solve Solve (s\<lparr>sv_stack := sv_stack s @ [row], sv_nodes := nodes\<rparr>)) (\<lambda>r.
                if fst r then Some r
                else Option.bind (ring_for nd_left (\<lambda>j s. uncover (nd_col s j) s) row (nd_left (sv_nodes (snd r)) row) (sv_nodes (snd r))) (\<lambda>nodes.
                     solve (Try col (nd_down nodes row)) ((snd r)\<lparr>sv_stack := butlast (sv_stack (snd r)), sv_nodes := nodes\<rparr>))))))"

text \<open>\<open>char\<close> is signed.\<close>

definition signed_char :: "char \<Rightarrow> int" where
  "signed_char c = (let k = int (of_char c) in if k < 128 then k else k - 256)"

definition board_of :: "string \<Rightarrow> int list" where
  "board_of puzzle = map (\<lambda>i. signed_char (puzzle ! i) - 48) [0..<kCells]"

definition SolveSudoku :: "nodes \<Rightarrow> string \<Rightarrow> string result option" where
  "SolveSudoku junk puzzle =
     (if length puzzle \<noteq> kCells then Some (Inl Assert_failed)
      else let board = board_of puzzle
           in if list_all (\<lambda>b. 0 \<le> b \<and> b \<le> 9) board
              then case SudokuSolver_new junk board of
                     Inl e \<Rightarrow> Some (Inl e)
                   | Inr s \<Rightarrow> Option.bind (solve Solve s) (\<lambda>(ok, s).
                       Some (Inr (if ok then map (\<lambda>b. char_of (nat (b + 48))) (sv_inout s) else kNoSolution)))
              else Some (Inr kNoSolution))"

section \<open>Lemmas: the search\<close>

context dancing_links
begin

text \<open>What a search in the columns \<open>cs\<close> returns.\<close>

definition answers :: "solver \<Rightarrow> nat set \<Rightarrow> (bool \<times> solver) option \<Rightarrow> bool" where
  "answers s C r \<longleftrightarrow> (\<exists>b s'. r = Some (b, s') \<and>
     (if b then \<exists>sol t. exact_cover C sol \<and> linked t [] \<and> nd_name t = nd_name (sv_nodes s)
              \<and> write_solution t (sv_stack s @ sol) (sv_inout s) = Some (sv_inout s')
      else s' = s \<and> (\<nexists>sol. exact_cover C sol)))"

text \<open>A solver ready to search in the columns \<open>cs\<close>: every row on the stack can be read back.\<close>

definition readable :: "(nat \<Rightarrow> nat) \<Rightarrow> bool" where
  "readable nm \<longleftrightarrow> (\<forall>u n. nd_name u = nm \<longrightarrow> (\<forall>n\<in>N. chain (nd_right u) n (oth n) n) \<longrightarrow> n \<in> N \<longrightarrow> read_choice u n (-1) (-1) \<noteq> None)"

definition ready :: "solver \<Rightarrow> nat list \<Rightarrow> bool" where
  "ready s cs \<longleftrightarrow> linked (sv_nodes s) cs \<and> sv_root s = root \<and> set (sv_stack s) \<subseteq> N \<and> readable (nd_name (sv_nodes s))"

definition search_below :: "nat \<Rightarrow> bool" where
  "search_below k \<longleftrightarrow> (\<forall>s cs. length cs < k \<longrightarrow> ready s cs \<longrightarrow> answers s (set cs) (solve Solve s))"

lemma write_solution_total:
  assumes "readable (nd_name u)" and "linked u cs" and "set ns \<subseteq> N"
  shows "\<exists>b'. write_solution u ns b = Some b'"
  using assms(3)
proof (induction ns arbitrary: b)
  case (Cons n ns)
  then obtain r where "read_choice u n (-1) (-1) = Some r" using assms(1,2) by (fastforce simp: readable_def linked_def)
  with Cons show ?case by (cases r) auto
qed simp

text \<open>Trying the row of \<open>n\<close> in the covered column \<open>c\<close>.\<close>

lemma try_row:
  assumes "search_below (length cs)"
    and "linked t (remove1 c cs)" and "distinct cs" and "c \<in> set cs" and "ready s (remove1 c cs)" and "sv_nodes s = t"
    and "n \<in> N" and "K n = c" and "cols n \<subseteq> set cs" and "nd_down t n = m"
  shows "(\<exists>s' sol u. solve (Try c n) s = Some (True, s') \<and> exact_cover (set cs) (n # sol) \<and> linked u [] \<and> nd_name u = nd_name t
        \<and> write_solution u (sv_stack s @ n # sol) (sv_inout s) = Some (sv_inout s'))
    \<or> solve (Try c n) s = solve (Try c m) s \<and> (\<nexists>sol. exact_cover (set cs - cols n) sol)"
proof -
  have nc: "n \<noteq> c" using assms(7,8) header [OF assms(7)] apart(1) by auto
  have Kc: "c \<notin> K ` set (oth n)" using row [OF assms(7)] assms(8) by (metis imageE inj_onD insertCI)
  have cols: "cols n = insert c (K ` set (oth n))" using assms(8) by (simp add: cols_def)
  then have "K ` set (oth n) \<subseteq> set (remove1 c cs)" using Kc assms(3,9) by auto
  from row_cover [OF assms(7) _ assms(2) this, of "[]"] obtain u ds where
    u: "path nd_right (\<lambda>j s. cover (nd_col s j) s) (oth n) n t u" "linked u ds" "nd_name u = nd_name t"
      "path nd_left (\<lambda>j s. uncover (nd_col s j) s) (rev (oth n)) n u t" "set ds = set (remove1 c cs) - K ` set (oth n)"
      "length ds \<le> length (remove1 c cs)" by auto
  have ds: "set ds = set cs - cols n" using u(5) assms(3) cols by auto
  have "length (remove1 c cs) < length cs" using assms(4) length_pos_if_in_set [OF assms(4)] by (simp add: length_remove1)
  with u(6) have len: "length ds < length cs" by simp
  let ?s = "s\<lparr>sv_stack := sv_stack s @ [n], sv_nodes := u\<rparr>"
  have no: "n \<notin> set (oth n)" "n \<notin> set (rev (oth n))" using row [OF assms(7)] by auto
  have first: "nd_right t n = hd (oth n @ [n])" "nd_left u n = hd (rev (oth n) @ [n])"
    using assms(2,7) u(2) by (auto simp: linked_def dest!: bspec [of N _ n] dest: chain_first)
  note fwd = ring_for_path [OF u(1) no(1), folded first(1)] and bwd = ring_for_path [OF u(4) no(2), folded first(2)]
  have "answers ?s (set ds) (solve Solve ?s)" using assms(1,5,6,7) len u(2,3) by (auto simp: search_below_def ready_def)
  then obtain b s' where r: "solve Solve ?s = Some (b, s')" and
    b: "if b then \<exists>sol v. exact_cover (set ds) sol \<and> linked v [] \<and> nd_name v = nd_name (sv_nodes ?s)
               \<and> write_solution v (sv_stack ?s @ sol) (sv_inout ?s) = Some (sv_inout s')
        else s' = ?s \<and> (\<nexists>sol. exact_cover (set ds) sol)"
    unfolding answers_def by blast
  show ?thesis
  proof (cases b)
    case True
    then have "solve (Try c n) s = Some (True, s')"
      using nc fwd r by (subst solve.simps) (simp add: assms(6))
    moreover from b True obtain sol v where "exact_cover (set ds) sol" "linked v []" "nd_name v = nd_name u"
      "write_solution v (sv_stack s @ n # sol) (sv_inout s) = Some (sv_inout s')" by auto
    moreover from this(1) have "exact_cover (set cs) (n # sol)" using exact_cover_Cons [OF assms(7,9)] ds by simp
    ultimately show ?thesis using u(3) by auto
  next
    case False
    then have s': "s' = ?s" using b by simp
    have "solve (Try c n) s = solve (Try c m) (s\<lparr>sv_stack := sv_stack s, sv_nodes := t\<rparr>)"
      using nc fwd bwd r False assms(10) by (subst solve.simps) (simp add: assms(6) s')
    moreover have "s\<lparr>sv_stack := sv_stack s, sv_nodes := t\<rparr> = s" using assms(6) by (cases s) simp
    ultimately show ?thesis using b False ds by simp
  qed
qed

lemma try_rows:
  assumes "search_below (length cs)"
    and "linked t (remove1 c cs)" and "distinct cs" and "c \<in> set cs" and "c \<in> H" and "ready s (remove1 c cs)" and "sv_nodes s = t"
    and "ring (nd_down t) (nd_up t) c (live cs c)" and "uncover c t = Some t0" and "live cs c = ms @ ns"
  shows "(\<exists>s' sol u. solve (Try c (hd (ns @ [c]))) s = Some (True, s') \<and> exact_cover (set cs) sol \<and> linked u [] \<and> nd_name u = nd_name t
        \<and> write_solution u (sv_stack s @ sol) (sv_inout s) = Some (sv_inout s'))
    \<or> solve (Try c (hd (ns @ [c]))) s = Some (False, s\<lparr>sv_nodes := t0\<rparr>) \<and> (\<forall>n\<in>set ns. \<nexists>sol. exact_cover (set cs - cols n) sol)"
  using assms(10)
proof (induction ns arbitrary: ms)
  case Nil
  then show ?case using assms(7,9) by (simp add: solve.simps)
next
  case (Cons n ns)
  have n: "n \<in> N" "K n = c" "cols n \<subseteq> set cs" using set_live [OF assms(5), of cs] Cons.prems by auto
  have "nd_down t n = hd (ns @ [c])" using ring_neighbours(1) [OF assms(8) [unfolded Cons.prems]] .
  from try_row [OF assms(1-4,6,7) n this] show ?case
  proof (elim disjE conjE)
    assume next_row: "solve (Try c n) s = solve (Try c (hd (ns @ [c]))) s" and none: "\<nexists>sol. exact_cover (set cs - cols n) sol"
    from Cons.IH [of "ms @ [n]"] Cons.prems show ?thesis unfolding append_Cons list.sel next_row using none by simp
  qed auto
qed

theorem solve_answers:
  assumes "ready s cs"
  shows "answers s (set cs) (solve Solve s)"
  using assms
proof (induction "length cs" arbitrary: s cs rule: less_induct)
  case less
  let ?t = "sv_nodes s"
  have lk: "linked ?t cs" and rt: "sv_root s = root" using less.prems by (simp_all add: ready_def)
  have ring: "ring (nd_right ?t) (nd_left ?t) root cs" using lk by (simp add: linked_def)
  show ?case
  proof (cases "cs = []")
    case True
    then have "nd_left ?t root = root" using ring by (simp add: ring_def)
    moreover obtain b where b: "write_solution ?t (sv_stack s) (sv_inout s) = Some b"
      using write_solution_total [OF _ lk, of "sv_stack s" "sv_inout s"] less.prems unfolding ready_def by blast
    ultimately have "solve Solve s = Some (True, s\<lparr>sv_inout := b\<rparr>)" using rt by (simp add: solve.simps)
    moreover have "exact_cover (set cs) []" by (simp add: exact_cover_Nil True)
    ultimately show ?thesis using b lk True unfolding answers_def
      by (intro exI [of _ True] exI [of _ "s\<lparr>sv_inout := b\<rparr>"] conjI) (auto intro!: exI [of _ "[]"])
  next
    case False
    have "nd_left ?t root \<noteq> root"
      using ring False by (cases cs rule: rev_cases) (auto simp: ring_def)
    from get_min_column_ok [OF lk False] obtain c where c: "c \<in> set cs" "get_min_column root ?t = Some c" by blast
    from cover_ok [OF lk c(1)] obtain t where
      t: "cover c ?t = Some t" "uncover c t = Some ?t" "linked t (remove1 c cs)" "ring (nd_down t) (nd_up t) c (live cs c)" "nd_name t = nd_name ?t" by blast
    let ?s = "s\<lparr>sv_nodes := t\<rparr>"
    have "c \<in> H" and "distinct cs" using c(1) lk by (auto simp: linked_def ring_def)
    moreover have "search_below (length cs)" using less.hyps by (auto simp: search_below_def)
    moreover have "ready ?s (remove1 c cs)" using less.prems t(3,5) by (simp add: ready_def)
    ultimately
    have tried: "(\<exists>s' sol u. solve (Try c (hd (live cs c @ [c]))) ?s = Some (True, s') \<and> exact_cover (set cs) sol \<and> linked u [] \<and> nd_name u = nd_name t
        \<and> write_solution u (sv_stack s @ sol) (sv_inout s) = Some (sv_inout s'))
      \<or> solve (Try c (hd (live cs c @ [c]))) ?s = Some (False, s) \<and> (\<forall>n\<in>set (live cs c). \<nexists>sol. exact_cover (set cs - cols n) sol)"
      using try_rows [of cs t c ?s ?t "[]" "live cs c"] t(2-4) c(1) by simp
    have "nd_down t c = hd (live cs c @ [c])" using t(4) by (auto simp: ring_def dest: chain_first)
    then have "solve Solve s = solve (Try c (hd (live cs c @ [c]))) ?s"
      using \<open>nd_left ?t root \<noteq> root\<close> c(2) t(1) rt by (subst solve.simps) simp
    with tried have "(\<exists>s'. solve Solve s = Some (True, s') \<and> (\<exists>sol u. exact_cover (set cs) sol \<and> linked u [] \<and> nd_name u = nd_name ?t
        \<and> write_solution u (sv_stack s @ sol) (sv_inout s) = Some (sv_inout s')))
      \<or> solve Solve s = Some (False, s) \<and> (\<nexists>sol. exact_cover (set cs) sol)"
      using exact_cover_step [of cs _ c] c(1) \<open>c \<in> H\<close> t(5) by fastforce
    then show ?thesis unfolding answers_def by (elim disjE exE [where P = "\<lambda>s'. _ s' \<and> _ s'"] conjE) (intro exI conjI, assumption, simp)+
  qed
qed

end

section \<open>Lemmas: the loops of the constructor\<close>

lemma bindr_Inr [simp]: "bindr r Inr = r"
  by (cases r) simp_all

lemma foldr_result_filter: "foldr_result (\<lambda>s x. if P x then f s x else Inr s) s xs = foldr_result f s (filter P xs)"
  by (induction xs arbitrary: s) auto

lemma foldr_result_concat: "foldr_result f s (concat (map g xs)) = foldr_result (\<lambda>s x. foldr_result f s (g x)) s xs"
  by (induction xs arbitrary: s) (simp_all add: foldr_result_append)

definition given :: "int list \<Rightarrow> (nat \<Rightarrow> nat) \<Rightarrow> table" where
  "given board unit = (\<lambda>(u, v). \<exists>i<kCells. unit i = u \<and> board ! i = int v)"

lemma mark_cells:
  assumes "\<And>i. i < n \<Longrightarrow> 0 \<le> board ! i \<and> board ! i \<le> 9"
  shows "foldr_result (mark_cell board) (\<lambda>_. False, \<lambda>_. False, \<lambda>_. False) [0..<n] =
    Inr (\<lambda>(u, v). \<exists>i<n. row_of i = u \<and> board ! i = int v, \<lambda>(u, v). \<exists>i<n. col_of i = u \<and> board ! i = int v,
         \<lambda>(u, v). \<exists>i<n. box_of i = u \<and> board ! i = int v)"
  using assms
proof (induction n)
  case (Suc n)
  have n: "\<not> (board ! n < 0 \<or> 10 \<le> board ! n)" using Suc.prems [of n] by auto
  show ?case using Suc.IH [OF Suc.prems] n by (auto simp: foldr_result_append mark_cell_def Let_def fun_eq_iff less_Suc_eq)
qed auto

definition unit_names :: "int list \<Rightarrow> nat \<times> nat \<Rightarrow> nat list" where
  "unit_names board iv = (case iv of (i, v) \<Rightarrow>
     (if \<not> given board row_of (i, v) then [get_row_col i v] else []) @ (if \<not> given board col_of (i, v) then [get_col_col i v] else [])
     @ (if \<not> given board box_of (i, v) then [get_box_col i v] else []))"

text \<open>The columns and the choices, in the order of their creation.\<close>

definition names :: "int list \<Rightarrow> nat list" where
  "names board = filter (\<lambda>i. board ! i = 0) [0..<kCells] @ concat (map (unit_names board) (List.product [0..<9] [1..<10]))"

definition free :: "int list \<Rightarrow> nat \<Rightarrow> nat \<Rightarrow> bool" where
  "free board i v \<longleftrightarrow> \<not> (given board row_of (row_of i, v) \<or> given board col_of (col_of i, v) \<or> given board box_of (box_of i, v))"

definition choices :: "int list \<Rightarrow> (nat \<times> nat) list" where
  "choices board = concat (map (\<lambda>i. map (Pair i) (filter (free board i) [1..<10])) (filter (\<lambda>i. board ! i = 0) [0..<kCells]))"

lemma append_unit_columns_names:
  "append_unit_columns (given board row_of) (given board col_of) (given board box_of) s iv = foldr_result append_column s (unit_names board iv)"
  by (cases iv) (auto simp: append_unit_columns_def unit_names_def foldr_result_append fun_eq_iff)

lemma SudokuSolver_new_steps:
  assumes "\<And>i. i < kCells \<Longrightarrow> 0 \<le> board ! i \<and> board ! i \<le> 9"
  shows "SudokuSolver_new junk board =
    bindr (foldr_result append_column
       \<lparr>sv_root = 0, sv_inout = board, sv_columns = Map.empty, sv_stack = [], sv_nodes = reset_node 0 0 junk, curr_node = 1\<rparr> (names board))
     (\<lambda>s. foldr_result append_choice s (choices board))"
proof -
  let ?s = "\<lparr>sv_root = 0, sv_inout = board, sv_columns = Map.empty, sv_stack = [], sv_nodes = reset_node 0 0 junk, curr_node = 1\<rparr>"
  have g: "given board row_of = (\<lambda>(u, v). \<exists>i<kCells. row_of i = u \<and> board ! i = int v)"
    "given board col_of = (\<lambda>(u, v). \<exists>i<kCells. col_of i = u \<and> board ! i = int v)"
    "given board box_of = (\<lambda>(u, v). \<exists>i<kCells. box_of i = u \<and> board ! i = int v)" by (simp_all add: given_def)
  have ch: "append_choices board (given board row_of) (given board col_of) (given board box_of) = (\<lambda>s i. if board ! i = 0
      then foldr_result append_choice s (map (Pair i) (filter (free board i) [1..<10])) else Inr s)"
  proof (intro ext)
    fix s i
    have "foldr_result append_choice s (map (Pair i) xs) = foldr_result (\<lambda>s v. append_choice s (i, v)) s xs" for s xs
      by (induction xs arbitrary: s) (simp_all)
    then show "append_choices board (given board row_of) (given board col_of) (given board box_of) s i = (if board ! i = 0
      then foldr_result append_choice s (map (Pair i) (filter (free board i) [1..<10])) else Inr s)"
      by (simp add: append_choices_def foldr_result_filter free_def [abs_def])
  qed
  have s: "new_column 0 (?s\<lparr>sv_nodes := junk, curr_node := 0\<rparr>) = Inr (0, ?s)" by (simp add: new_column_def kMaxNodes_def assertr_def)
  have r: "(reset_node 0 0 junk)\<lparr>nd_right := (nd_right (reset_node 0 0 junk))(0 := 0), nd_left := (nd_left (reset_node 0 0 junk))(0 := 0)\<rparr>
      = reset_node 0 0 junk"
    by (simp add: reset_node_def)
  show ?thesis
    unfolding SudokuSolver_new_def using s mark_cells [of kCells board] assms
    by (simp add: Let_def r flip: g) (simp add: ch append_unit_columns_names [abs_def] foldr_result_filter names_def choices_def foldr_result_append
        foldr_result_concat bindr_assoc)
qed

end
