(* ===== verification/Sudoku_Correct.thy ===== *)
theory Sudoku_Correct
  imports Sudoku
begin

text \<open>
  Correctness of \<open>SolveSudoku\<close>: the constructor builds the links of the exact cover problem of a board, the search of \<open>Sudoku\<close> decides
  it, and exact covers are the completions of the board.
\<close>

section \<open>Appending columns\<close>

definition columns_of :: "nat list \<Rightarrow> nat \<rightharpoonup> nat" where
  "columns_of ns = map_of (zip ns [1..<Suc (length ns)])"

definition cols_inv :: "int list \<Rightarrow> nat list \<Rightarrow> solver \<Rightarrow> bool" where
  "cols_inv board ns s \<longleftrightarrow> sv_root s = 0 \<and> sv_inout s = board \<and> sv_stack s = [] \<and> curr_node s = Suc (length ns) \<and> sv_columns s = columns_of ns
     \<and> ring (nd_right (sv_nodes s)) (nd_left (sv_nodes s)) 0 [1..<Suc (length ns)]
     \<and> (\<forall>d\<in>{1..<Suc (length ns)}. ring (nd_down (sv_nodes s)) (nd_up (sv_nodes s)) d [])"

lemma put_left_ring:
  assumes "ring (nd_right s) (nd_left s) h xs" and "y \<notin> set (h # xs)"
  shows "ring (nd_right (put_left h y s)) (nd_left (put_left h y s)) h (xs @ [y])"
    "\<And>x. x \<notin> set (h # xs @ [y]) \<Longrightarrow> nd_right (put_left h y s) x = nd_right s x \<and> nd_left (put_left h y s) x = nd_left s x"
proof -
  have eq: "nd_right (put_left h y s) = (nd_right s)(y := h, nd_left s h := y)" "nd_left (put_left h y s) = (nd_left s)(y := nd_left s h, h := y)"
    using assms(2) by (auto simp: put_left_def Let_def)
  then show "ring (nd_right (put_left h y s)) (nd_left (put_left h y s)) h (xs @ [y])" using ring_append [OF assms] by simp
  have "nd_left s h = last (h # xs)" using assms(1) chain_first [of "nd_left s" h "rev xs" h] by (simp only: ring_def last_rev_hd)
  then have "nd_left s h \<in> set (h # xs)" using last_in_set [of "h # xs"] by simp
  then show "nd_right (put_left h y s) x = nd_right s x \<and> nd_left (put_left h y s) x = nd_left s x" if "x \<notin> set (h # xs @ [y])" for x
    using that by (auto simp: eq)
qed

lemma put_left_fields [simp]:
  "nd_up (put_left h y s) = nd_up s" "nd_down (put_left h y s) = nd_down s" "nd_col (put_left h y s) = nd_col s" "nd_name (put_left h y s) = nd_name s"
  by (simp_all add: put_left_def Let_def)

lemma reset_node_fields [simp]:
  "nd_left (reset_node c n s) = (nd_left s)(c := c)" "nd_right (reset_node c n s) = (nd_right s)(c := c)"
  "nd_up (reset_node c n s) = (nd_up s)(c := c)" "nd_down (reset_node c n s) = (nd_down s)(c := c)"
  "nd_col (reset_node c n s) = (nd_col s)(c := c)" "nd_name (reset_node c n s) = (nd_name s)(c := n)"
  by (simp_all add: reset_node_def)

lemma map_of_snoc: "map_of xs n = None \<Longrightarrow> map_of (xs @ [(n, c)]) = (map_of xs)(n \<mapsto> c)"
  by (auto simp: map_add_def fun_eq_iff split: option.splits)

lemma columns_of_snoc: "n \<notin> set ns \<Longrightarrow> columns_of (ns @ [n]) = (columns_of ns)(n \<mapsto> Suc (length ns))"
proof -
  assume n: "n \<notin> set ns"
  have "zip (ns @ [n]) [1..<Suc (length (ns @ [n]))] = zip ns [1..<Suc (length ns)] @ [(n, Suc (length ns))]"
    by (subst upt_Suc_append) (simp_all del: upt_Suc)
  moreover have "map_of (zip ns [1..<Suc (length ns)]) n = None" using n by (simp add: map_of_zip_is_None del: upt_Suc)
  ultimately show ?thesis unfolding columns_of_def using map_of_snoc by metis
qed

lemma append_column_inv:
  assumes "cols_inv board ns s" and "n \<notin> set ns" and "n < 400" and "Suc (length ns) < kMaxNodes"
  shows "\<exists>s'. append_column s n = Inr s' \<and> cols_inv board (ns @ [n]) s'"
proof -
  let ?c = "Suc (length ns)" and ?t = "reset_node (Suc (length ns)) n (sv_nodes s)"
  note inv = assms(1) [unfolded cols_inv_def]
  have none: "sv_columns s n = None" using inv assms(2) by (simp add: columns_of_def map_of_zip_is_None)
  have "ring (nd_right ?t) (nd_left ?t) 0 [1..<?c]" using inv by (simp add: ring_other)
  from put_left_ring(1) [OF this, of ?c] have "ring (nd_right (put_left 0 ?c ?t)) (nd_left (put_left 0 ?c ?t)) 0 [1..<Suc ?c]" by simp
  moreover have "ring (nd_down ?t) (nd_up ?t) d []" if "d \<in> {1..<Suc ?c}" for d
    using inv that by (cases "d = ?c") (auto simp: ring_def)
  moreover have "append_column s n =
      Inr (s\<lparr>curr_node := Suc ?c, sv_nodes := put_left 0 ?c ?t, sv_columns := (sv_columns s)(n \<mapsto> ?c)\<rparr>)"
    using inv none assms(3,4) by (simp add: append_column_def new_column_def assertr_def Let_def)
  ultimately show ?thesis using inv columns_of_snoc [OF assms(2)] by (auto simp: cols_inv_def)
qed

lemma append_columns:
  assumes "cols_inv board ms s" and "distinct (ms @ ns)" and "\<And>n. n \<in> set ns \<Longrightarrow> n < 400" and "length (ms @ ns) < kMaxNodes"
  shows "\<exists>s'. foldr_result append_column s ns = Inr s' \<and> cols_inv board (ms @ ns) s'"
  using assms
proof (induction ns arbitrary: ms s)
  case (Cons n ns)
  from append_column_inv [OF Cons.prems(1), of n] Cons.prems obtain s' where
    "append_column s n = Inr s'" "cols_inv board (ms @ [n]) s'" by auto
  with Cons.IH [of "ms @ [n]" s'] Cons.prems show ?case by auto
qed auto

section \<open>Appending choices\<close>

text \<open>The nodes of the choices \<open>cl\<close> after the columns \<open>ns\<close>: four for each choice, in the order of its four constraints.\<close>

definition choice_names :: "nat \<times> nat \<Rightarrow> nat list" where
  "choice_names iv = (case iv of (i, v) \<Rightarrow> [i, get_row_col (row_of i) v, get_col_col (col_of i) v, get_box_col (box_of i) v])"

definition node_name :: "nat list \<Rightarrow> (nat \<times> nat) list \<Rightarrow> nat \<Rightarrow> nat" where
  "node_name ns cl n = (let k = n - Suc (length ns) in choice_names (cl ! (k div 4)) ! (k mod 4))"

definition node_head :: "nat list \<Rightarrow> (nat \<times> nat) list \<Rightarrow> nat \<Rightarrow> nat" where
  "node_head ns cl n = the (columns_of ns (node_name ns cl n))"

definition node_mates :: "nat list \<Rightarrow> nat \<Rightarrow> nat list" where
  "node_mates ns n = (let q = (n - Suc (length ns)) mod 4; a = n - q in map (\<lambda>j. a + (q + j) mod 4) [1, 2, 3])"

definition vert_inv :: "int list \<Rightarrow> nat list \<Rightarrow> (nat \<times> nat) list \<Rightarrow> nat \<Rightarrow> solver \<Rightarrow> bool" where
  "vert_inv board ns cl a s \<longleftrightarrow> sv_root s = 0 \<and> sv_inout s = board \<and> sv_stack s = [] \<and> curr_node s = a \<and> sv_columns s = columns_of ns
     \<and> (\<forall>d\<in>{1..<Suc (length ns)}. ring (nd_down (sv_nodes s)) (nd_up (sv_nodes s)) d (filter (\<lambda>n. node_head ns cl n = d) [Suc (length ns)..<a]))
     \<and> (\<forall>n\<in>{Suc (length ns)..<a}. nd_col (sv_nodes s) n = node_head ns cl n \<and> nd_name (sv_nodes s) n = node_name ns cl n)"

definition horiz_inv :: "nat list \<Rightarrow> nat \<Rightarrow> nodes \<Rightarrow> bool" where
  "horiz_inv ns a t \<longleftrightarrow> ring (nd_right t) (nd_left t) 0 [1..<Suc (length ns)]
     \<and> (\<forall>n\<in>{Suc (length ns)..<a}. chain (nd_right t) n (node_mates ns n) n \<and> chain (nd_left t) n (rev (node_mates ns n)) n)"

lemma columns_of_Some:
  assumes "n \<in> set ns"
  shows "\<exists>d\<in>{1..<Suc (length ns)}. columns_of ns n = Some d"
proof -
  have "n \<in> dom (columns_of ns)" using assms by (simp add: columns_of_def dom_map_of_zip del: upt_Suc)
  then obtain d where d: "columns_of ns n = Some d" by auto
  then have "(n, d) \<in> set (zip ns [1..<Suc (length ns)])" by (simp add: columns_of_def map_of_SomeD del: upt_Suc)
  then show ?thesis using d by (auto dest: set_zip_rightD simp del: upt_Suc)
qed

lemma put_up_links:
  assumes "y \<noteq> h"
  shows "nd_down (put_up h y s) = (nd_down s)(y := h, nd_up s h := y)" "nd_up (put_up h y s) = (nd_up s)(y := nd_up s h, h := y)"
    "nd_col (put_up h y s) = (nd_col s)(y := h)" "nd_name (put_up h y s) = nd_name s" "nd_left (put_up h y s) = nd_left s"
    "nd_right (put_up h y s) = nd_right s"
  using assms by (auto simp: put_up_def Let_def)

lemma new_row_inv:
  assumes "vert_inv board ns cl a s" and "Suc (length ns) \<le> a" and "node_name ns cl a \<in> set ns" and "node_name ns cl a < 400" and "a < kMaxNodes"
  shows "\<exists>s'. new_row (node_name ns cl a) s = Inr (a, s') \<and> vert_inv board ns cl (Suc a) s'
    \<and> nd_right (sv_nodes s') = (nd_right (sv_nodes s))(a := a) \<and> nd_left (sv_nodes s') = (nd_left (sv_nodes s))(a := a)"
proof -
  let ?b = "Suc (length ns)" and ?nm = "node_name ns cl a" and ?t = "sv_nodes s"
  let ?V = "\<lambda>a d. filter (\<lambda>n. node_head ns cl n = d) [Suc (length ns)..<a]"
  note inv = assms(1) [unfolded vert_inv_def]
  from columns_of_Some [OF assms(3)] obtain c where c: "columns_of ns ?nm = Some c" "c \<in> {1..<?b}" by blast
  have head: "node_head ns cl a = c" by (simp add: node_head_def c(1))
  define u where "u = (reset_node a ?nm ?t)\<lparr>nd_col := (nd_col (reset_node a ?nm ?t))(a := c)\<rparr>"
  define t where "t = put_up c a u"
  have ac: "a \<noteq> c" using c(2) assms(2) by auto
  note up = put_up_links [OF ac, of u, folded t_def]
  have fresh: "a \<notin> set (d # ?V a d)" if "d \<in> {1..<?b}" for d using that assms(2) by auto
  have before: "ring (nd_down u) (nd_up u) d (?V a d)" if "d \<in> {1..<?b}" for d
    using inv fresh [OF that] that by (simp add: u_def ring_other)
  have near: "nd_up u c \<in> set (c # ?V a c)"
  proof -
    have "nd_up u c = last (c # ?V a c)"
      using before [OF c(2)] chain_first [of "nd_up u" c "rev (?V a c)" c] by (simp only: ring_def last_rev_hd)
    then show ?thesis using last_in_set [of "c # ?V a c"] by simp
  qed
  have after: "ring (nd_down t) (nd_up t) d (?V (Suc a) d)" if d: "d \<in> {1..<?b}" for d
  proof (cases "d = c")
    case True
    then show ?thesis using ring_append [OF before [OF d] fresh [OF d]] assms(2) by (simp add: up head)
  next
    case False
    have "nd_up u c \<notin> set (d # ?V a d)" "c \<notin> set (d # ?V a d)" using near c(2) d False by auto
    then have "ring (nd_down t) (nd_up t) d (?V a d)" using before [OF d] fresh [OF d] by (simp add: up ring_other)
    then show ?thesis using False assms(2) by (simp add: head)
  qed
  have new: "new_row ?nm s = Inr (a, s\<lparr>curr_node := Suc a, sv_nodes := t\<rparr>)"
    using inv c assms(4,5) by (simp add: new_row_def assertr_def Let_def t_def u_def)
  have "nd_col t n = node_head ns cl n \<and> nd_name t n = node_name ns cl n" if "n \<in> {?b..<Suc a}" for n
    using inv that head by (cases "n = a") (auto simp: up u_def)
  with after inv have "vert_inv board ns cl (Suc a) (s\<lparr>curr_node := Suc a, sv_nodes := t\<rparr>)" by (simp add: vert_inv_def)
  moreover have "nd_right t = (nd_right ?t)(a := a)" "nd_left t = (nd_left ?t)(a := a)" by (simp_all add: up u_def)
  ultimately show ?thesis using new by simp
qed

text \<open>A chain only reads the pointers of its nodes.\<close>

lemma chain_cong: "(\<And>x. x \<in> set (a # xs) \<Longrightarrow> f x = g x) \<Longrightarrow> chain f a xs b = chain g a xs b"
  by (induction xs arbitrary: a) auto

lemma ring_cong:
  assumes "\<And>x. x \<in> set (h # xs) \<Longrightarrow> f x = f' x \<and> g x = g' x"
  shows "ring f g h xs = ring f' g' h xs"
proof -
  have "chain f h xs h = chain f' h xs h" by (rule chain_cong) (use assms in simp)
  moreover have "chain g h (rev xs) h = chain g' h (rev xs) h" by (rule chain_cong) (use assms in auto)
  ultimately show ?thesis by (simp add: ring_def)
qed

lemma mates:
  assumes "a = Suc (length ns) + 4 * k"
  shows "node_mates ns a = [Suc a, Suc (Suc a), Suc (Suc (Suc a))]" "node_mates ns (Suc a) = [Suc (Suc a), Suc (Suc (Suc a)), a]"
    "node_mates ns (Suc (Suc a)) = [Suc (Suc (Suc a)), a, Suc a]" "node_mates ns (Suc (Suc (Suc a))) = [a, Suc a, Suc (Suc a)]"
  by (simp_all add: node_mates_def Let_def assms mod_Suc)

lemma row_cases:
  assumes "n \<in> {a..<a + 4}"
  obtains "n = a" | "n = Suc a" | "n = Suc (Suc a)" | "n = Suc (Suc (Suc a))"
proof -
  have "n = a \<or> n = Suc a \<or> n = Suc (Suc a) \<or> n = Suc (Suc (Suc a))" using assms by auto
  then show thesis using that by blast
qed

lemma ring_row:
  assumes "ring r l a [Suc a, Suc (Suc a), Suc (Suc (Suc a))]" and "a = Suc (length ns) + 4 * k" and "n \<in> {a..<a + 4}"
  shows "chain r n (node_mates ns n) n \<and> chain l n (rev (node_mates ns n)) n"
  using assms(3,1) mates [OF assms(2)] by (cases rule: row_cases) (simp_all add: ring_def)

lemma node_row:
  assumes "n \<in> {Suc (length ns)..<Suc (length ns) + 4 * K}"
  obtains k where "k < K" "n \<in> {Suc (length ns) + 4 * k..<Suc (length ns) + 4 * k + 4}"
proof -
  obtain m where m: "n = Suc (length ns) + m" "m < 4 * K" using assms by (auto simp: le_iff_add)
  have "m = 4 * (m div 4) + m mod 4" "m mod 4 < 4" "m div 4 < K" using m(2) by auto
  then have "4 * (m div 4) \<le> m" "m < 4 * (m div 4) + 4" by linarith+
  with m(1) \<open>m div 4 < K\<close> that [of "m div 4"] show thesis by auto
qed

lemma mates_row:
  assumes "a = Suc (length ns) + 4 * k" and "n \<in> {a..<a + 4}"
  shows "insert n (set (node_mates ns n)) = {a..<a + 4}" "n \<notin> set (node_mates ns n)" "distinct (node_mates ns n)"
proof -
  have four: "{a..<a + 4} = {a, Suc a, Suc (Suc a), Suc (Suc (Suc a))}" by auto
  show "insert n (set (node_mates ns n)) = {a..<a + 4}"
    using assms(2) mates [OF assms(1)] by (cases rule: row_cases) (auto simp: four)
  show "n \<notin> set (node_mates ns n)" "distinct (node_mates ns n)"
    using assms(2) mates [OF assms(1)] by (cases rule: row_cases; simp)+
qed

lemma mates_below:
  assumes "n \<in> {Suc (length ns)..<Suc (length ns) + 4 * K}"
  shows "set (node_mates ns n) \<subseteq> {Suc (length ns)..<Suc (length ns) + 4 * K}"
proof -
  from assms obtain k where k: "k < K" "n \<in> {Suc (length ns) + 4 * k..<Suc (length ns) + 4 * k + 4}" by (rule node_row)
  then have "set (node_mates ns n) \<subseteq> {Suc (length ns) + 4 * k..<Suc (length ns) + 4 * k + 4}" using mates_row(1) [OF refl k(2)] by blast
  with k(1) show ?thesis by auto
qed

text \<open>Linking the four nodes of a choice.\<close>

definition link_row :: "nat \<Rightarrow> nodes \<Rightarrow> nodes" where
  "link_row a t = put_left a (Suc (Suc (Suc a))) (put_left a (Suc (Suc a)) (put_left a (Suc a) t))"

lemma link_row_ok:
  assumes "\<And>x. x \<in> {a..<a + 4} \<Longrightarrow> nd_right t x = x \<and> nd_left t x = x"
  shows "ring (nd_right (link_row a t)) (nd_left (link_row a t)) a [Suc a, Suc (Suc a), Suc (Suc (Suc a))]"
    "\<And>x. x \<notin> {a..<a + 4} \<Longrightarrow> nd_right (link_row a t) x = nd_right t x \<and> nd_left (link_row a t) x = nd_left t x"
proof -
  let ?t1 = "put_left a (Suc a) t" let ?t2 = "put_left a (Suc (Suc a)) ?t1"
  have r0: "ring (nd_right t) (nd_left t) a []" using assms by (simp add: ring_def)
  have r1: "ring (nd_right ?t1) (nd_left ?t1) a [Suc a]" using put_left_ring(1) [OF r0] by simp
  have r2: "ring (nd_right ?t2) (nd_left ?t2) a [Suc a, Suc (Suc a)]" using put_left_ring(1) [OF r1] by simp
  show "ring (nd_right (link_row a t)) (nd_left (link_row a t)) a [Suc a, Suc (Suc a), Suc (Suc (Suc a))]"
    using put_left_ring(1) [OF r2] by (simp add: link_row_def)
  show "nd_right (link_row a t) x = nd_right t x \<and> nd_left (link_row a t) x = nd_left t x" if "x \<notin> {a..<a + 4}" for x
  proof -
    have "x \<noteq> a" "x \<noteq> Suc a" "x \<noteq> Suc (Suc a)" "x \<noteq> Suc (Suc (Suc a))" using that by auto
    then show ?thesis
      using put_left_ring(2) [OF r2, of "Suc (Suc (Suc a))" x] put_left_ring(2) [OF r1, of "Suc (Suc a)" x] put_left_ring(2) [OF r0, of "Suc a" x]
      by (simp add: link_row_def)
  qed
qed

lemma link_row_fields [simp]:
  "nd_up (link_row a t) = nd_up t" "nd_down (link_row a t) = nd_down t" "nd_col (link_row a t) = nd_col t" "nd_name (link_row a t) = nd_name t"
  by (simp_all add: link_row_def)

lemma horiz_inv_link:
  assumes "horiz_inv ns a t" and "a = Suc (length ns) + 4 * k"
    and "nd_right u = (nd_right t)(a := a, Suc a := Suc a, Suc (Suc a) := Suc (Suc a), Suc (Suc (Suc a)) := Suc (Suc (Suc a)))"
    and "nd_left u = (nd_left t)(a := a, Suc a := Suc a, Suc (Suc a) := Suc (Suc a), Suc (Suc (Suc a)) := Suc (Suc (Suc a)))"
  shows "horiz_inv ns (a + 4) (link_row a u)"
proof -
  have self: "nd_right u x = x \<and> nd_left u x = x" if "x \<in> {a..<a + 4}" for x
  proof -
    from that show ?thesis by (cases rule: row_cases) (simp_all add: assms(3,4))
  qed
  note row = ring_row [OF link_row_ok(1) [OF self] assms(2)]
  have other: "nd_right (link_row a u) x = nd_right t x \<and> nd_left (link_row a u) x = nd_left t x" if "x < a" for x
    using link_row_ok(2) [of a u x, OF self] that by (auto simp: assms(3,4))
  have "ring (nd_right (link_row a u)) (nd_left (link_row a u)) 0 [1..<Suc (length ns)] = ring (nd_right t) (nd_left t) 0 [1..<Suc (length ns)]"
    by (rule ring_cong, rule other) (auto simp: assms(2) simp del: upt_Suc)
  moreover have "chain (nd_right (link_row a u)) n (node_mates ns n) n \<and> chain (nd_left (link_row a u)) n (rev (node_mates ns n)) n"
    if n: "n \<in> {Suc (length ns)..<a + 4}" for n
  proof (cases "n < a")
    case True
    then have "x < a" if "x \<in> set (n # node_mates ns n)" for x using mates_below [of n ns k] n that by (auto simp: assms(2))
    with other have "chain (nd_right (link_row a u)) n (node_mates ns n) n = chain (nd_right t) n (node_mates ns n) n"
      "chain (nd_left (link_row a u)) n (rev (node_mates ns n)) n = chain (nd_left t) n (rev (node_mates ns n)) n"
      by (intro chain_cong; simp)+
    then show ?thesis using assms(1) n True by (simp add: horiz_inv_def)
  qed (use row n in auto)
  ultimately show ?thesis using assms(1) by (simp add: horiz_inv_def)
qed

lemma append_choice_inv:
  assumes "vert_inv board ns cl a s" and "horiz_inv ns a (sv_nodes s)" and "a = Suc (length ns) + 4 * k" and "k < length cl"
    and "\<And>n. n \<in> set (choice_names (cl ! k)) \<Longrightarrow> n \<in> set ns \<and> n < 400" and "a + 4 \<le> kMaxNodes"
  shows "\<exists>s'. append_choice s (cl ! k) = Inr s' \<and> vert_inv board ns cl (a + 4) s' \<and> horiz_inv ns (a + 4) (sv_nodes s')"
proof -
  obtain i v where iv: "cl ! k = (i, v)" by (cases "cl ! k")
  have nm: "node_name ns cl a = i" "node_name ns cl (Suc a) = get_row_col (row_of i) v" "node_name ns cl (Suc (Suc a)) = get_col_col (col_of i) v"
    "node_name ns cl (Suc (Suc (Suc a))) = get_box_col (box_of i) v"
    by (simp_all add: node_name_def assms(3) iv choice_names_def Let_def div_Suc mod_Suc)
  have ok: "i \<in> set ns \<and> i < 400" "get_row_col (row_of i) v \<in> set ns \<and> get_row_col (row_of i) v < 400"
    "get_col_col (col_of i) v \<in> set ns \<and> get_col_col (col_of i) v < 400" "get_box_col (box_of i) v \<in> set ns \<and> get_box_col (box_of i) v < 400"
    using assms(5) by (simp_all add: iv choice_names_def)
  from new_row_inv [OF assms(1)] ok(1) nm(1) assms(3,6) obtain s1 where s1: "new_row i s = Inr (a, s1)" "vert_inv board ns cl (Suc a) s1"
    "nd_right (sv_nodes s1) = (nd_right (sv_nodes s))(a := a)" "nd_left (sv_nodes s1) = (nd_left (sv_nodes s))(a := a)" by auto
  from new_row_inv [OF s1(2)] ok(2) nm(2) assms(3,6) obtain s2 where
    s2: "new_row (get_row_col (row_of i) v) s1 = Inr (Suc a, s2)" "vert_inv board ns cl (Suc (Suc a)) s2"
    "nd_right (sv_nodes s2) = (nd_right (sv_nodes s1))(Suc a := Suc a)" "nd_left (sv_nodes s2) = (nd_left (sv_nodes s1))(Suc a := Suc a)" by auto
  from new_row_inv [OF s2(2)] ok(3) nm(3) assms(3,6) obtain s3 where
    s3: "new_row (get_col_col (col_of i) v) s2 = Inr (Suc (Suc a), s3)" "vert_inv board ns cl (Suc (Suc (Suc a))) s3"
    "nd_right (sv_nodes s3) = (nd_right (sv_nodes s2))(Suc (Suc a) := Suc (Suc a))"
    "nd_left (sv_nodes s3) = (nd_left (sv_nodes s2))(Suc (Suc a) := Suc (Suc a))" by auto
  from new_row_inv [OF s3(2)] ok(4) nm(4) assms(3,6) obtain s4 where
    s4: "new_row (get_box_col (box_of i) v) s3 = Inr (Suc (Suc (Suc a)), s4)" "vert_inv board ns cl (Suc (Suc (Suc (Suc a)))) s4"
    "nd_right (sv_nodes s4) = (nd_right (sv_nodes s3))(Suc (Suc (Suc a)) := Suc (Suc (Suc a)))"
    "nd_left (sv_nodes s4) = (nd_left (sv_nodes s3))(Suc (Suc (Suc a)) := Suc (Suc (Suc a)))" by auto
  let ?s = "s4\<lparr>sv_nodes := link_row a (sv_nodes s4)\<rparr>"
  have "append_choice s (cl ! k) = Inr ?s" by (simp add: append_choice_def iv s1(1) s2(1) s3(1) s4(1) link_row_def)
  moreover have "a + 4 = Suc (Suc (Suc (Suc a)))" by simp
  then have "vert_inv board ns cl (a + 4) ?s" using s4(2) by (simp only: vert_inv_def) simp
  moreover have "horiz_inv ns (a + 4) (sv_nodes ?s)"
    using horiz_inv_link [OF assms(2,3), of "sv_nodes s4"] s1(3,4) s2(3,4) s3(3,4) s4(3,4) by simp
  ultimately show ?thesis by blast
qed

lemma append_choices_inv:
  assumes "vert_inv board ns cl (Suc (length ns)) s" and "horiz_inv ns (Suc (length ns)) (sv_nodes s)"
    and "\<And>iv n. iv \<in> set cl \<Longrightarrow> n \<in> set (choice_names iv) \<Longrightarrow> n \<in> set ns \<and> n < 400" and "Suc (length ns) + 4 * length cl \<le> kMaxNodes"
    and "k \<le> length cl"
  shows "\<exists>s'. foldr_result append_choice s (take k cl) = Inr s' \<and> vert_inv board ns cl (Suc (length ns) + 4 * k) s'
    \<and> horiz_inv ns (Suc (length ns) + 4 * k) (sv_nodes s')"
  using assms(5)
proof (induction k)
  case (Suc k)
  then obtain s' where s': "foldr_result append_choice s (take k cl) = Inr s'" "vert_inv board ns cl (Suc (length ns) + 4 * k) s'"
    "horiz_inv ns (Suc (length ns) + 4 * k) (sv_nodes s')" by auto
  from append_choice_inv [OF s'(2,3) refl] assms(3) [of "cl ! k"] assms(4) Suc.prems obtain s'' where
    "append_choice s' (cl ! k) = Inr s''" "vert_inv board ns cl (Suc (length ns) + 4 * k + 4) s''" "horiz_inv ns (Suc (length ns) + 4 * k + 4) (sv_nodes s'')"
    by auto
  with s'(1) Suc.prems show ?case by (auto simp: take_Suc_conv_app_nth foldr_result_append add.commute add.left_commute)
qed (use assms in simp)

section \<open>The columns and choices of a board\<close>

lemmas col_consts = get_row_col_def get_col_col_def get_box_col_def kRow_def kCol_def kBox_def

lemma set_unit_names:
  "nm \<in> set (unit_names board (i, v)) \<longleftrightarrow> nm = get_row_col i v \<and> \<not> given board row_of (i, v)
     \<or> nm = get_col_col i v \<and> \<not> given board col_of (i, v) \<or> nm = get_box_col i v \<and> \<not> given board box_of (i, v)"
  by (auto simp: unit_names_def)

lemma set_names:
  "nm \<in> set (names board) \<longleftrightarrow> nm < kCells \<and> board ! nm = 0 \<or> (\<exists>i v. i < 9 \<and> 1 \<le> v \<and> v < 10 \<and> nm \<in> set (unit_names board (i, v)))"
  by (auto simp: names_def)

lemma set_choices: "(i, v) \<in> set (choices board) \<longleftrightarrow> i < kCells \<and> board ! i = 0 \<and> 1 \<le> v \<and> v < 10 \<and> free board i v"
  by (auto simp: choices_def)

lemma units_below: "i < kCells \<Longrightarrow> row_of i < 9 \<and> col_of i < 9 \<and> box_of i < 9"
proof -
  assume "i < kCells"
  then have "i div 9 < 9" by (simp add: kCells_def less_mult_imp_div_less)
  moreover have "i mod 9 < 9" by simp
  ultimately have "i div 9 div 3 \<le> 2" "i mod 9 div 3 \<le> 2" by linarith+
  with \<open>i div 9 < 9\<close> show ?thesis by (simp add: row_of_def col_of_def box_of_def)
qed

lemma digit_pair:
  assumes "(v :: nat) < 10" and "w < 10"
  shows "i * 10 + v = j * 10 + w \<longleftrightarrow> i = j \<and> v = w"
proof
  assume eq: "i * 10 + v = j * 10 + w"
  have "i = (i * 10 + v) div 10" "j = (j * 10 + w) div 10" using assms by simp_all
  with eq have "i = j" by simp
  with eq show "i = j \<and> v = w" by simp
qed simp

lemma distinct_names: "distinct (names board)"
proof -
  have "distinct (unit_names board iv)" for iv by (cases iv) (auto simp: unit_names_def col_consts)
  moreover have "set (unit_names board p) \<inter> set (unit_names board q) = {}"
    if "p \<in> set (List.product [0..<9] [1..<10])" "q \<in> set (List.product [0..<9] [1..<10])" "p \<noteq> q" for p q
  proof -
    obtain i v j w where pq: "p = (i, v)" "q = (j, w)" by (cases p; cases q)
    then have b: "i < 9" "v < 10" "j < 9" "w < 10" "i \<noteq> j \<or> v \<noteq> w" using that by auto
    then have "i * 10 + v \<noteq> j * 10 + w" using digit_pair by metis
    then show ?thesis using b by (auto simp: pq set_unit_names col_consts)
  qed
  moreover have "distinct (List.product [0..<9] [1..<10::nat] :: (nat \<times> nat) list)" by (intro distinct_product) simp_all
  ultimately have "distinct (concat (map (unit_names board) (List.product [0..<9] [1..<10])))" by (intro distinct_concat_map)
  then show ?thesis by (auto simp: names_def set_unit_names col_consts kCells_def)
qed

lemma length_concat_le: "(\<And>x. length (f x) \<le> k) \<Longrightarrow> length (concat (map f xs)) \<le> k * length xs"
  by (induction xs) (simp_all add: add_mono)

lemma length_names: "length (names board) \<le> 324"
proof -
  have "length (concat (map (unit_names board) (List.product [0..<9] [1..<10]))) \<le> 3 * length (List.product [0..<9] [1..<10::nat] :: (nat \<times> nat) list)"
    by (rule length_concat_le) (auto simp: unit_names_def)
  moreover have "length (filter (\<lambda>i. board ! i = 0) [0..<kCells]) \<le> 81" using length_filter_le [of _ "[0..<kCells]"] by (simp add: kCells_def)
  ultimately show ?thesis by (simp add: names_def length_product)
qed

lemma length_choices: "length (choices board) \<le> 729"
proof -
  have "length (choices board) \<le> 9 * length (filter (\<lambda>i. board ! i = 0) [0..<kCells])"
    unfolding choices_def by (rule length_concat_le) (use length_filter_le [of _ "[1..<10]"] in force)
  also have "\<dots> \<le> 9 * 81" using length_filter_le [of _ "[0..<kCells]"] by (simp add: kCells_def)
  finally show ?thesis by simp
qed

lemma choice_names_below: "iv \<in> set (choices board) \<Longrightarrow> n \<in> set (choice_names iv) \<Longrightarrow> n \<in> set (names board) \<and> n < 400"
proof (cases iv)
  case (Pair i v)
  assume "iv \<in> set (choices board)" and n: "n \<in> set (choice_names iv)"
  then have iv: "i < kCells" "board ! i = 0" "1 \<le> v" "v < 10" "free board i v" by (simp_all add: Pair set_choices)
  note u = units_below [OF iv(1)]
  have "n < 400" using n u iv(1,4) by (auto simp: Pair choice_names_def col_consts kCells_def)
  moreover have "n \<in> set (names board)"
    using n iv u unfolding set_names by (auto simp: Pair choice_names_def set_unit_names free_def)
  ultimately show ?thesis by simp
qed

lemma choice_names_distinct: "iv \<in> set (choices board) \<Longrightarrow> distinct (choice_names iv)"
proof (cases iv)
  case (Pair i v)
  assume "iv \<in> set (choices board)"
  then have iv: "i < kCells" "v < 10" by (simp_all add: Pair set_choices)
  then show ?thesis using units_below [OF iv(1)] by (auto simp: Pair choice_names_def col_consts kCells_def)
qed

section \<open>The matrix of a board\<close>

definition first_node :: "int list \<Rightarrow> nat" where
  "first_node board = Suc (length (names board))"

definition row_nodes :: "int list \<Rightarrow> nat set" where
  "row_nodes board = {first_node board..<first_node board + 4 * length (choices board)}"

definition headers :: "int list \<Rightarrow> nat set" where
  "headers board = {1..<first_node board}"

definition head_of :: "int list \<Rightarrow> nat \<Rightarrow> nat" where
  "head_of board = node_head (names board) (choices board)"

definition mates_of :: "int list \<Rightarrow> nat \<Rightarrow> nat list" where
  "mates_of board = node_mates (names board)"

definition column_of :: "int list \<Rightarrow> nat \<Rightarrow> nat list" where
  "column_of board d = filter (\<lambda>n. head_of board n = d) [first_node board..<first_node board + 4 * length (choices board)]"

lemma columns_of_inj:
  assumes "distinct ns" and "columns_of ns m = Some d" and "columns_of ns n = Some d"
  shows "m = n"
proof -
  have "(m, d) \<in> set (zip ns [1..<Suc (length ns)])" "(n, d) \<in> set (zip ns [1..<Suc (length ns)])"
    using assms(2,3) unfolding columns_of_def by (auto dest: map_of_SomeD simp del: upt_Suc)
  then obtain i j where "i < length ns" "ns ! i = m" "j < length ns" "ns ! j = n" "Suc i = d" "Suc j = d"
    by (auto simp: in_set_zip simp del: upt_Suc)
  then show ?thesis by blast
qed

text \<open>The four nodes of the choice number \<open>k\<close>.\<close>

definition nodes_at :: "int list \<Rightarrow> nat \<Rightarrow> nat set" where
  "nodes_at board k = {first_node board + 4 * k..<first_node board + 4 * k + 4}"

lemma row_nodes_at:
  assumes "n \<in> row_nodes board"
  obtains k where "k < length (choices board)" "n \<in> nodes_at board k"
  using assms node_row [of n "names board" "length (choices board)"] unfolding row_nodes_def first_node_def nodes_at_def by blast

lemma nodes_at_row:
  assumes "n \<in> nodes_at board k"
  shows "insert n (set (mates_of board n)) = nodes_at board k" "n \<notin> set (mates_of board n)" "distinct (mates_of board n)"
  using mates_row [OF refl, of n "names board" k] assms by (simp_all add: nodes_at_def first_node_def mates_of_def)

lemma nodes_at_sub: "k < length (choices board) \<Longrightarrow> nodes_at board k \<subseteq> row_nodes board"
  by (auto simp: nodes_at_def row_nodes_def)

lemma node_name_at:
  assumes "q < 4"
  shows "node_name (names board) (choices board) (first_node board + 4 * k + q) = choice_names (choices board ! k) ! q"
  using assms by (simp add: node_name_def first_node_def Let_def)

lemma head_of_name:
  assumes "n \<in> row_nodes board"
  shows "columns_of (names board) (node_name (names board) (choices board) n) = Some (head_of board n)" "head_of board n \<in> headers board"
proof -
  from assms obtain k where k: "k < length (choices board)" "n \<in> nodes_at board k" by (rule row_nodes_at)
  define q where "q = n - (first_node board + 4 * k)"
  have q: "n = first_node board + 4 * k + q" "q < 4" using k(2) by (auto simp: nodes_at_def q_def)
  have "length (choice_names (choices board ! k)) = 4" by (simp add: choice_names_def split: prod.splits)
  then have "node_name (names board) (choices board) n \<in> set (choice_names (choices board ! k))" using node_name_at [OF q(2), of board k] q by simp
  then have "node_name (names board) (choices board) n \<in> set (names board)" using choice_names_below k(1) by (meson nth_mem)
  from columns_of_Some [OF this] show "columns_of (names board) (node_name (names board) (choices board) n) = Some (head_of board n)"
    "head_of board n \<in> headers board" by (auto simp: head_of_def node_head_def headers_def first_node_def)
qed

lemma head_of_inj:
  assumes "k < length (choices board)"
  shows "inj_on (head_of board) (nodes_at board k)"
proof (rule inj_onI)
  fix m n assume mn: "m \<in> nodes_at board k" "n \<in> nodes_at board k" "head_of board m = head_of board n"
  define p q where "p = m - (first_node board + 4 * k)" and "q = n - (first_node board + 4 * k)"
  have m: "m = first_node board + 4 * k + p" "p < 4" and n: "n = first_node board + 4 * k + q" "q < 4"
    using mn by (auto simp: nodes_at_def p_def q_def)
  have "node_name (names board) (choices board) m = node_name (names board) (choices board) n"
    using columns_of_inj [OF distinct_names] head_of_name(1) nodes_at_sub [OF assms] mn by (metis subsetD)
  then have "choice_names (choices board ! k) ! p = choice_names (choices board ! k) ! q"
    using node_name_at [OF m(2), of board k] node_name_at [OF n(2), of board k] by (simp only: m(1) n(1))
  moreover have "distinct (choice_names (choices board ! k))" "length (choice_names (choices board ! k)) = 4"
    using choice_names_distinct [of "choices board ! k" board] assms by (auto simp: choice_names_def split: prod.splits)
  ultimately have "p = q" using nth_eq_iff_index_eq m(2) n(2) by metis
  then show "m = n" using m(1) n(1) by simp
qed

interpretation sudoku: dancing_links 0 "row_nodes board" "headers board" "head_of board" "mates_of board" "column_of board" for board
proof
  fix n assume n: "n \<in> row_nodes board"
  then obtain k where k: "k < length (choices board)" "n \<in> nodes_at board k" by (rule row_nodes_at)
  note r = nodes_at_row [OF k(2)]
  show "head_of board n \<in> headers board" by (rule head_of_name(2) [OF n])
  show "n \<notin> set (mates_of board n) \<and> distinct (mates_of board n) \<and> set (mates_of board n) \<subseteq> row_nodes board
      \<and> inj_on (head_of board) (insert n (set (mates_of board n)))"
    using r nodes_at_sub [OF k(1)] head_of_inj [OF k(1)] by auto
  show "insert j (set (mates_of board j)) = insert n (set (mates_of board n))" if "j \<in> set (mates_of board n)" for j
    using r(1) nodes_at_row(1) [of j board k] that by blast
next
  show "row_nodes board \<inter> headers board = {}" "0 \<notin> headers board" "0 \<notin> row_nodes board"
    by (auto simp: row_nodes_def headers_def first_node_def)
  show "distinct (column_of board d) \<and> set (column_of board d) = {n \<in> row_nodes board. head_of board n = d}" for d
    by (auto simp: column_of_def row_nodes_def)
qed

section \<open>The constructor builds the matrix\<close>

definition choice_of :: "int list \<Rightarrow> nat \<Rightarrow> nat \<times> nat" where
  "choice_of board n = choices board ! ((n - first_node board) div 4)"

lemma choice_of_at: "n \<in> nodes_at board k \<Longrightarrow> choice_of board n = choices board ! k"
proof -
  assume n: "n \<in> nodes_at board k"
  define q where "q = n - (first_node board + 4 * k)"
  have "n - first_node board = 4 * k + q" "q < 4" using n by (auto simp: nodes_at_def q_def)
  then show ?thesis by (simp add: choice_of_def)
qed

lemma read_choice_step:
  "nd_name u n < 100 \<Longrightarrow> cell = -1 \<or> val = -1 \<Longrightarrow> read_choice u n cell val = read_choice u (nd_right u n) (int (nd_name u n)) val"
  "\<not> nd_name u n < 100 \<Longrightarrow> cell = -1 \<or> val = -1 \<Longrightarrow> read_choice u n cell val = read_choice u (nd_right u n) cell (int (nd_name u n mod 10))"
  "cell \<noteq> -1 \<Longrightarrow> val \<noteq> -1 \<Longrightarrow> read_choice u n cell val = Some (cell, val)"
  by (subst read_choice.simps, simp)+

text \<open>From any of its four nodes, the loop of \<open>solve\<close> reads a choice off its row.\<close>

lemma read_choice_at:
  assumes "k < length (choices board)" and "n \<in> nodes_at board k" and "choices board ! k = (i, v)"
    and "\<And>m. m \<in> row_nodes board \<Longrightarrow> nd_name u m = node_name (names board) (choices board) m \<and> chain (nd_right u) m (mates_of board m) m"
  shows "read_choice u n (-1) (-1) = Some (int i, int v)"
proof -
  let ?a = "first_node board + 4 * k"
  let ?b = "Suc ?a" let ?c = "Suc ?b" let ?d = "Suc ?c"
  have "(i, v) \<in> set (choices board)" using assms(1,3) nth_mem by metis
  then have iv: "i < 81" "v < 10" by (simp_all add: set_choices kCells_def)
  have in_row: "m \<in> row_nodes board" if "m \<in> nodes_at board k" for m using nodes_at_sub [OF assms(1)] that by auto
  have at: "?a \<in> nodes_at board k" "?b \<in> nodes_at board k" "?c \<in> nodes_at board k" "?d \<in> nodes_at board k" by (simp_all add: nodes_at_def)
  have "chain (nd_right u) ?a (mates_of board ?a) ?a" using assms(4) in_row at(1) by blast
  then have r: "nd_right u ?a = ?b" "nd_right u ?b = ?c" "nd_right u ?c = ?d" "nd_right u ?d = ?a"
    using mates(1) [of ?a "names board" k] by (simp_all add: mates_of_def first_node_def)
  have nm: "nd_name u (?a + q) = choice_names (i, v) ! q" if "q < 4" for q
  proof -
    have "?a + q \<in> row_nodes board" using in_row that by (simp add: nodes_at_def)
    then show ?thesis using assms(3,4) node_name_at [OF that, of board k] by metis
  qed
  have names: "nd_name u ?a = i" "nd_name u ?b = get_row_col (row_of i) v" "nd_name u ?c = get_col_col (col_of i) v" "nd_name u ?d = get_box_col (box_of i) v"
    using nm [of 0] nm [of 1] nm [of 2] nm [of 3] by (simp_all add: choice_names_def eval_nat_numeral)
  have digit: "get_row_col (row_of i) v mod 10 = v" "get_col_col (col_of i) v mod 10 = v" "get_box_col (box_of i) v mod 10 = v"
  proof -
    have ten: "(m * 10 + v) mod 10 = v" for m using iv(2) by simp
    show "get_row_col (row_of i) v mod 10 = v" using ten [of "10 + row_of i"] by (simp add: col_consts algebra_simps)
    show "get_col_col (col_of i) v mod 10 = v" using ten [of "20 + col_of i"] by (simp add: col_consts algebra_simps)
    show "get_box_col (box_of i) v mod 10 = v" using ten [of "30 + box_of i"] by (simp add: col_consts algebra_simps)
  qed
  have big: "\<not> get_row_col (row_of i) v < 100" "\<not> get_col_col (col_of i) v < 100" "\<not> get_box_col (box_of i) v < 100" by (simp_all add: col_consts)
  note step = read_choice_step names r digit big
  have small: "i < 100" using iv(1) by simp
  from assms(2) [unfolded nodes_at_def] show ?thesis
    by (cases rule: row_cases) (simp_all add: step small)
qed

lemma new_solver_ready:
  assumes "\<And>i. i < kCells \<Longrightarrow> 0 \<le> board ! i \<and> board ! i \<le> 9"
  shows "\<exists>s. SudokuSolver_new junk board = Inr s \<and> sudoku.ready board s [1..<first_node board] \<and> sv_stack s = [] \<and> sv_inout s = board
    \<and> (\<forall>n\<in>row_nodes board. nd_name (sv_nodes s) n = node_name (names board) (choices board) n)"
proof -
  let ?s = "\<lparr>sv_root = 0, sv_inout = board, sv_columns = Map.empty, sv_stack = [], sv_nodes = reset_node 0 0 junk, curr_node = 1\<rparr>"
  have "cols_inv board [] ?s" by (simp add: cols_inv_def columns_of_def ring_def)
  moreover have "length (names board) < kMaxNodes" using length_names [of board] by (simp add: kMaxNodes_def)
  moreover have "n < 400" if "n \<in> set (names board)" for n using that by (auto simp: set_names set_unit_names col_consts kCells_def)
  ultimately obtain s1 where s1: "foldr_result append_column ?s (names board) = Inr s1" "cols_inv board (names board) s1"
    using append_columns [of board "[]" ?s "names board"] distinct_names by auto
  have "vert_inv board (names board) (choices board) (Suc (length (names board))) s1" "horiz_inv (names board) (Suc (length (names board))) (sv_nodes s1)"
    using s1(2) by (simp_all add: vert_inv_def horiz_inv_def cols_inv_def del: upt_Suc)
  moreover have "Suc (length (names board)) + 4 * length (choices board) \<le> kMaxNodes"
    using length_names [of board] length_choices [of board] by (simp add: kMaxNodes_def)
  ultimately obtain s where s: "foldr_result append_choice s1 (choices board) = Inr s"
    "vert_inv board (names board) (choices board) (first_node board + 4 * length (choices board)) s"
    "horiz_inv (names board) (first_node board + 4 * length (choices board)) (sv_nodes s)"
    using append_choices_inv [of board "names board" "choices board" s1 "length (choices board)"] choice_names_below [of _ board]
    unfolding first_node_def by auto
  have live: "sudoku.live board [1..<first_node board] d = column_of board d" for d
  proof -
    have "sudoku.cols board n \<subseteq> set [1..<first_node board]" if "n \<in> set (column_of board d)" for n
      using that sudoku.header sudoku.row unfolding sudoku.cols_def by (fastforce simp: column_of_def row_nodes_def headers_def)
    then show ?thesis by (simp add: sudoku.live_def filter_id_conv)
  qed
  have "sudoku.linked board (sv_nodes s) [1..<first_node board]"
    using s(2,3) unfolding sudoku.linked_def live
    by (auto simp: vert_inv_def horiz_inv_def headers_def column_of_def row_nodes_def head_of_def mates_of_def first_node_def simp del: upt_Suc)
  moreover have nm: "\<forall>n\<in>row_nodes board. nd_name (sv_nodes s) n = node_name (names board) (choices board) n"
    using s(2) by (auto simp: vert_inv_def row_nodes_def first_node_def)
  have "sudoku.readable board (nd_name (sv_nodes s))"
    unfolding sudoku.readable_def
  proof (intro allI impI)
    fix u :: nodes and n assume u: "nd_name u = nd_name (sv_nodes s)" "\<forall>n\<in>row_nodes board. chain (nd_right u) n (mates_of board n) n" "n \<in> row_nodes board"
    from u(3) obtain k where "k < length (choices board)" "n \<in> nodes_at board k" by (rule row_nodes_at)
    from read_choice_at [OF this] nm u(1,2) show "read_choice u n (-1) (-1) \<noteq> None" by (cases "choices board ! k") auto
  qed
  ultimately have "sudoku.ready board s [1..<first_node board]" using s(2) by (simp add: sudoku.ready_def vert_inv_def)
  then show ?thesis using SudokuSolver_new_steps [OF assms, of junk] s1(1) s(1,2) nm by (simp add: vert_inv_def)
qed

section \<open>Exact covers by names\<close>

definition hdr :: "int list \<Rightarrow> nat \<Rightarrow> nat" where
  "hdr board nm = the (columns_of (names board) nm)"

definition constraints :: "int list \<Rightarrow> nat \<Rightarrow> nat set" where
  "constraints board n = set (choice_names (choice_of board n))"

lemma hdr_nth: "j < length (names board) \<Longrightarrow> hdr board (names board ! j) = Suc j"
  using map_of_zip_nth [of "names board" "[1..<Suc (length (names board))]" j] distinct_names by (simp add: hdr_def columns_of_def del: upt_Suc)

lemma hdr_headers: "hdr board ` set (names board) = headers board"
proof -
  have "hdr board ` set (names board) = (\<lambda>j. hdr board (names board ! j)) ` {..<length (names board)}" by (auto simp: set_conv_nth)
  also have "\<dots> = Suc ` {..<length (names board)}" by (rule image_cong) (simp_all add: hdr_nth)
  also have "\<dots> = headers board" by (simp add: headers_def first_node_def lessThan_atLeast0 image_Suc_atLeastLessThan)
  finally show ?thesis .
qed

lemma hdr_inj: "inj_on (hdr board) (set (names board))"
proof (rule inj_onI)
  fix m n assume mn: "m \<in> set (names board)" "n \<in> set (names board)" "hdr board m = hdr board n"
  with columns_of_Some [OF mn(1)] columns_of_Some [OF mn(2)] show "m = n" using columns_of_inj [OF distinct_names] by (fastforce simp: hdr_def)
qed

lemma constraints_names: "n \<in> row_nodes board \<Longrightarrow> constraints board n \<subseteq> set (names board)"
  by (erule row_nodes_at) (metis choice_names_below choice_of_at constraints_def nth_mem subsetI)

lemma cols_constraints:
  assumes "n \<in> row_nodes board"
  shows "sudoku.cols board n = hdr board ` constraints board n"
proof -
  let ?nm = "node_name (names board) (choices board)"
  from assms obtain k where k: "k < length (choices board)" "n \<in> nodes_at board k" by (rule row_nodes_at)
  have l: "length (choice_names (choices board ! k)) = 4" by (simp add: choice_names_def split: prod.splits)
  have "nodes_at board k = (\<lambda>q. first_node board + 4 * k + q) ` {..<4}" by (simp add: nodes_at_def lessThan_atLeast0 add.commute)
  then have "?nm ` nodes_at board k = (\<lambda>q. ?nm (first_node board + 4 * k + q)) ` {..<4}" by (simp add: image_image)
  also have "\<dots> = (\<lambda>q. choice_names (choices board ! k) ! q) ` {..<4}" by (rule image_cong) (simp_all add: node_name_at)
  also have "\<dots> = constraints board n" using l by (auto simp: constraints_def choice_of_at [OF k(2)] set_conv_nth)
  finally have "?nm ` nodes_at board k = constraints board n" .
  moreover have "sudoku.cols board n = (\<lambda>m. hdr board (?nm m)) ` nodes_at board k"
    unfolding sudoku.cols_def nodes_at_row(1) [OF k(2)] by (simp add: head_of_def node_head_def hdr_def)
  ultimately show ?thesis by (metis image_image)
qed

lemma exact_cover_names:
  "sudoku.exact_cover board (headers board) sol \<longleftrightarrow> set sol \<subseteq> row_nodes board
     \<and> sorted_wrt (\<lambda>a b. constraints board a \<inter> constraints board b = {}) sol \<and> \<Union> (constraints board ` set sol) = set (names board)"
proof (cases "set sol \<subseteq> row_nodes board")
  case True
  let ?h = "hdr board"
  have disj: "sudoku.cols board a \<inter> sudoku.cols board b = {} \<longleftrightarrow> constraints board a \<inter> constraints board b = {}"
    if "a \<in> set sol" "b \<in> set sol" for a b
  proof -
    have "a \<in> row_nodes board" "b \<in> row_nodes board" using that True by auto
    then show ?thesis
      using inj_on_image_Int [OF hdr_inj constraints_names constraints_names, of a board b]
      by (metis cols_constraints image_is_empty)
  qed
  have "sorted_wrt (\<lambda>a b. sudoku.cols board a \<inter> sudoku.cols board b = {}) sol \<longleftrightarrow> sorted_wrt (\<lambda>a b. constraints board a \<inter> constraints board b = {}) sol"
    using disj by (auto elim!: sorted_wrt_mono_rel [rotated])
  moreover have "\<Union> (sudoku.cols board ` set sol) = ?h ` \<Union> (constraints board ` set sol)"
  proof -
    have "sudoku.cols board ` set sol = (\<lambda>n. ?h ` constraints board n) ` set sol" by (rule image_cong) (use True cols_constraints in auto)
    then show ?thesis by (simp add: image_UN)
  qed
  moreover have "\<Union> (constraints board ` set sol) \<subseteq> set (names board)" using True constraints_names by blast
  then have "?h ` \<Union> (constraints board ` set sol) = ?h ` set (names board) \<longleftrightarrow> \<Union> (constraints board ` set sol) = set (names board)"
    by (rule inj_on_image_eq_iff [OF hdr_inj _ subset_refl])
  ultimately show ?thesis using True hdr_headers by (simp add: sudoku.exact_cover_def)
qed (simp add: sudoku.exact_cover_def)

section \<open>Boards\<close>

text \<open>A full board in which every row, column and box holds every digit.\<close>

definition solved :: "int list \<Rightarrow> bool" where
  "solved b \<longleftrightarrow> length b = kCells \<and> (\<forall>i<kCells. 1 \<le> b ! i \<and> b ! i \<le> 9)
     \<and> (\<forall>u<9. \<forall>v\<in>{1..9 :: nat}. (\<exists>i<kCells. row_of i = u \<and> b ! i = int v) \<and> (\<exists>i<kCells. col_of i = u \<and> b ! i = int v)
          \<and> (\<exists>i<kCells. box_of i = u \<and> b ! i = int v))"

definition completes :: "int list \<Rightarrow> int list \<Rightarrow> bool" where
  "completes board b \<longleftrightarrow> (\<forall>i<kCells. board ! i \<noteq> 0 \<longrightarrow> b ! i = board ! i)"

text \<open>What the search writes to the board.\<close>

definition fill :: "int list \<Rightarrow> nat list \<Rightarrow> int list \<Rightarrow> int list" where
  "fill board sol b = foldl (\<lambda>b n. b[fst (choice_of board n) := int (snd (choice_of board n))]) b sol"

lemma length_fill [simp]: "length (fill board sol b) = length b"
  by (induction sol arbitrary: b) (simp_all add: fill_def)

lemma fill_other: "(\<And>n. n \<in> set sol \<Longrightarrow> fst (choice_of board n) \<noteq> i) \<Longrightarrow> fill board sol b ! i = b ! i"
  by (induction sol arbitrary: b) (simp_all add: fill_def)

lemma fill_at:
  assumes "n \<in> set sol" and "choice_of board n = (i, v)" and "i < length b" and "sorted_wrt (\<lambda>a b. fst (choice_of board a) \<noteq> fst (choice_of board b)) sol"
  shows "fill board sol b ! i = int v"
  using assms
proof (induction sol arbitrary: b)
  case (Cons m sol)
  show ?case
  proof (cases "m = n")
    case True
    then have "fill board sol (b[i := int v]) ! i = b[i := int v] ! i" using Cons.prems by (intro fill_other) auto
    then show ?thesis using True Cons.prems by (simp add: fill_def)
  next
    case False
    then show ?thesis using Cons.IH [of "b[fst (choice_of board m) := int (snd (choice_of board m))]"] Cons.prems by (simp add: fill_def)
  qed
qed simp

lemma write_solution_fill:
  assumes "set sol \<subseteq> row_nodes board"
    and "\<And>m. m \<in> row_nodes board \<Longrightarrow> nd_name u m = node_name (names board) (choices board) m \<and> chain (nd_right u) m (mates_of board m) m"
  shows "write_solution u sol b = Some (fill board sol b)"
  using assms(1)
proof (induction sol arbitrary: b)
  case (Cons n sol)
  then have n: "n \<in> row_nodes board" by simp
  then obtain k where k: "k < length (choices board)" "n \<in> nodes_at board k" by (rule row_nodes_at)
  obtain i v where iv: "choices board ! k = (i, v)" by (cases "choices board ! k")
  have "read_choice u n (-1) (-1) = Some (int i, int v)" by (rule read_choice_at [OF k iv assms(2)])
  with Cons show ?case by (simp add: fill_def choice_of_at [OF k(2)] iv)
qed (simp add: fill_def)

text \<open>A choice is a legal entry of an empty cell, and each constraint it satisfies names it.\<close>

lemma choice_of_row:
  assumes "n \<in> row_nodes board"
  obtains i v where "choice_of board n = (i, v)" "(i, v) \<in> set (choices board)"
    "constraints board n = {i, get_row_col (row_of i) v, get_col_col (col_of i) v, get_box_col (box_of i) v}"
proof -
  from assms obtain k where k: "k < length (choices board)" "n \<in> nodes_at board k" by (rule row_nodes_at)
  obtain i v where iv: "choices board ! k = (i, v)" by (cases "choices board ! k")
  show thesis
    using that [of i v] iv nth_mem [OF k(1)] by (simp add: choice_of_at [OF k(2)] constraints_def choice_names_def)
qed

lemma choice_node:
  assumes "(i, v) \<in> set (choices board)"
  obtains n where "n \<in> row_nodes board" "choice_of board n = (i, v)"
    "constraints board n = {i, get_row_col (row_of i) v, get_col_col (col_of i) v, get_box_col (box_of i) v}"
proof -
  from assms obtain k where k: "k < length (choices board)" "choices board ! k = (i, v)" by (auto simp: in_set_conv_nth)
  have n: "first_node board + 4 * k \<in> nodes_at board k" by (simp add: nodes_at_def)
  with that [of "first_node board + 4 * k"] k nodes_at_sub [OF k(1)] show thesis
    by (auto simp: constraints_def choice_of_at [OF n] choice_names_def)
qed

lemma exact_cover_solves:
  assumes "sudoku.exact_cover board (headers board) sol" and "length board = kCells" and "\<And>i. i < kCells \<Longrightarrow> 0 \<le> board ! i \<and> board ! i \<le> 9"
  shows "solved (fill board sol board) \<and> completes board (fill board sol board)"
proof -
  let ?b = "fill board sol board"
  have sub: "set sol \<subseteq> row_nodes board" and disj: "sorted_wrt (\<lambda>a b. constraints board a \<inter> constraints board b = {}) sol"
    and all: "\<Union> (constraints board ` set sol) = set (names board)" using assms(1) by (simp_all add: exact_cover_names)
  have "sorted_wrt (\<lambda>a b. fst (choice_of board a) \<noteq> fst (choice_of board b)) sol"
  proof (rule sorted_wrt_mono_rel [OF _ disj])
    fix a b assume "a \<in> set sol" "b \<in> set sol" "constraints board a \<inter> constraints board b = {}"
    moreover from this have "a \<in> row_nodes board" "b \<in> row_nodes board" using sub by auto
    ultimately show "fst (choice_of board a) \<noteq> fst (choice_of board b)" by (elim choice_of_row) auto
  qed
  note cell = fill_at [OF _ _ _ this]
  have entry: "\<exists>i v. i < kCells \<and> board ! i = 0 \<and> 1 \<le> v \<and> v < 10 \<and> ?b ! i = int v
      \<and> nm \<in> {i, get_row_col (row_of i) v, get_col_col (col_of i) v, get_box_col (box_of i) v}" if nm: "nm \<in> set (names board)" for nm
  proof -
    from nm all obtain n where n: "n \<in> set sol" "nm \<in> constraints board n" by blast
    with sub have "n \<in> row_nodes board" by auto
    then obtain i v where iv: "choice_of board n = (i, v)" "(i, v) \<in> set (choices board)"
      "constraints board n = {i, get_row_col (row_of i) v, get_col_col (col_of i) v, get_box_col (box_of i) v}" by (rule choice_of_row)
    then have "?b ! i = int v" using cell [OF n(1) iv(1), of board] by (simp add: set_choices assms(2))
    with iv n(2) show ?thesis unfolding set_choices by blast
  qed
  have keep: "?b ! i = board ! i" if "board ! i \<noteq> 0" for i
  proof (rule fill_other)
    fix n assume "n \<in> set sol"
    with sub have "n \<in> row_nodes board" by auto
    then show "fst (choice_of board n) \<noteq> i" using that by (elim choice_of_row) (auto simp: set_choices)
  qed
  have range: "1 \<le> ?b ! i \<and> ?b ! i \<le> 9" if "i < kCells" for i
  proof (cases "board ! i = 0")
    case True
    then have "i \<in> set (names board)" using that by (simp add: set_names)
    from entry [OF this] that show ?thesis by (auto simp: col_consts kCells_def)
  next
    case False
    then show ?thesis using assms(3) [OF that] keep by force
  qed
  have hit: "\<exists>i<kCells. unit i = u \<and> ?b ! i = int v" if uv: "u < 9" "v \<in> {1..9}" and unit: "(unit, name) \<in> {(row_of, get_row_col), (col_of, get_col_col), (box_of, get_box_col)}"
    for unit name u v
  proof (cases "given board unit (u, v)")
    case True
    then show ?thesis using uv(2) keep by (auto simp: given_def)
  next
    case False
    then have "name u v \<in> set (unit_names board (u, v))" using unit by (auto simp: set_unit_names)
    then have "name u v \<in> set (names board)" unfolding set_names using uv by (intro disjI2 exI [of _ u] exI [of _ v]) auto
    from entry [OF this] obtain i w where iw: "i < kCells" "w < 10" "?b ! i = int w"
      "name u v \<in> {i, get_row_col (row_of i) w, get_col_col (col_of i) w, get_box_col (box_of i) w}" by blast
    have "unit i = u \<and> w = v"
      using iw unit uv units_below [OF iw(1)] digit_pair [of v w] by (auto simp: col_consts kCells_def)
    with iw show ?thesis by blast
  qed
  have "solved ?b"
    unfolding solved_def using range hit [of _ _ row_of get_row_col] hit [of _ _ col_of get_col_col] hit [of _ _ box_of get_box_col] assms(2) by simp
  then show ?thesis using keep by (simp add: completes_def)
qed

text \<open>In a solved board no unit holds a digit twice: it has nine cells and nine digits.\<close>

lemma unit_sizes:
  "\<forall>u\<in>set [0..<9]. length (filter (\<lambda>i. i div 9 = u) [0..<81]) = 9 \<and> length (filter (\<lambda>i. i mod 9 = u) [0..<81]) = 9
     \<and> length (filter (\<lambda>i. i div 9 div 3 * 3 + i mod 9 div 3 = u) [0..<81]) = 9"
  by code_simp

lemma card_unit:
  assumes "u < 9" and "unit \<in> {row_of, col_of, box_of}"
  shows "card {i. i < kCells \<and> unit i = u} = 9"
proof -
  have "{i. i < kCells \<and> unit i = u} = set (filter (\<lambda>i. unit i = u) [0..<81])" by (auto simp: kCells_def)
  then have "card {i. i < kCells \<and> unit i = u} = length (filter (\<lambda>i. unit i = u) [0..<81])" by (simp only: distinct_card distinct_filter distinct_upt)
  also have "\<dots> = 9" using assms unit_sizes unfolding row_of_def [abs_def] col_of_def [abs_def] box_of_def [abs_def] by fastforce
  finally show ?thesis .
qed

lemma solved_hit: "solved b \<Longrightarrow> unit \<in> {row_of, col_of, box_of} \<Longrightarrow> u < 9 \<Longrightarrow> v \<in> {1..9} \<Longrightarrow> \<exists>i<kCells. unit i = u \<and> b ! i = int v"
  unfolding solved_def by blast

lemma solved_inj:
  assumes "solved b" and "unit \<in> {row_of, col_of, box_of}" and "i < kCells" and "j < kCells" and "unit i = unit j" and "b ! i = b ! j"
  shows "i = j"
proof -
  let ?S = "{k. k < kCells \<and> unit k = unit i}"
  have u: "unit i < 9" using units_below [OF assms(3)] assms(2) by auto
  have "int v \<in> (!) b ` ?S" if "v \<in> {1..9}" for v using solved_hit [OF assms(1,2) u that] by (auto intro: rev_image_eqI)
  then have "int ` {1..9} \<subseteq> (!) b ` ?S" by blast
  moreover have "(!) b ` ?S \<subseteq> int ` {1..9}"
  proof
    fix x assume "x \<in> (!) b ` ?S"
    then have "1 \<le> x \<and> x \<le> 9" using assms(1) by (auto simp: solved_def)
    then show "x \<in> int ` {1..9}" by (intro image_eqI [of _ _ "nat x"]) auto
  qed
  ultimately have "(!) b ` ?S = int ` {1..9}" by blast
  then have "card ((!) b ` ?S) = card ?S" using card_unit [OF u assms(2)] by (simp add: card_image)
  then have "inj_on ((!) b) ?S" by (intro eq_card_imp_inj_on) simp_all
  then show ?thesis using assms(3-6) by (auto dest: inj_onD)
qed

lemma completion_choice:
  assumes "solved b" and "completes board b" and "i < kCells" and "board ! i = 0"
  shows "(i, nat (b ! i)) \<in> set (choices board)"
proof -
  have b: "1 \<le> b ! i" "b ! i \<le> 9" using assms(1,3) by (simp_all add: solved_def)
  have "\<not> given board unit (unit i, nat (b ! i))" if unit: "unit \<in> {row_of, col_of, box_of}" for unit
  proof
    assume "given board unit (unit i, nat (b ! i))"
    then obtain j where j: "j < kCells" "unit j = unit i" "board ! j = b ! i" using b(1) by (auto simp: given_def)
    then have "b ! j = b ! i" using assms(2) b(1) by (auto simp: completes_def)
    with solved_inj [OF assms(1) unit j(1) assms(3) j(2)] have "j = i" by simp
    with j(3) assms(4) b(1) show False by simp
  qed
  from this [of row_of] this [of col_of] this [of box_of] have "free board i (nat (b ! i))" by (simp add: free_def)
  then show ?thesis using assms(3,4) b by (auto simp: set_choices)
qed

lemma completion_exact_cover:
  assumes "solved b" and "completes board b"
  shows "\<exists>sol. sudoku.exact_cover board (headers board) sol"
proof -
  let ?es = "filter (\<lambda>i. board ! i = 0) [0..<kCells]"
  let ?set = "\<lambda>i. {i, get_row_col (row_of i) (nat (b ! i)), get_col_col (col_of i) (nat (b ! i)), get_box_col (box_of i) (nat (b ! i))}"
  have "\<forall>i\<in>set ?es. \<exists>n. n \<in> row_nodes board \<and> constraints board n = ?set i"
  proof
    fix i assume "i \<in> set ?es"
    then have "(i, nat (b ! i)) \<in> set (choices board)" using completion_choice [OF assms] by simp
    then show "\<exists>n. n \<in> row_nodes board \<and> constraints board n = ?set i" by (rule choice_node) blast
  qed
  from bchoice [OF this] obtain node where "\<forall>i\<in>set ?es. node i \<in> row_nodes board \<and> constraints board (node i) = ?set i" ..
  then have node: "node i \<in> row_nodes board \<and> constraints board (node i) = ?set i" if "i \<in> set ?es" for i using that by (rule bspec)
  have digit: "nat (b ! i) < 10 \<and> 1 \<le> b ! i" if "i < kCells" for i using assms(1) that by (auto simp: solved_def)
  have "sorted_wrt (\<lambda>i j. constraints board (node i) \<inter> constraints board (node j) = {}) ?es"
  proof (rule sorted_wrt_mono_rel)
    show "sorted_wrt (<) ?es" by (intro sorted_wrt_filter sorted_wrt_upt)
    fix i j assume ij: "i \<in> set ?es" "j \<in> set ?es" "i < j"
    then have k: "i < kCells" "j < kCells" by auto
    have no: "\<not> (unit i * 10 + nat (b ! i) = unit j * 10 + nat (b ! j))" if "unit \<in> {row_of, col_of, box_of}" for unit
      using solved_inj [OF assms(1) that k] digit [OF k(1)] digit [OF k(2)] digit_pair ij(3) by (auto simp: eq_nat_nat_iff)
    show "constraints board (node i) \<inter> constraints board (node j) = {}"
      using node [OF ij(1)] node [OF ij(2)] no [of row_of] no [of col_of] no [of box_of] ij(3) k digit [OF k(1)] digit [OF k(2)]
        units_below [OF k(1)] units_below [OF k(2)] by (auto simp: col_consts kCells_def)
  qed
  moreover have "nm \<in> \<Union> (constraints board ` node ` set ?es)" if nm: "nm \<in> set (names board)" for nm
  proof -
    have found: "\<exists>i\<in>set ?es. unit i = u \<and> nat (b ! i) = v" if "u < 9" "1 \<le> v" "v < 10" "\<not> given board unit (u, v)" "unit \<in> {row_of, col_of, box_of}" for u v unit
    proof -
      from solved_hit [OF assms(1) that(5,1), of v] that(2,3) obtain i where i: "i < kCells" "unit i = u" "b ! i = int v" by auto
      then have "board ! i = 0" using assms(2) that(4) by (force simp: completes_def given_def)
      with i show ?thesis by auto
    qed
    have "\<exists>i\<in>set ?es. nm \<in> ?set i" using nm unfolding set_names
    proof (elim disjE exE conjE)
      fix u v assume uv: "u < 9" "1 \<le> v" "v < 10" and "nm \<in> set (unit_names board (u, v))"
      then show ?thesis unfolding set_unit_names using found [OF uv, of row_of] found [OF uv, of col_of] found [OF uv, of box_of] by auto
    qed auto
    with node show ?thesis by auto
  qed
  moreover have "set (map node ?es) \<subseteq> row_nodes board" using node by auto
  moreover from this have "\<Union> (constraints board ` set (map node ?es)) \<subseteq> set (names board)" using constraints_names by blast
  ultimately have "sudoku.exact_cover board (headers board) (map node ?es)" unfolding exact_cover_names by (auto simp: sorted_wrt_map)
  then show ?thesis by blast
qed

section \<open>Text\<close>

lemma signed_digit: "0 \<le> signed_char c - 48 \<and> signed_char c - 48 \<le> 9 \<longleftrightarrow> c \<in> set ''0123456789''"
proof
  assume d: "0 \<le> signed_char c - 48 \<and> signed_char c - 48 \<le> 9"
  define k where "k = (of_char c :: nat)"
  have "k < 256" unfolding k_def by (rule nat_of_char_less_256)
  moreover have "signed_char c = (if int k < 128 then int k else int k - 256)" by (simp add: signed_char_def k_def Let_def)
  ultimately have "48 \<le> k" "k \<le> 57" using d by (auto split: if_splits)
  then have "k = 48 \<or> k = 49 \<or> k = 50 \<or> k = 51 \<or> k = 52 \<or> k = 53 \<or> k = 54 \<or> k = 55 \<or> k = 56 \<or> k = 57" by presburger
  then have "k \<in> of_char ` set ''0123456789''" by simp
  then show "c \<in> set ''0123456789''" unfolding k_def by (simp only: inj_image_mem_iff [OF inj_of_char])
qed (auto simp: signed_char_def)

lemma digits_board:
  assumes "length puzzle = kCells"
  shows "list_all (\<lambda>b. 0 \<le> b \<and> b \<le> 9) (board_of puzzle) \<longleftrightarrow> set puzzle \<subseteq> set ''0123456789''"
proof -
  have "set puzzle = (!) puzzle ` {..<kCells}" using assms by (auto simp: set_conv_nth)
  moreover have "list_all (\<lambda>b. 0 \<le> b \<and> b \<le> 9) (board_of puzzle) \<longleftrightarrow> (\<forall>i<kCells. puzzle ! i \<in> set ''0123456789'')"
  proof -
    have "list_all P (map f xs) \<longleftrightarrow> (\<forall>x\<in>set xs. P (f x))" for P :: "int \<Rightarrow> bool" and f :: "nat \<Rightarrow> int" and xs by (simp add: list_all_iff)
    then show ?thesis unfolding board_of_def by (simp only: signed_digit set_upt) (auto simp del: set_simps)
  qed
  ultimately show ?thesis by auto
qed

lemma solve_board:
  assumes "length board = kCells" and "\<And>i. i < kCells \<Longrightarrow> 0 \<le> board ! i \<and> board ! i \<le> 9"
  shows "\<exists>s ok s'. SudokuSolver_new junk board = Inr s \<and> solve Solve s = Some (ok, s')
    \<and> (if ok then solved (sv_inout s') \<and> completes board (sv_inout s') else \<nexists>b. solved b \<and> completes board b)"
proof -
  from new_solver_ready [OF assms(2), of junk] obtain s where s: "SudokuSolver_new junk board = Inr s" "sudoku.ready board s [1..<first_node board]"
    "sv_stack s = []" "sv_inout s = board" "\<forall>n\<in>row_nodes board. nd_name (sv_nodes s) n = node_name (names board) (choices board) n" by auto
  have C: "set [1..<first_node board] = headers board" by (auto simp: headers_def)
  from sudoku.solve_answers [OF s(2)] obtain ok s' where r: "solve Solve s = Some (ok, s')" and
    ok: "if ok then \<exists>sol t. sudoku.exact_cover board (headers board) sol \<and> sudoku.linked board t [] \<and> nd_name t = nd_name (sv_nodes s)
              \<and> write_solution t (sv_stack s @ sol) (sv_inout s) = Some (sv_inout s')
      else s' = s \<and> (\<nexists>sol. sudoku.exact_cover board (headers board) sol)"
    unfolding sudoku.answers_def C by blast
  show ?thesis
  proof (cases ok)
    case True
    with ok obtain sol t where sol: "sudoku.exact_cover board (headers board) sol" "sudoku.linked board t []" "nd_name t = nd_name (sv_nodes s)"
      "write_solution t sol board = Some (sv_inout s')" by (auto simp: s(3,4))
    have "write_solution t sol board = Some (fill board sol board)"
      by (rule write_solution_fill) (use sol s(5) in \<open>auto simp: sudoku.linked_def sudoku.exact_cover_def\<close>)
    with sol(4) exact_cover_solves [OF sol(1) assms] show ?thesis using s(1) r True by auto
  next
    case False
    then show ?thesis using s(1) r ok completion_exact_cover by auto
  qed
qed

text \<open>The answer a puzzle deserves.\<close>

definition answer_ok :: "string \<Rightarrow> string \<Rightarrow> bool" where
  "answer_ok puzzle result \<longleftrightarrow>
     (if set puzzle \<subseteq> set ''0123456789'' \<and> (\<exists>b. solved b \<and> completes (board_of puzzle) b)
      then \<exists>b. solved b \<and> completes (board_of puzzle) b \<and> result = map (\<lambda>d. char_of (nat (d + 48))) b
      else result = ''NoSolution'')"

lemma SolveSudoku_returns:
  assumes "length puzzle = kCells"
  shows "\<exists>result. SolveSudoku junk puzzle = Some (Inr result) \<and> answer_ok puzzle result"
proof (cases "set puzzle \<subseteq> set ''0123456789''")
  case True
  then have all: "list_all (\<lambda>b. 0 \<le> b \<and> b \<le> 9) (board_of puzzle)" using digits_board [OF assms] by simp
  have "length (board_of puzzle) = kCells" by (simp add: board_of_def)
  with all have "0 \<le> board_of puzzle ! i \<and> board_of puzzle ! i \<le> 9" if "i < kCells" for i using that by (simp add: list_all_length)
  from solve_board [OF \<open>length (board_of puzzle) = kCells\<close> this, of junk] obtain s ok s' where
    r: "SudokuSolver_new junk (board_of puzzle) = Inr s" "solve Solve s = Some (ok, s')"
      "if ok then solved (sv_inout s') \<and> completes (board_of puzzle) (sv_inout s') else \<nexists>b. solved b \<and> completes (board_of puzzle) b" by blast
  then have "SolveSudoku junk puzzle = Some (Inr (if ok then map (\<lambda>d. char_of (nat (d + 48))) (sv_inout s') else kNoSolution))"
    using assms all by (simp add: SolveSudoku_def Let_def)
  with r(3) True show ?thesis by (cases ok) (auto simp: kNoSolution_def answer_ok_def)
next
  case False
  then have "SolveSudoku junk puzzle = Some (Inr ''NoSolution'')"
    using assms digits_board [OF assms] by (simp add: SolveSudoku_def Let_def kNoSolution_def)
  with False show ?thesis by (auto simp: answer_ok_def)
qed

section \<open>Properties\<close>

text \<open>
  Property C15. \<open>SolveSudoku\<close> is correct: on every text of 81 characters it returns, without a failed assertion, an access outside its arrays or an endless
  loop. If the characters are digits and the puzzle can be completed, the result is a completion: the given digits are kept and every row, column
  and box holds every digit. Otherwise the result is \<open>NoSolution\<close>. The previous contents of the node array do not matter.
\<close>

theorem SolveSudoku_correct:
  assumes "length puzzle = kCells"
  shows "\<exists>result. SolveSudoku junk puzzle = Some (Inr result)
    \<and> (if set puzzle \<subseteq> set ''0123456789'' \<and> (\<exists>b. solved b \<and> completes (board_of puzzle) b)
        then \<exists>b. solved b \<and> completes (board_of puzzle) b \<and> result = map (\<lambda>d. char_of (nat (d + 48))) b
        else result = ''NoSolution'')"
  using SolveSudoku_returns [OF assms, of junk] unfolding answer_ok_def .

text \<open>A puzzle and its solution.\<close>

definition example_puzzle :: string where
  "example_puzzle = ''530070000600195000098000060800060003400803001700020006060000280000419005000080079''"

definition example_board :: "int list" where
  "example_board = [5, 3, 4, 6, 7, 8, 9, 1, 2, 6, 7, 2, 1, 9, 5, 3, 4, 8, 1, 9, 8, 3, 4, 2, 5, 6, 7, 8, 5, 9, 7, 6, 1, 4, 2, 3, 4, 2, 6, 8, 5, 3, 7, 9, 1, 7, 1, 3, 9, 2, 4, 8, 5, 6, 9, 6, 1, 5, 3, 7, 2, 8, 4, 2, 8, 7, 4, 1, 9, 6, 3, 5, 3, 4, 5, 2, 8, 6, 1, 7, 9]"

definition unit_full :: "(nat \<Rightarrow> nat) \<Rightarrow> int list \<Rightarrow> bool" where
  "unit_full unit b \<longleftrightarrow> list_all (\<lambda>u. let ds = map snd (filter (\<lambda>(i, d). unit i = u) (zip [0..<81] b))
     in list_all (\<lambda>v. v \<in> set ds) [1, 2, 3, 4, 5, 6, 7, 8, 9]) [0..<9]"

lemma unit_full_hit:
  assumes "unit_full unit b" and "length b = kCells" and "u < 9" and "v \<in> {1..9 :: nat}"
  shows "\<exists>i<kCells. unit i = u \<and> b ! i = int v"
proof -
  have "int v \<in> set [1, 2, 3, 4, 5, 6, 7, 8, 9]" using assms(4) by auto
  then have "int v \<in> set (map snd (filter (\<lambda>(i, d). unit i = u) (zip [0..<81] b)))"
    using assms(1,3) unfolding unit_full_def Let_def list_all_iff by (metis atLeast0LessThan lessThan_iff set_upt)
  then show ?thesis using assms(2) by (auto simp: set_zip kCells_def)
qed

lemma example_units: "unit_full (\<lambda>i. i div 9) example_board" "unit_full (\<lambda>i. i mod 9) example_board" "unit_full (\<lambda>i. i div 9 div 3 * 3 + i mod 9 div 3) example_board"
  by code_simp+

lemma example_solved: "solved example_board"
proof -
  have len: "length example_board = kCells" by (simp add: example_board_def kCells_def)
  have "list_all (\<lambda>d. 1 \<le> d \<and> d \<le> 9) example_board" by (simp add: example_board_def)
  moreover have "unit_full row_of example_board" "unit_full col_of example_board" "unit_full box_of example_board"
    using example_units by (simp_all add: row_of_def [abs_def] col_of_def [abs_def] box_of_def [abs_def])
  ultimately show ?thesis using unit_full_hit [OF _ len] len by (simp add: solved_def list_all_length)
qed

lemma example_completes: "completes (board_of example_puzzle) example_board"
proof -
  have "list_all2 (\<lambda>c d. signed_char c - 48 \<noteq> 0 \<longrightarrow> d = signed_char c - 48) example_puzzle example_board"
    by (simp add: example_puzzle_def example_board_def signed_char_def)
  then show ?thesis by (auto simp: completes_def board_of_def kCells_def list_all2_conv_all_nth example_puzzle_def)
qed

theorem SolveSudoku_correct_witness:
  "\<exists>b. solved b \<and> completes (board_of example_puzzle) b
     \<and> SolveSudoku \<lparr>nd_left = id, nd_right = id, nd_up = id, nd_down = id, nd_col = id, nd_name = id, nd_size = (\<lambda>_. 0)\<rparr> example_puzzle
         = Some (Inr (map (\<lambda>d. char_of (nat (d + 48))) b))"
proof -
  have "length example_puzzle = kCells" "set example_puzzle \<subseteq> set ''0123456789''" by (simp_all add: example_puzzle_def kCells_def)
  with SolveSudoku_correct [OF this(1)] example_solved example_completes show ?thesis by metis
qed

end
