(* ===== verification/Sudoku_Server.thy ===== *)
theory Sudoku_Server
  imports Tcp_Connection Sudoku_Correct Http_Context
begin

text \<open>
  \<open>examples/sudoku/server_*.cc\<close>: five servers for the solver with one line protocol. They share the loop of \<open>OnMessage\<close> over the request lines
  and differ in what \<open>ProcessRequest\<close> does with a request: solve it at once (\<open>server_basic\<close>, \<open>server_multiloop\<close>), hand it to a thread pool
  (\<open>server_threadpool\<close>), ask for an id if the pool has several threads (\<open>server_hybrid\<close>), and refuse it under load (\<open>server_prod\<close>).
  The calls a handler makes on its connection are collected in order, and so are the tasks it gives to the pool.
\<close>

section \<open>Sessions\<close>

datatype srv_call =
    Srv_Send string
  | Srv_Shutdown
  | Srv_SetTcpNoDelay
  | Srv_SetHighWatermark nat
  | Srv_SetWriteComplete bool     \<comment> \<open>\<open>False\<close> is the empty callback\<close>

record session =
  ss_calls :: "srv_call list"
  ss_tasks :: "(string \<times> string) list"     \<comment> \<open>id and puzzle of the requests in the pool\<close>
  ss_throttle :: "bool option"              \<comment> \<open>the context\<close>

definition new_session :: session where
  "new_session = \<lparr>ss_calls = [], ss_tasks = [], ss_throttle = None\<rparr>"

definition call :: "srv_call list \<Rightarrow> session \<Rightarrow> session" where
  "call cs s = s\<lparr>ss_calls := ss_calls s @ cs\<rparr>"

section \<open>Requests\<close>

definition split_request :: "string \<Rightarrow> (string \<times> string) option" where
  "split_request request =
     (if CHR '':'' \<in> set request
      then Some (takeWhile (\<lambda>c. c \<noteq> CHR '':'') request, tl (dropWhile (\<lambda>c. c \<noteq> CHR '':'') request)) else None)"

definition reply :: "string \<Rightarrow> string \<Rightarrow> string" where
  "reply i result = (if i = '''' then result @ kCRLF else i @ '':'' @ result @ kCRLF)"

text \<open>
  The inner part of \<open>ProcessRequest\<close> where there is no pool, which is also what \<open>Solve\<close> does when \<open>RunTask\<close> of a pool without
  threads runs it at once: the reply is sent from the loop's own thread.
\<close>

definition Solve_request :: "nodes \<Rightarrow> string \<times> string \<Rightarrow> session \<Rightarrow> session result option" where
  "Solve_request junk req s =
     map_option (\<lambda>r. bindr r (\<lambda>result. Inr (call [Srv_Send (reply (fst req) result)] s))) (SolveSudoku junk (snd req))"

text \<open>
  \<open>Solve\<close> in a worker thread of the pool: the reply is a temporary string, at some free address \<open>p\<close> until the call of \<open>Send\<close> returns,
  and \<open>Send\<close> is called outside of the loop's thread.
\<close>

definition Solve_worker :: "'p poll_op \<Rightarrow> (string \<Rightarrow> int + nat) \<Rightarrow> ptr \<Rightarrow> nodes \<Rightarrow> string \<times> string \<Rightarrow> 'p tcp_connection
    \<Rightarrow> 'p tcp_connection result option" where
  "Solve_worker update write_fd p junk req c =
     map_option (\<lambda>r. bindr r (\<lambda>result. Send_data update write_fd False p (reply (fst req) result) c)) (SolveSudoku junk (snd req))"

text \<open>\<open>ThreadPool::RunTask\<close> without a bound on the queue: with no threads the task runs at once.\<close>

definition RunTask_solve :: "nodes \<Rightarrow> nat \<Rightarrow> string \<times> string \<Rightarrow> session \<Rightarrow> session result option" where
  "RunTask_solve junk num_threads req s =
     (if num_threads = 0 then Solve_request junk req s else Some (Inr (s\<lparr>ss_tasks := ss_tasks s @ [req]\<rparr>)))"

definition accepted :: "session result option \<Rightarrow> (bool \<times> session) result option" where
  "accepted r = map_option (\<lambda>r. bindr r (\<lambda>s. Inr (True, s))) r"

definition ProcessRequest_basic :: "nodes \<Rightarrow> string \<Rightarrow> session \<Rightarrow> (bool \<times> session) result option" where
  "ProcessRequest_basic junk request s =
     (let req = (case split_request request of Some r \<Rightarrow> r | None \<Rightarrow> ('''', request))
      in if length (snd req) = kCells then accepted (Solve_request junk req s) else Some (Inr (False, s)))"

definition ProcessRequest_threadpool :: "nodes \<Rightarrow> nat \<Rightarrow> string \<Rightarrow> session \<Rightarrow> (bool \<times> session) result option" where
  "ProcessRequest_threadpool junk num_threads request s =
     (let req = (case split_request request of Some r \<Rightarrow> r | None \<Rightarrow> ('''', request))
      in if length (snd req) = kCells then accepted (RunTask_solve junk num_threads req s) else Some (Inr (False, s)))"

definition ProcessRequest_hybrid :: "nodes \<Rightarrow> nat \<Rightarrow> string \<Rightarrow> session \<Rightarrow> (bool \<times> session) result option" where
  "ProcessRequest_hybrid junk num_threads request s =
     (if split_request request = None \<and> num_threads > 1 then Some (Inr (False, s))
      else let req = (case split_request request of Some r \<Rightarrow> r | None \<Rightarrow> ('''', request))
           in if length (snd req) = kCells then accepted (RunTask_solve junk num_threads req s) else Some (Inr (False, s)))"

text \<open>\<open>queue_size\<close> is what \<open>QueueSize\<close> returns for the shared pool.\<close>

definition ProcessRequest_prod :: "nodes \<Rightarrow> nat \<Rightarrow> (session \<Rightarrow> nat) \<Rightarrow> string \<Rightarrow> session \<Rightarrow> (bool \<times> session) result option" where
  "ProcessRequest_prod junk num_threads queue_size request s =
     (if split_request request = None \<and> num_threads > 1 then Some (Inr (False, s))
      else let req = (case split_request request of Some r \<Rightarrow> r | None \<Rightarrow> ('''', request))
           in if length (snd req) = kCells
              then case ss_throttle s of
                     None \<Rightarrow> Some (Inl Bad_any_cast)
                   | Some throttle \<Rightarrow>
                       if queue_size s < 1000 * 1000 \<and> \<not> throttle then accepted (RunTask_solve junk num_threads req s)
                       else accepted (Some (Inr (call [Srv_Send (reply (fst req) ''ServerTooBusy'')] s)))
              else Some (Inr (False, s)))"

section \<open>Handlers\<close>

partial_function (option) request_loop ::
  "(string \<Rightarrow> session \<Rightarrow> (bool \<times> session) result option) \<Rightarrow> nat \<Rightarrow> buffer \<Rightarrow> session \<Rightarrow> (buffer \<times> session) result option" where
  "request_loop process len buf s =
     (if kCells + 2 \<le> len
      then case FindCRLF buf of
             Some crlf \<Rightarrow>
               (let request = line_to crlf buf; buf = RetrieveUntil (crlf + 2) buf; len = ReadableBytes buf
                in Option.bind (process request s) (\<lambda>r.
                   case r of
                     Inl e \<Rightarrow> Some (Inl e)
                   | Inr (ok, s) \<Rightarrow>
                       if ok then request_loop process len buf s
                       else Some (Inr (buf, call [Srv_Send (''Bad Request!'' @ kCRLF), Srv_Shutdown] s))))
           | None \<Rightarrow>
               if 100 < len then Some (Inr (buf, call [Srv_Send (''Id too long!'' @ kCRLF), Srv_Shutdown] s)) else Some (Inr (buf, s))
      else Some (Inr (buf, s)))"

definition OnMessage_basic :: "nodes \<Rightarrow> buffer \<Rightarrow> session \<Rightarrow> (buffer \<times> session) result option" where
  "OnMessage_basic junk buf s = request_loop (ProcessRequest_basic junk) (ReadableBytes buf) buf s"

definition OnMessage_threadpool :: "nodes \<Rightarrow> nat \<Rightarrow> buffer \<Rightarrow> session \<Rightarrow> (buffer \<times> session) result option" where
  "OnMessage_threadpool junk num_threads buf s = request_loop (ProcessRequest_threadpool junk num_threads) (ReadableBytes buf) buf s"

definition OnMessage_hybrid :: "nodes \<Rightarrow> nat \<Rightarrow> buffer \<Rightarrow> session \<Rightarrow> (buffer \<times> session) result option" where
  "OnMessage_hybrid junk num_threads buf s = request_loop (ProcessRequest_hybrid junk num_threads) (ReadableBytes buf) buf s"

definition OnMessage_prod :: "nodes \<Rightarrow> nat \<Rightarrow> (session \<Rightarrow> nat) \<Rightarrow> buffer \<Rightarrow> session \<Rightarrow> (buffer \<times> session) result option" where
  "OnMessage_prod junk num_threads queue_size buf s =
     request_loop (ProcessRequest_prod junk num_threads queue_size) (ReadableBytes buf) buf s"

definition OnConnection_hybrid :: "bool \<Rightarrow> bool \<Rightarrow> session \<Rightarrow> session" where
  "OnConnection_hybrid tcp_no_delay isup s = (if isup \<and> tcp_no_delay then call [Srv_SetTcpNoDelay] s else s)"

definition OnConnection_prod :: "bool \<Rightarrow> bool \<Rightarrow> session \<Rightarrow> session" where
  "OnConnection_prod tcp_no_delay isup s =
     (if isup
      then (call ((if tcp_no_delay then [Srv_SetTcpNoDelay] else []) @ [Srv_SetHighWatermark (5 * 1024 * 1024)]) s)\<lparr>ss_throttle := Some False\<rparr>
      else s)"

definition HighWatermark_prod :: "nat \<Rightarrow> session \<Rightarrow> session" where
  "HighWatermark_prod tosend s =
     (if tosend < 10 * 1024 * 1024
      then (call [Srv_SetHighWatermark (10 * 1024 * 1024), Srv_SetWriteComplete True] s)\<lparr>ss_throttle := Some True\<rparr>
      else call [Srv_Send (''Bad Request!'' @ kCRLF), Srv_Shutdown] s)"

definition WriteComplete_prod :: "session \<Rightarrow> session" where
  "WriteComplete_prod s = (call [Srv_SetHighWatermark (5 * 1024 * 1024), Srv_SetWriteComplete False] s)\<lparr>ss_throttle := Some False\<rparr>"

section \<open>Input\<close>

text \<open>A connection that receives the bytes of its stream in chunks: each is appended to the input buffer and the handler is called.\<close>

fun receive :: "(buffer \<Rightarrow> session \<Rightarrow> (buffer \<times> session) result option) \<Rightarrow> string list \<Rightarrow> buffer \<Rightarrow> session \<Rightarrow> (buffer \<times> session) result option" where
  "receive OnMessage [] buf s = Some (Inr (buf, s))"
| "receive OnMessage (c # cs) buf s =
     (case Append c buf of
        Inl e \<Rightarrow> Some (Inl e)
      | Inr buf \<Rightarrow> Option.bind (OnMessage buf s) (\<lambda>r. case r of Inl e \<Rightarrow> Some (Inl e) | Inr (buf, s) \<Rightarrow> receive OnMessage cs buf s))"

text \<open>The text of a request, and the requests a client may send.\<close>

definition request_line_of :: "string \<times> string \<Rightarrow> string" where
  "request_line_of req = (if fst req = '''' then snd req else fst req @ '':'' @ snd req)"

definition wf_sudoku :: "string \<times> string \<Rightarrow> bool" where
  "wf_sudoku req \<longleftrightarrow> length (fst req) \<le> 17 \<and> length (snd req) = kCells \<and> CR \<notin> set (fst req) \<and> CR \<notin> set (snd req)
     \<and> CHR '':'' \<notin> set (fst req) \<and> (fst req = '''' \<longrightarrow> CHR '':'' \<notin> set (snd req))"

definition stream_of :: "(string \<times> string) list \<Rightarrow> string" where
  "stream_of reqs = concat (map (\<lambda>r. request_line_of r @ kCRLF) reqs)"

section \<open>Lemmas\<close>

lemma request_line_bounds:
  assumes "wf_sudoku req"
  shows "kCells \<le> length (request_line_of req)" "length (request_line_of req) \<le> 99" "CR \<notin> set (request_line_of req)"
  using assms by (auto simp: wf_sudoku_def request_line_of_def CR_def kCells_def)

lemma split_request_line:
  assumes "wf_sudoku req"
  shows "(case split_request (request_line_of req) of Some r \<Rightarrow> r | None \<Rightarrow> ('''', request_line_of req)) = req"
    "split_request (request_line_of req) = None \<longleftrightarrow> fst req = ''''"
proof -
  have t: "takeWhile (\<lambda>c. c \<noteq> CHR '':'') (xs @ CHR '':'' # ys) = xs" "dropWhile (\<lambda>c. c \<noteq> CHR '':'') (xs @ CHR '':'' # ys) = CHR '':'' # ys"
    if "CHR '':'' \<notin> set xs" for xs ys using that by (induction xs) auto
  obtain i p where req: "req = (i, p)" by (cases req)
  have "split_request (request_line_of req) = (if i = '''' then None else Some (i, p))"
    using assms by (auto simp: req split_request_def request_line_of_def wf_sudoku_def t)
  then show "(case split_request (request_line_of req) of Some r \<Rightarrow> r | None \<Rightarrow> ('''', request_line_of req)) = req"
    "split_request (request_line_of req) = None \<longleftrightarrow> fst req = ''''" by (simp_all add: req request_line_of_def)
qed

lemma stream_of_append: "stream_of (xs @ ys) = stream_of xs @ stream_of ys"
  by (simp add: stream_of_def)

lemma append_split: "a @ b = l @ m \<Longrightarrow> length l \<le> length a \<Longrightarrow> \<exists>a'. a = l @ a' \<and> a' @ b = m"
  by (auto simp: append_eq_append_conv2)

text \<open>A prefix of a stream is some whole requests and a strict prefix of the next one.\<close>

lemma stream_prefix:
  assumes "x @ y = stream_of reqs"
  shows "\<exists>done todo rest. reqs = done @ todo \<and> x = stream_of done @ rest
    \<and> (rest = '''' \<or> (\<exists>r rs z. todo = r # rs \<and> request_line_of r @ kCRLF = rest @ z \<and> z \<noteq> ''''))"
  using assms
proof (induction reqs arbitrary: x)
  case Nil
  then show ?case by (intro exI [of _ "[]"]) (simp add: stream_of_def)
next
  case (Cons r rs)
  let ?l = "request_line_of r @ kCRLF"
  have eq: "x @ y = ?l @ stream_of rs" using Cons.prems by (simp add: stream_of_def)
  show ?case
  proof (cases "length ?l \<le> length x")
    case True
    then obtain x' where x': "x = ?l @ x'" "x' @ y = stream_of rs" using append_split [OF eq] by auto
    from Cons.IH [OF x'(2)] obtain d t rest where "rs = d @ t" "x' = stream_of d @ rest"
      "rest = '''' \<or> (\<exists>r rs z. t = r # rs \<and> request_line_of r @ kCRLF = rest @ z \<and> z \<noteq> '''')" by blast
    then show ?thesis using x'(1) by (intro exI [of _ "r # d"] exI [of _ t] exI [of _ rest]) (auto simp: stream_of_def)
  next
    case False
    moreover from this obtain z where "?l = x @ z" using append_split [OF eq [symmetric]] by auto
    ultimately have "?l = x @ z" "z \<noteq> ''''" by auto
    then show ?thesis by (intro exI [of _ "[]"] exI [of _ "r # rs"] exI [of _ x]) (auto simp: stream_of_def)
  qed
qed

lemma no_crlf_in_prefix:
  assumes "line @ kCRLF = rest @ z" and "z \<noteq> ''''" and "CR \<notin> set line"
  shows "std_search kCRLF rest = None"
proof (cases "std_search kCRLF rest")
  case (Some k)
  have k: "k + 2 \<le> length rest" "take 2 (drop k rest) = kCRLF" using std_search_Some_occurs [OF Some] by simp_all
  have "rest ! k = CR" using k(1) arg_cong [OF k(2), of hd] by (simp add: kCRLF_def CR_def hd_drop_conv_nth take_Suc hd_take)
  moreover have "length rest + length z = length line + 2" using arg_cong [OF assms(1), of length] by simp
  then have "k < length line" using k(1) assms(2) by (cases z) simp_all
  then have "rest ! k = line ! k" using k(1) arg_cong [OF assms(1), of "\<lambda>l. l ! k"] by (simp add: nth_append)
  ultimately show ?thesis using assms(3) \<open>k < length line\<close> by (metis nth_mem)
qed

lemma buf_bytes_RetrieveUntil [simp]: "buf_bytes (RetrieveUntil k b) = buf_bytes b"
  by (simp add: RetrieveUntil_def Retrieve_def RetrieveAll_def)

text \<open>A server that answers every request of \<open>reqs\<close> by \<open>f\<close> while \<open>P\<close> holds.\<close>

definition serves :: "(string \<Rightarrow> session \<Rightarrow> (bool \<times> session) result option) \<Rightarrow> (session \<Rightarrow> bool) \<Rightarrow> (string \<times> string \<Rightarrow> session \<Rightarrow> session)
    \<Rightarrow> (string \<times> string) list \<Rightarrow> bool" where
  "serves process P f reqs \<longleftrightarrow> (\<forall>r\<in>set reqs. wf_sudoku r \<and> (\<forall>s. P s \<longrightarrow> process (request_line_of r) s = Some (Inr (True, f r s)) \<and> P (f r s)))"

lemma request_loop_stream:
  assumes "serves process P f reqs" and "P s" and "buffer_inv buf" and "content buf = stream_of reqs @ rest"
    and "std_search kCRLF rest = None" and "length rest \<le> 100"
  shows "\<exists>buf'. request_loop process (ReadableBytes buf) buf s = Some (Inr (buf', fold f reqs s)) \<and> buffer_inv buf' \<and> content buf' = rest
    \<and> buf_bytes buf' = buf_bytes buf \<and> P (fold f reqs s)"
  using assms(1-4)
proof (induction reqs arbitrary: buf s)
  case Nil
  then have "FindCRLF buf = None" "ReadableBytes buf = length rest" using assms(5) length_content by (auto simp: FindCRLF_def stream_of_def)
  then show ?case using Nil assms(6) by (subst request_loop.simps) (simp add: stream_of_def)
next
  case (Cons r reqs)
  let ?l = "request_line_of r"
  have wf: "wf_sudoku r" and step: "process ?l s = Some (Inr (True, f r s))" "P (f r s)" and more: "serves process P f reqs"
    using Cons.prems(1,2) by (auto simp: serves_def)
  note b = request_line_bounds [OF wf]
  have c: "content buf = ?l @ kCRLF @ stream_of reqs @ rest" using Cons.prems(4) by (simp add: stream_of_def)
  then have k: "std_search kCRLF (content buf) = Some (length ?l)" using std_search_kCRLF [OF b(3)] by simp
  note line = FindCRLF_content [OF Cons.prems(3) k]
  have "kCells + 2 \<le> ReadableBytes buf" using length_content [OF Cons.prems(3)] b(1) by (simp add: c)
  moreover have "line_to (reader_index buf + length ?l) buf = ?l" using line(2) by (simp add: c)
  ultimately have "request_loop process (ReadableBytes buf) buf s =
      (let buf = RetrieveUntil (reader_index buf + length ?l + 2) buf in request_loop process (ReadableBytes buf) buf (f r s))"
    using line(1) step(1) by (subst request_loop.simps) (simp add: Let_def)
  with Cons.IH [OF more step(2) line(3)] line(4) show ?case by (simp add: c Let_def)
qed

lemma receive_stream:
  assumes "serves process P f reqs" and "P s" and "buffer_inv buf" and "content buf @ concat chunks = stream_of reqs"
    and "length (buf_bytes buf) + length (concat chunks) < 2 ^ 31"
    and "content buf = '''' \<or> (\<exists>r rs z. reqs = r # rs \<and> request_line_of r @ kCRLF = content buf @ z \<and> z \<noteq> '''')"
  shows "\<exists>buf'. receive (\<lambda>buf. request_loop process (ReadableBytes buf) buf) chunks buf s = Some (Inr (buf', fold f reqs s)) \<and> content buf' = ''''"
  using assms
proof (induction chunks arbitrary: buf s reqs)
  case Nil
  have "content buf = ''''"
  proof (rule ccontr)
    assume "content buf \<noteq> ''''"
    with Nil.prems(6) obtain r rs z where "reqs = r # rs" "request_line_of r @ kCRLF = content buf @ z" "z \<noteq> ''''" by blast
    then show False using arg_cong [OF Nil.prems(4), of length] arg_cong [of _ _ length, OF \<open>request_line_of r @ kCRLF = content buf @ z\<close>] by (cases z) (simp_all add: stream_of_def)
  qed
  moreover from this Nil.prems(4) have "reqs = []" by (cases reqs) (simp_all add: stream_of_def kCRLF_def)
  ultimately show ?case by simp
next
  case (Cons c cs)
  have "room buf (length c)" using Cons.prems(5) by (simp add: room_def vec_max_def)
  from Append_ok [OF Cons.prems(3) this] obtain b1 where b1: "Append c buf = Inr b1" "buffer_inv b1" "content b1 = content buf @ c"
    "length (buf_bytes b1) \<le> length (buf_bytes buf) + length c" by blast
  have str: "content b1 @ concat cs = stream_of reqs" using Cons.prems(4) b1(3) by simp
  from stream_prefix [OF this] obtain d t rest where dt: "reqs = d @ t" "content b1 = stream_of d @ rest"
    "rest = '''' \<or> (\<exists>r rs z. t = r # rs \<and> request_line_of r @ kCRLF = rest @ z \<and> z \<noteq> '''')" by blast
  have sd: "serves process P f d" "serves process P f t" using Cons.prems(1) by (auto simp: serves_def dt(1))
  have rest: "std_search kCRLF rest = None \<and> length rest \<le> 100"
    using dt(3)
  proof (elim disjE exE conjE)
    fix r rs z assume r: "t = r # rs" "request_line_of r @ kCRLF = rest @ z" "z \<noteq> ''''"
    then have "wf_sudoku r" using sd(2) by (simp add: serves_def)
    note b = request_line_bounds [OF this]
    have "length rest < length (request_line_of r) + 2" using arg_cong [OF r(2), of length] r(3) by (cases z) simp_all
    then show ?thesis using no_crlf_in_prefix [OF r(2,3) b(3)] b(2) by simp
  qed (simp add: kCRLF_def)
  from request_loop_stream [OF sd(1) Cons.prems(2) b1(2) dt(2) conjunct1 [OF rest] conjunct2 [OF rest]] obtain b2 where
    b2: "request_loop process (ReadableBytes b1) b1 s = Some (Inr (b2, fold f d s))" "buffer_inv b2" "content b2 = rest" "buf_bytes b2 = buf_bytes b1"
      "P (fold f d s)" by blast
  have "content b2 @ concat cs = stream_of t" using str unfolding dt b2(3) by (simp add: stream_of_append)
  from Cons.IH [OF sd(2) b2(5,2) this] b1(4) b2(3,4) Cons.prems(5) dt(3) show ?case by (simp add: b1(1) b2(1) dt(1))
qed

text \<open>What the solver answers.\<close>

definition answer :: "nodes \<Rightarrow> string \<Rightarrow> string" where
  "answer junk puzzle = (case SolveSudoku junk puzzle of Some (Inr r) \<Rightarrow> r | _ \<Rightarrow> '''')"

lemma answer:
  assumes "length puzzle = kCells"
  shows "SolveSudoku junk puzzle = Some (Inr (answer junk puzzle))" "answer_ok puzzle (answer junk puzzle)"
  using SolveSudoku_returns [OF assms, of junk] by (auto simp: answer_def)

abbreviation answered :: "nodes \<Rightarrow> string \<times> string \<Rightarrow> srv_call" where
  "answered junk r \<equiv> Srv_Send (reply (fst r) (answer junk (snd r)))"

lemma Solve_request_ok: "length (snd r) = kCells \<Longrightarrow> Solve_request junk r s = Some (Inr (call [answered junk r] s))"
  by (simp add: Solve_request_def answer)

lemma fold_call: "fold (\<lambda>r. call [g r]) rs s = call (map g rs) s"
  by (induction rs arbitrary: s) (simp_all add: call_def)

lemma fold_task: "fold (\<lambda>r s. s\<lparr>ss_tasks := ss_tasks s @ [r]\<rparr>) rs s = s\<lparr>ss_tasks := ss_tasks s @ rs\<rparr>"
  by (induction rs arbitrary: s) simp_all

lemma serves_basic: "list_all wf_sudoku reqs \<Longrightarrow> serves (ProcessRequest_basic junk) (\<lambda>_. True) (\<lambda>r. call [answered junk r]) reqs"
  unfolding serves_def list_all_iff
  by (auto simp: ProcessRequest_basic_def split_request_line Let_def accepted_def Solve_request_ok wf_sudoku_def)

lemma serves_threadpool:
  "list_all wf_sudoku reqs \<Longrightarrow> 0 < n \<Longrightarrow> serves (ProcessRequest_threadpool junk n) (\<lambda>_. True) (\<lambda>r s. s\<lparr>ss_tasks := ss_tasks s @ [r]\<rparr>) reqs"
  unfolding serves_def list_all_iff
  by (auto simp: ProcessRequest_threadpool_def split_request_line Let_def accepted_def RunTask_solve_def wf_sudoku_def)

lemma serves_hybrid:
  assumes "list_all (\<lambda>r. wf_sudoku r \<and> fst r \<noteq> '''') reqs" and "0 < n"
  shows "serves (ProcessRequest_hybrid junk n) (\<lambda>_. True) (\<lambda>r s. s\<lparr>ss_tasks := ss_tasks s @ [r]\<rparr>) reqs"
  using assms unfolding serves_def list_all_iff
  by (auto simp: ProcessRequest_hybrid_def split_request_line Let_def accepted_def RunTask_solve_def wf_sudoku_def)

lemma serves_prod:
  assumes "list_all (\<lambda>r. wf_sudoku r \<and> fst r \<noteq> '''') reqs" and "0 < n"
  shows "(\<And>s. queue_size s < 1000 * 1000) \<Longrightarrow>
      serves (ProcessRequest_prod junk n queue_size) (\<lambda>s. ss_throttle s = Some False) (\<lambda>r s. s\<lparr>ss_tasks := ss_tasks s @ [r]\<rparr>) reqs"
    "serves (ProcessRequest_prod junk n queue_size) (\<lambda>s. ss_throttle s = Some True) (\<lambda>r. call [Srv_Send (reply (fst r) ''ServerTooBusy'')]) reqs"
  using assms unfolding serves_def list_all_iff
  by (auto simp: ProcessRequest_prod_def split_request_line Let_def accepted_def RunTask_solve_def wf_sudoku_def call_def)

lemma receive_fresh:
  assumes "serves process P f reqs" and "P s" and "concat chunks = stream_of reqs" and "length (stream_of reqs) < 2 ^ 30"
  shows "\<exists>buf'. receive (\<lambda>buf. request_loop process (ReadableBytes buf) buf) chunks default_buffer s = Some (Inr (buf', fold f reqs s)) \<and> content buf' = ''''"
  using receive_stream [OF assms(1,2) default_buffer_inv, of chunks] assms(3,4) by (simp add: default_buffer_sizes)

text \<open>With a pool of threads the handlers only queue the requests.\<close>

lemma pool_queues:
  assumes "list_all (\<lambda>r. wf_sudoku r \<and> fst r \<noteq> '''') reqs" and "0 < n" and "concat chunks = stream_of reqs" and "length (stream_of reqs) < 2 ^ 30"
  shows "\<exists>b. receive (OnMessage_threadpool junk n) chunks default_buffer s = Some (Inr (b, s\<lparr>ss_tasks := ss_tasks s @ reqs\<rparr>))"
    "\<exists>b. receive (OnMessage_hybrid junk n) chunks default_buffer s = Some (Inr (b, s\<lparr>ss_tasks := ss_tasks s @ reqs\<rparr>))"
    "(\<And>s. queue_size s < 1000 * 1000) \<Longrightarrow> ss_throttle s = Some False \<Longrightarrow>
      \<exists>b. receive (OnMessage_prod junk n queue_size) chunks default_buffer s = Some (Inr (b, s\<lparr>ss_tasks := ss_tasks s @ reqs\<rparr>))"
    "ss_throttle s = Some True \<Longrightarrow> \<exists>b. receive (OnMessage_prod junk n queue_size) chunks default_buffer s
      = Some (Inr (b, call (map (\<lambda>r. Srv_Send (reply (fst r) ''ServerTooBusy'')) reqs) s))"
proof -
  have wf: "list_all wf_sudoku reqs" using assms(1) by (simp add: list_all_iff)
  note handlers = OnMessage_threadpool_def [abs_def] OnMessage_hybrid_def [abs_def] OnMessage_prod_def [abs_def] fold_task fold_call
  show "\<exists>b. receive (OnMessage_threadpool junk n) chunks default_buffer s = Some (Inr (b, s\<lparr>ss_tasks := ss_tasks s @ reqs\<rparr>))"
    using receive_fresh [OF serves_threadpool [OF wf assms(2)] _ assms(3,4)] by (auto simp: handlers)
  show "\<exists>b. receive (OnMessage_hybrid junk n) chunks default_buffer s = Some (Inr (b, s\<lparr>ss_tasks := ss_tasks s @ reqs\<rparr>))"
    using receive_fresh [OF serves_hybrid [OF assms(1,2)] _ assms(3,4)] by (auto simp: handlers)
  show "\<exists>b. receive (OnMessage_prod junk n queue_size) chunks default_buffer s = Some (Inr (b, s\<lparr>ss_tasks := ss_tasks s @ reqs\<rparr>))"
    if "\<And>s. queue_size s < 1000 * 1000" "ss_throttle s = Some False"
    using receive_fresh [OF serves_prod(1) [where queue_size = queue_size and junk = junk, OF assms(1,2)] _ assms(3,4), of s] that by (auto simp: handlers)
  show "\<exists>b. receive (OnMessage_prod junk n queue_size) chunks default_buffer s
      = Some (Inr (b, call (map (\<lambda>r. Srv_Send (reply (fst r) ''ServerTooBusy'')) reqs) s))" if "ss_throttle s = Some True"
    using receive_fresh [OF serves_prod(2) [where queue_size = queue_size and junk = junk, OF assms(1,2)] _ assms(3,4), of s] that by (auto simp: handlers)
qed

text \<open>A worker solves the puzzle correctly; what it queues in the loop is the address of a string that is gone.\<close>

lemma Solve_worker_dangles:
  assumes "length (snd r) = kCells" and "conn_state c = kConnected"
  shows "\<exists>c'. Solve_worker update write_fd p junk r c = Some (Inr c')
    \<and> conn_tasks c' = conn_tasks c @ [Task_send_pointer p (length (reply (fst r) (answer junk (snd r))))]
    \<and> output_buffer c' = output_buffer c \<and> wire c' = wire c
    \<and> run_task update cb write_fd (Task_send_pointer p (length (reply (fst r) (answer junk (snd r))))) (c'\<lparr>conn_tasks := ts\<rparr>) = Inl Use_after_free"
  using assms by (auto simp: Solve_worker_def answer Send_data_def Send_string_def queue_task_def)

section \<open>Properties\<close>

text \<open>
  Property C16. The basic server answers every request of a stream once, in order, with the id of the request and the correct answer to its puzzle,
  however the stream is cut into chunks on the way: lines split between two reads, several lines in one read, even a split between the
  two bytes of a line end. Ids have at most 17 characters, so that an incomplete line never has more than the 100 bytes the server tolerates.
\<close>

theorem sudoku_server_replies:
  assumes "list_all wf_sudoku reqs" and "concat chunks = stream_of reqs" and "length (stream_of reqs) < 2 ^ 30"
  shows "\<exists>buf results. receive (OnMessage_basic junk) chunks default_buffer new_session =
      Some (Inr (buf, new_session\<lparr>ss_calls := map (\<lambda>(r, res). Srv_Send (reply (fst r) res)) (zip reqs results)\<rparr>))
    \<and> content buf = '''' \<and> list_all2 (\<lambda>r res. answer_ok (snd r) res) reqs results"
proof -
  from receive_fresh [OF serves_basic [OF assms(1)] _ assms(2,3)] obtain buf where "receive (OnMessage_basic junk) chunks default_buffer new_session = Some (Inr (buf, call (map (answered junk) reqs) new_session))"
    "content buf = ''''" by (auto simp: OnMessage_basic_def [abs_def] fold_call)
  moreover have "list_all2 (\<lambda>r res. answer_ok (snd r) res) reqs (map (\<lambda>r. answer junk (snd r)) reqs)"
    using assms(1) answer(2) by (auto simp: list_all2_map2 list_all2_same list_all_iff wf_sudoku_def)
  ultimately show ?thesis
    by (intro exI [of _ buf] exI [of _ "map (\<lambda>r. answer junk (snd r)) reqs"]) (simp add: call_def new_session_def zip_map2 comp_def zip_same_conv_map)
qed

theorem sudoku_server_replies_witness:
  "\<exists>buf results. receive (OnMessage_basic \<lparr>nd_left = id, nd_right = id, nd_up = id, nd_down = id, nd_col = id, nd_name = id, nd_size = (\<lambda>_. 0)\<rparr>)
        [''7:'' @ example_puzzle @ [CR], [CHR 0x0A] @ example_puzzle, kCRLF] default_buffer new_session =
      Some (Inr (buf, new_session\<lparr>ss_calls := map (\<lambda>(r, res). Srv_Send (reply (fst r) res)) (zip [(''7'', example_puzzle), ('''', example_puzzle)] results)\<rparr>))
    \<and> content buf = '''' \<and> list_all2 (\<lambda>r res. answer_ok (snd r) res) [(''7'', example_puzzle), ('''', example_puzzle)] results"
  by (rule sudoku_server_replies)
    (simp_all add: example_puzzle_def wf_sudoku_def kCells_def CR_def stream_of_def request_line_of_def kCRLF_def)



end
