(* ===== verification/File_Transfer.thy ===== *)
theory File_Transfer
  imports Tcp_Connection
begin

text \<open>
  \<open>examples/filetransfer/download.cc\<close>, \<open>download2.cc\<close> and \<open>download3.cc\<close>: three servers that send a file to everyone who connects. The first sends
  it whole; the others send a chunk of 64 KiB whenever the previous one was handed to the kernel, and keep the \<open>FILE*\<close> in the context of the connection.
  The connection is that of \<open>Tcp_Connection\<close> with either poller; what the loop does with it is a sequence of events. A file is what is left to read of it and whether it is
  open; \<open>data\<close> is the content of \<open>g_file\<close>, if the file can be opened.
\<close>

section \<open>Files\<close>

record FILE =
  file_rest :: string
  file_open :: bool

definition fopen :: "string option \<Rightarrow> FILE option" where
  "fopen data = map_option (\<lambda>d. \<lparr>file_rest = d, file_open = True\<rparr>) data"

definition fread :: "nat \<Rightarrow> FILE \<Rightarrow> (string \<times> FILE) result" where
  "fread n fp = (if file_open fp then Inr (take n (file_rest fp), fp\<lparr>file_rest := drop n (file_rest fp)\<rparr>) else Inl Use_after_free)"

definition fclose :: "FILE \<Rightarrow> FILE result" where
  "fclose fp = (if file_open fp then Inr (fp\<lparr>file_open := False\<rparr>) else Inl Use_after_free)"

section \<open>The whole file at once\<close>

function read_loop :: "nat \<Rightarrow> string \<Rightarrow> FILE \<Rightarrow> (string \<times> FILE) result" where
  "read_loop n acc fp =
     (if n = 0 then Inr (acc, fp)
      else case fread n fp of
             Inl e \<Rightarrow> Inl e
           | Inr (buf, fp) \<Rightarrow> if length buf > 0 then read_loop n (acc @ buf) fp else Inr (acc, fp))"
  by pat_completeness auto
termination by (relation "measure (\<lambda>(n, acc, fp). length (file_rest fp))") (auto simp: fread_def split: if_splits)

declare read_loop.simps [simp del]

definition ReadFile :: "string option \<Rightarrow> string result" where
  "ReadFile data =
     (case fopen data of
        None \<Rightarrow> Inr []
      | Some fp \<Rightarrow> bindr (read_loop (1024 * 1024) [] fp) (\<lambda>(s, fp). bindr (fclose fp) (\<lambda>_. Inr s)))"

text \<open>\<open>p\<close> is the address of the local string.\<close>

definition OnConnection_1 :: "'p poll_op \<Rightarrow> (string \<Rightarrow> int + nat) \<Rightarrow> ptr \<Rightarrow> string option \<Rightarrow> 'p tcp_connection \<Rightarrow> 'p tcp_connection result" where
  "OnConnection_1 update write p data c =
     (if Connected c
      then bindr (ReadFile data) (\<lambda>fileContent.
           bindr (Send_string update write True p ((SetHighWatermarkCallback True (64 * 1024) c)\<lparr>strings := (strings c)(p \<mapsto> fileContent)\<rparr>)) (\<lambda>c.
           Inr (let c = Shutdown True c in c\<lparr>strings := (strings c)(p := None)\<rparr>)))
      else Inr c)"

section \<open>Chunk by chunk\<close>

text \<open>The context of a connection: empty, a null pointer or the pointer to the file.\<close>

datatype file_context = No_context | Null_file | Has_file

record 'p transfer =
  tr_conn :: "'p tcp_connection"
  tr_context :: file_context
  tr_file :: FILE

definition kBufSize :: nat where
  "kBufSize = 64 * 1024"

definition send_chunk :: "'p poll_op \<Rightarrow> (string \<Rightarrow> int + nat) \<Rightarrow> ptr \<Rightarrow> string \<Rightarrow> 'p transfer \<Rightarrow> 'p transfer result" where
  "send_chunk update write p buf s = bindr (Send_data update write True p buf (tr_conn s)) (\<lambda>c. Inr (s\<lparr>tr_conn := c\<rparr>))"

text \<open>\<open>OnConnection\<close> starts with a new connection in the same way in both servers. When it goes down, only \<open>download2\<close> does something.\<close>

definition OnConnection_up :: "'p poll_op \<Rightarrow> (string \<Rightarrow> int + nat) \<Rightarrow> ptr \<Rightarrow> string option \<Rightarrow> 'p transfer \<Rightarrow> 'p transfer result" where
  "OnConnection_up update write p data s =
     (let s = s\<lparr>tr_conn := SetHighWatermarkCallback True (kBufSize + 1) (tr_conn s)\<rparr>
      in case fopen data of
           None \<Rightarrow> Inr (s\<lparr>tr_conn := Shutdown True (tr_conn s)\<rparr>)
         | Some fp \<Rightarrow> bindr (fread kBufSize fp) (\<lambda>(buf, fp). send_chunk update write p buf (s\<lparr>tr_context := Has_file, tr_file := fp\<rparr>)))"

definition OnConnection_2 :: "'p poll_op \<Rightarrow> (string \<Rightarrow> int + nat) \<Rightarrow> ptr \<Rightarrow> string option \<Rightarrow> 'p transfer \<Rightarrow> 'p transfer result" where
  "OnConnection_2 update write p data s =
     (if Connected (tr_conn s) then OnConnection_up update write p data s
      else case tr_context s of
             Has_file \<Rightarrow> bindr (fclose (tr_file s)) (\<lambda>fp. Inr (s\<lparr>tr_file := fp\<rparr>))
           | _ \<Rightarrow> Inr s)"

definition OnConnection_3 :: "'p poll_op \<Rightarrow> (string \<Rightarrow> int + nat) \<Rightarrow> ptr \<Rightarrow> string option \<Rightarrow> 'p transfer \<Rightarrow> 'p transfer result" where
  "OnConnection_3 update write p data s = (if Connected (tr_conn s) then OnConnection_up update write p data s else Inr s)"

definition onWriteComplete_2 :: "'p poll_op \<Rightarrow> (string \<Rightarrow> int + nat) \<Rightarrow> ptr \<Rightarrow> 'p transfer \<Rightarrow> 'p transfer result" where
  "onWriteComplete_2 update write p s =
     (case tr_context s of
        No_context \<Rightarrow> Inl Bad_any_cast
      | Null_file \<Rightarrow> Inl Null_pointer
      | Has_file \<Rightarrow>
          bindr (fread kBufSize (tr_file s)) (\<lambda>(buf, fp).
            let s = s\<lparr>tr_file := fp\<rparr>
            in if length buf > 0 then send_chunk update write p buf s
               else bindr (fclose fp) (\<lambda>fp. Inr (s\<lparr>tr_file := fp, tr_context := Null_file, tr_conn := Shutdown True (tr_conn s)\<rparr>))))"

text \<open>In \<open>download3\<close> the context is a \<open>shared_ptr\<close> that closes the file when the connection object dies.\<close>

definition OnWriteComplete_3 :: "'p poll_op \<Rightarrow> (string \<Rightarrow> int + nat) \<Rightarrow> ptr \<Rightarrow> 'p transfer \<Rightarrow> 'p transfer result" where
  "OnWriteComplete_3 update write p s =
     (case tr_context s of
        No_context \<Rightarrow> Inl Bad_any_cast
      | Null_file \<Rightarrow> Inl Null_pointer
      | Has_file \<Rightarrow>
          bindr (fread kBufSize (tr_file s)) (\<lambda>(buf, fp).
            let s = s\<lparr>tr_file := fp\<rparr>
            in if length buf > 0 then send_chunk update write p buf s
               else Inr (s\<lparr>tr_conn := Shutdown True (tr_conn s)\<rparr>)))"

section \<open>Events\<close>

text \<open>The socket becomes writable, the loop runs the next functor of the connection, or the peer is gone. A channel that watches nothing gets no events.\<close>

datatype tr_event = Ev_writable "string \<Rightarrow> int + nat" | Ev_functor "string \<Rightarrow> int + nat" | Ev_hangup

record 'p handlers =
  on_connection :: "'p transfer \<Rightarrow> 'p transfer result"
  on_write_complete :: "(string \<Rightarrow> int + nat) \<Rightarrow> 'p transfer \<Rightarrow> 'p transfer result"

definition download2 :: "'p poll_op \<Rightarrow> (string \<Rightarrow> int + nat) \<Rightarrow> string option \<Rightarrow> ptr \<Rightarrow> 'p handlers" where
  "download2 update write data p = \<lparr>on_connection = OnConnection_2 update write p data, on_write_complete = (\<lambda>w. onWriteComplete_2 update w p)\<rparr>"

definition download3 :: "'p poll_op \<Rightarrow> (string \<Rightarrow> int + nat) \<Rightarrow> string option \<Rightarrow> ptr \<Rightarrow> 'p handlers" where
  "download3 update write data p = \<lparr>on_connection = OnConnection_3 update write p data, on_write_complete = (\<lambda>w. OnWriteComplete_3 update w p)\<rparr>"

fun tr_step :: "'p poll_op \<Rightarrow> 'p handlers \<Rightarrow> 'p transfer \<Rightarrow> tr_event \<Rightarrow> 'p transfer result" where
  "tr_step update h s (Ev_writable w) = bindr (HandleWrite update w (tr_conn s)) (\<lambda>c. Inr (s\<lparr>tr_conn := c\<rparr>))"
| "tr_step update h s (Ev_functor w) =
     (case conn_tasks (tr_conn s) of
        [] \<Rightarrow> Inr s
      | t # ts \<Rightarrow>
          let s = s\<lparr>tr_conn := (tr_conn s)\<lparr>conn_tasks := ts\<rparr>\<rparr>
          in if t = Task_write_complete then on_write_complete h w s
             else bindr (run_task update silent_callbacks w t (tr_conn s)) (\<lambda>c. Inr (s\<lparr>tr_conn := c\<rparr>)))"
| "tr_step update h s Ev_hangup =
     (if ch_events (the_channel (tr_conn s)) = 0 then Inr s
      else bindr (HandleClose update silent_callbacks True (tr_conn s)) (\<lambda>c. on_connection h (s\<lparr>tr_conn := c\<rparr>)))"

fun ev_kernel :: "tr_event \<Rightarrow> string \<Rightarrow> int + nat" where
  "ev_kernel (Ev_writable w) = w"
| "ev_kernel (Ev_functor w) = w"
| "ev_kernel Ev_hangup = (\<lambda>d. Inr (length d))"

text \<open>
  One iteration of the loop that serves the connection: \<open>evs\<close> are the events of its channel that \<open>Poll\<close> has returned, and then \<open>DoPendingFunctors\<close> runs the functors
  that are queued at that moment; those queued by them stay for the next iteration.
\<close>

fun tr_iteration :: "'p poll_op \<Rightarrow> 'p handlers \<Rightarrow> 'p transfer \<Rightarrow> tr_event list \<times> (string \<Rightarrow> int + nat) \<Rightarrow> 'p transfer result" where
  "tr_iteration update h s (evs, w) =
     bindr (foldr_result (tr_step update h) s evs)
       (\<lambda>s. foldr_result (tr_step update h) s (replicate (length (conn_tasks (tr_conn s))) (Ev_functor w)))"

text \<open>What \<open>write\<close> may do: take part of the data or fail, and, for a peer that is there, not with a broken connection.\<close>

definition kernel_any :: "(string \<Rightarrow> int + nat) \<Rightarrow> bool" where
  "kernel_any w \<longleftrightarrow> (\<forall>d n. w d = Inr n \<longrightarrow> n \<le> length d)"

definition kernel_ok :: "(string \<Rightarrow> int + nat) \<Rightarrow> bool" where
  "kernel_ok w \<longleftrightarrow> write_ok w \<and> w [] = Inr 0"

text \<open>A new connection of such a server, with nothing in its context.\<close>

definition new_transfer :: "'p tcp_connection \<Rightarrow> 'p transfer" where
  "new_transfer c = \<lparr>tr_conn = c, tr_context = No_context, tr_file = \<lparr>file_rest = [], file_open = False\<rparr>\<rparr>"

section \<open>Lemmas\<close>

lemma read_loop_all: "file_open fp \<Longrightarrow> 0 < n \<Longrightarrow> read_loop n acc fp = Inr (acc @ file_rest fp, fp\<lparr>file_rest := []\<rparr>)"
proof (induction n acc fp rule: read_loop.induct)
  case (1 n acc fp)
  show ?case
  proof (cases "file_rest fp")
    case Nil
    then show ?thesis using 1(2,3) by (subst read_loop.simps) (simp add: fread_def)
  next
    case (Cons x xs)
    then have "fread n fp = Inr (take n (file_rest fp), fp\<lparr>file_rest := drop n (file_rest fp)\<rparr>)" "length (take n (file_rest fp)) > 0"
      using 1(2,3) by (simp_all add: fread_def)
    from 1(1) [OF _ this(1) refl this(2)] 1(2,3) this show ?thesis by (subst read_loop.simps) simp
  qed
qed

lemma ReadFile_ok: "ReadFile data = Inr (case data of None \<Rightarrow> [] | Some d \<Rightarrow> d)"
  by (cases data) (simp_all add: ReadFile_def fopen_def read_loop_all fclose_def)

text \<open>What \<open>SendInLoop\<close> and \<open>HandleWrite\<close> leave alone and which functors they queue.\<close>

definition keeps :: "'p tcp_connection \<Rightarrow> conn_task list \<Rightarrow> 'p tcp_connection \<Rightarrow> bool" where
  "keeps c ts c' \<longleftrightarrow> conn_tasks c' = conn_tasks c @ ts \<and> has_write_complete c' = has_write_complete c \<and> strings c' = strings c"

lemma send_rest_keeps:
  assumes "send_rest update rest c = Inr c'"
  shows "write_shut c' = write_shut c \<and> (\<exists>ts. keeps c ts c' \<and> set ts \<subseteq> range Task_high_watermark)"
  using send_rest_frame [OF assms] by (auto simp: keeps_def)

lemma SendInLoop_write_shut: "SendInLoop update w d c = Inr c' \<Longrightarrow> write_shut c' = write_shut c"
  using SendInLoop_frame by fastforce

lemma HandleWrite_keeps:
  assumes "HandleWrite update w c = Inr c'" and "buffer_inv (output_buffer c)" and "IsWriting (the_channel c) \<longleftrightarrow> content (output_buffer c) \<noteq> []"
    and "has_write_complete c" and "conn_state c = kConnected \<or> content (output_buffer c) = []"
  shows "write_shut c' = write_shut c \<and> keeps c (if content (output_buffer c) \<noteq> [] \<and> content (output_buffer c') = [] then [Task_write_complete] else []) c'"
proof -
  obtain n e where w: "WriteFd w (output_buffer c) = (n, e)" by (cases "WriteFd w (output_buffer c)")
  define c1 where "c1 = c\<lparr>wire := wire c @ take (nat n) (content (output_buffer c)), output_buffer := Retrieve (nat n) (output_buffer c)\<rparr>"
  have c1: "buffer_inv (output_buffer c1)" "write_shut c1 = write_shut c" "conn_tasks c1 = conn_tasks c" "has_write_complete c1" "strings c1 = strings c"
    "conn_state c1 = conn_state c" using assms(2,4) by (simp_all add: c1_def Retrieve_inv)
  consider "\<not> IsWriting (the_channel c) \<or> n \<le> 0" "c' = c" | "IsWriting (the_channel c)" "ReadableBytes (output_buffer c1) \<noteq> 0" "c' = c1"
    | "IsWriting (the_channel c)" "ReadableBytes (output_buffer c1) = 0"
      "bindr (on_channel (DisableWriting update) c1) (\<lambda>c. let c = (if has_write_complete c then queue_task Task_write_complete c else c)
         in Inr (if conn_state c = kDisconnecting then ShutdownInLoop c else c)) = Inr c'"
    using assms(1) by (auto simp: HandleWrite_def w Let_def c1_def [symmetric] split: if_splits)
  then show ?thesis
  proof cases
    case 2
    then show ?thesis using content_Nil_iff [OF c1(1)] c1 assms(4) by (simp add: keeps_def)
  next
    case 3
    then obtain c2 where c2: "on_channel (DisableWriting update) c1 = Inr c2" by (cases "on_channel (DisableWriting update) c1") simp_all
    then obtain ps where ps: "c2 = c1\<lparr>poll_state := ps\<rparr>" using on_channel_frame by blast
    have "conn_state c = kConnected" using 3(1) assms(3,5) by simp
    then have "c' = queue_task Task_write_complete c2" using 3(3) c2 c1 by (simp add: ps Let_def)
    then show ?thesis using 3(1,2) content_Nil_iff [OF c1(1)] c1 assms(3,4) by (simp add: ps keeps_def)
  qed (simp add: keeps_def)
qed

context poller
begin

lemma conn_ok_unrelated [simp]:
  "conn_ok (c\<lparr>strings := x\<rparr>) = conn_ok c" "conn_ok (c\<lparr>conn_tasks := ts\<rparr>) = conn_ok c" "conn_ok (c\<lparr>wire := y\<rparr>) = conn_ok c"
  "conn_ok (c\<lparr>conn_state := st\<rparr>) = conn_ok c" "conn_ok (c\<lparr>write_shut := b\<rparr>) = conn_ok c" "conn_ok (SetHighWatermarkCallback True mark c) = conn_ok c"
  "conn_ok (queue_task t c) = conn_ok c"
  by (simp_all add: conn_ok_def the_channel_def SetHighWatermarkCallback_def)

text \<open>A chunk is sent when no output is pending: its functor is queued at once if the kernel takes all of it.\<close>

lemma SendInLoop_chunk:
  assumes "conn_ok c" and "conn_state c \<noteq> kDisconnected" and "kernel_ok w" and "content (output_buffer c) = []" and "has_write_complete c"
    and "room (output_buffer c) (length d)"
  shows "\<exists>c' ts. SendInLoop (update True) w d c = Inr c' \<and> conn_ok c' \<and> conn_state c' = conn_state c \<and> write_shut c' = write_shut c
    \<and> wire c' @ content (output_buffer c') = wire c @ d \<and> length (buf_bytes (output_buffer c')) \<le> length (buf_bytes (output_buffer c)) + length d
    \<and> keeps c ts c' \<and> set ts \<subseteq> insert Task_write_complete (range Task_high_watermark)
    \<and> count_list ts Task_write_complete = (if content (output_buffer c') = [] then 1 else 0)"
proof -
  have idle: "\<not> IsWriting (the_channel c) \<and> ReadableBytes (output_buffer c) = 0"
    using assms(1,4) content_Nil_iff [of "output_buffer c"] by (simp add: conn_ok_def)
  have rest: "\<exists>c' ts. send_rest (update True) r (c\<lparr>wire := x\<rparr>) = Inr c' \<and> conn_ok c' \<and> conn_state c' = conn_state c \<and> write_shut c' = write_shut c
      \<and> wire c' = x \<and> content (output_buffer c') = r \<and> length (buf_bytes (output_buffer c')) \<le> length (buf_bytes (output_buffer c)) + length r
      \<and> keeps c ts c' \<and> set ts \<subseteq> range Task_high_watermark"
    if "r \<noteq> []" "room (output_buffer c) (length r)" for r x
  proof -
    from send_rest_ok [of "c\<lparr>wire := x\<rparr>" r] assms(1,4) that obtain c' where
      "send_rest (update True) r (c\<lparr>wire := x\<rparr>) = Inr c'" "conn_ok c'" "wire c' = x" "content (output_buffer c') = r" "conn_state c' = conn_state c"
      "length (buf_bytes (output_buffer c')) \<le> length (buf_bytes (output_buffer c)) + length r" by auto
    moreover from send_rest_keeps [OF this(1)] have "write_shut c' = write_shut c" "\<exists>ts. keeps c ts c' \<and> set ts \<subseteq> range Task_high_watermark"
      by (simp_all add: keeps_def)
    ultimately show ?thesis by blast
  qed
  have hw: "count_list ts Task_write_complete = 0" if "set ts \<subseteq> range Task_high_watermark" for ts
    using that by (auto simp: count_list_0_iff)
  show ?thesis
  proof (cases "w d")
    case (Inr n)
    then have n: "n \<le> length d" using assms(3) by (auto simp: kernel_ok_def write_ok_def)
    show ?thesis
    proof (cases "n = length d")
      case True
      let ?c' = "queue_task Task_write_complete (c\<lparr>wire := wire c @ d\<rparr>)"
      have "SendInLoop (update True) w d c = Inr ?c'" using assms(2,5) idle Inr True by (simp add: SendInLoop_def send_direct_def)
      moreover have "keeps c [Task_write_complete] ?c'" by (simp add: keeps_def)
      ultimately show ?thesis using assms(1,4) by (intro exI [of _ ?c'] exI [of _ "[Task_write_complete]"]) simp
    next
      case False
      have "room (output_buffer c) (length (drop n d))" using assms(6) by (auto simp: room_def)
      from rest [OF _ this, of "wire c @ take n d"] False n obtain c' ts where
        c': "send_rest (update True) (drop n d) (c\<lparr>wire := wire c @ take n d\<rparr>) = Inr c'" "conn_ok c'" "conn_state c' = conn_state c" "write_shut c' = write_shut c"
        "wire c' = wire c @ take n d" "content (output_buffer c') = drop n d"
        "length (buf_bytes (output_buffer c')) \<le> length (buf_bytes (output_buffer c)) + length (drop n d)" "keeps c ts c'" "set ts \<subseteq> range Task_high_watermark" by auto
      have "SendInLoop (update True) w d c = Inr c'" using assms(2) idle Inr False n c'(1) by (simp add: SendInLoop_def send_direct_def Let_def)
      then show ?thesis using c' hw [OF c'(9)] False n by (intro exI [of _ c'] exI [of _ ts]) auto
    qed
  next
    case (Inl err)
    have d: "d \<noteq> []" using assms(3) Inl by (auto simp: kernel_ok_def)
    have e: "err \<noteq> EPIPE \<and> err \<noteq> ECONNRESET" using assms(3) Inl by (auto simp: kernel_ok_def write_ok_def)
    from rest [OF d assms(6), of "wire c"] obtain c' ts where
      c': "send_rest (update True) d c = Inr c'" "conn_ok c'" "conn_state c' = conn_state c" "write_shut c' = write_shut c"
      "wire c' = wire c" "content (output_buffer c') = d"
      "length (buf_bytes (output_buffer c')) \<le> length (buf_bytes (output_buffer c)) + length d" "keeps c ts c'" "set ts \<subseteq> range Task_high_watermark" by auto
    have "SendInLoop (update True) w d c = Inr c'" using assms(2) idle Inl e d c'(1) by (simp add: SendInLoop_def send_direct_def)
    then show ?thesis using c' hw [OF c'(9)] d by (intro exI [of _ c'] exI [of _ ts]) auto
  qed
qed

lemma HandleClose_conn_ok:
  assumes "conn_ok c" and "conn_state c \<in> {kConnected, kDisconnecting}"
  shows "\<exists>c'. HandleClose (update True) silent_callbacks True c = Inr c' \<and> conn_state c' = kDisconnected \<and> ch_events (the_channel c') = 0
    \<and> wire c' = wire c \<and> conn_tasks c' = conn_tasks c"
proof -
  let ?c = "SetState kDisconnected c"
  have c: "poll_state ?c = poll_state c" "conn_channel ?c = conn_channel c" "the_channel ?c = the_channel c" by (simp_all add: SetState_def the_channel_def)
  have z: "disable_all e = 0" for e by (simp add: disable_all_def event_consts)
  have ev: "valid_events (disable_all (ch_events (the_channel ?c)))" unfolding z by (rule valid_events_ops)
  from on_channel_mask [of ?c disable_all "DisableAll (update True)", OF _ _ ev DisableAll_def] assms(1) obtain ps where
    "on_channel (DisableAll (update True)) ?c = Inr (?c\<lparr>poll_state := ps\<rparr>)" "ch_events (fst ps (conn_channel c)) = 0"
    unfolding conn_ok_def c z by fastforce
  then show ?thesis using assms(2) by (auto simp: HandleClose_def AssertInLoopThread_def saw_def the_channel_def SetState_def)
qed

text \<open>Sending from the file until it ends.\<close>

definition tr_inv :: "string \<Rightarrow> 'p transfer \<Rightarrow> bool" where
  "tr_inv whole s \<longleftrightarrow> (let c = tr_conn s; fp = tr_file s
     in conn_ok c \<and> has_write_complete c \<and> set (conn_tasks c) \<subseteq> insert Task_write_complete (range Task_high_watermark)
       \<and> length (buf_bytes (output_buffer c)) + length (file_rest fp) \<le> vec_max
       \<and> (conn_state c = kConnected \<and> tr_context s = Has_file \<and> file_open fp \<and> \<not> write_shut c \<and> wire c @ content (output_buffer c) @ file_rest fp = whole
            \<and> count_list (conn_tasks c) Task_write_complete = (if content (output_buffer c) = [] then 1 else 0)
          \<or> conn_state c = kDisconnecting \<and> write_shut c \<and> wire c = whole \<and> content (output_buffer c) = []
            \<and> count_list (conn_tasks c) Task_write_complete = 0))"

lemma send_chunk_ok:
  assumes "conn_ok (tr_conn s)" and "conn_state (tr_conn s) = kConnected" and "\<not> write_shut (tr_conn s)" and "kernel_ok w" and "content (output_buffer (tr_conn s)) = []"
    and "has_write_complete (tr_conn s)" and "set (conn_tasks (tr_conn s)) \<subseteq> insert Task_write_complete (range Task_high_watermark)"
    and "count_list (conn_tasks (tr_conn s)) Task_write_complete = 0"
    and "length (buf_bytes (output_buffer (tr_conn s))) + length (buf @ file_rest (tr_file s)) \<le> vec_max" and "length buf \<le> kBufSize"
    and "tr_context s = Has_file" and "file_open (tr_file s)" and "wire (tr_conn s) @ buf @ file_rest (tr_file s) = whole"
  shows "\<exists>s'. send_chunk (update True) w p buf s = Inr s' \<and> tr_inv whole s'"
proof -
  let ?c = "(tr_conn s)\<lparr>strings := (strings (tr_conn s))(p \<mapsto> buf)\<rparr>"
  have "room (output_buffer ?c) (length buf)" using assms(9,10) by (simp add: room_def kBufSize_def)
  from SendInLoop_chunk [of ?c w buf, OF _ _ assms(4) _ _ this] assms(1,2,5,6) obtain c' ts where
    c': "SendInLoop (update True) w buf ?c = Inr c'" "conn_ok c'" "conn_state c' = kConnected" "write_shut c' = write_shut (tr_conn s)"
    "wire c' @ content (output_buffer c') = wire (tr_conn s) @ buf" "length (buf_bytes (output_buffer c')) \<le> length (buf_bytes (output_buffer (tr_conn s))) + length buf"
    "keeps ?c ts c'" "set ts \<subseteq> insert Task_write_complete (range Task_high_watermark)"
    "count_list ts Task_write_complete = (if content (output_buffer c') = [] then 1 else 0)" by auto
  let ?s = "s\<lparr>tr_conn := c'\<lparr>strings := (strings c')(p := None)\<rparr>\<rparr>"
  have "send_chunk (update True) w p buf s = Inr ?s"
    using assms(2) c'(1) by (simp add: send_chunk_def Send_data_def Send_string_def)
  moreover have "wire c' @ content (output_buffer c') @ file_rest (tr_file s) = whole" using c'(5) assms(13) by (metis append_assoc)
  then have "tr_inv whole ?s"
    using c' assms(3,6-9,11,12) by (auto simp: tr_inv_def Let_def keeps_def)
  ultimately show ?thesis by blast
qed

lemma Shutdown_idle:
  assumes "conn_ok c" and "conn_state c = kConnected" and "content (output_buffer c) = []"
  shows "Shutdown True c = c\<lparr>conn_state := kDisconnecting, write_shut := True\<rparr>"
  using assms by (simp add: Shutdown_def SetState_def ShutdownInLoop_def conn_ok_def the_channel_def)

text \<open>The functor that reports a chunk sends the next one, or ends the transfer; the two servers differ only in what becomes of the file.\<close>

lemma write_complete_ok:
  assumes "tr_inv whole s" and "kernel_ok w" and "conn_tasks (tr_conn s) = Task_write_complete # ts"
    and "h = download2 (update True) w0 data p \<or> h = download3 (update True) w0 data p"
  shows "\<exists>s'. on_write_complete h w (s\<lparr>tr_conn := (tr_conn s)\<lparr>conn_tasks := ts\<rparr>\<rparr>) = Inr s' \<and> tr_inv whole s'"
proof -
  let ?s = "s\<lparr>tr_conn := (tr_conn s)\<lparr>conn_tasks := ts\<rparr>\<rparr>" and ?fp = "tr_file s"
  let ?t = "?s\<lparr>tr_file := ?fp\<lparr>file_rest := drop kBufSize (file_rest ?fp)\<rparr>\<rparr>"
  have i: "conn_ok (tr_conn s)" "conn_state (tr_conn s) = kConnected" "\<not> write_shut (tr_conn s)" "content (output_buffer (tr_conn s)) = []" "has_write_complete (tr_conn s)"
    "set ts \<subseteq> insert Task_write_complete (range Task_high_watermark)" "count_list ts Task_write_complete = 0"
    "length (buf_bytes (output_buffer (tr_conn s))) + length (file_rest ?fp) \<le> vec_max" "tr_context s = Has_file" "file_open ?fp" "wire (tr_conn s) @ file_rest ?fp = whole"
    using assms(1,3) by (auto simp: tr_inv_def Let_def split: if_splits)
  have f: "fread kBufSize ?fp = Inr (take kBufSize (file_rest ?fp), ?fp\<lparr>file_rest := drop kBufSize (file_rest ?fp)\<rparr>)" using i(10) by (simp add: fread_def)
  show ?thesis
  proof (cases "file_rest ?fp = []")
    case False
    have "\<exists>s'. send_chunk (update True) w p (take kBufSize (file_rest ?fp)) ?t = Inr s' \<and> tr_inv whole s'"
      by (rule send_chunk_ok) (use i assms(2) in \<open>simp_all add: append_assoc [symmetric] del: append_assoc\<close>)
    moreover have "on_write_complete h w ?s = send_chunk (update True) w p (take kBufSize (file_rest ?fp)) ?t"
      using assms(4) i(9) f False by (auto simp: download2_def download3_def onWriteComplete_2_def OnWriteComplete_3_def kBufSize_def)
    ultimately show ?thesis by simp
  next
    case True
    have sh: "Shutdown True (tr_conn ?s) = (tr_conn ?s)\<lparr>conn_state := kDisconnecting, write_shut := True\<rparr>"
      by (rule Shutdown_idle) (use i in simp_all)
    have "\<exists>s'. on_write_complete h w ?s = Inr s' \<and> tr_conn s' = Shutdown True (tr_conn ?s) \<and> file_rest (tr_file s') = []"
      using assms(4) i(9,10) f True by (auto simp: download2_def download3_def onWriteComplete_2_def OnWriteComplete_3_def fclose_def)
    then obtain s' where "on_write_complete h w ?s = Inr s'" "tr_conn s' = Shutdown True (tr_conn ?s)" "file_rest (tr_file s') = []" by blast
    moreover from this have "tr_inv whole s'" using i True unfolding sh by (simp add: tr_inv_def)
    ultimately show ?thesis by blast
  qed
qed

lemma writable_ok:
  assumes "tr_inv whole s"
  shows "\<exists>s'. tr_step (update True) h s (Ev_writable w) = Inr s' \<and> tr_inv whole s'"
proof -
  let ?c = "tr_conn s"
  have ok: "conn_ok ?c" using assms(1) by (simp add: tr_inv_def Let_def)
  from HandleWrite_any [OF ok, of w] obtain c' where c': "HandleWrite (update True) w ?c = Inr c'" "conn_ok c'" "conn_state c' = conn_state ?c"
    "wire c' @ content (output_buffer c') = wire ?c @ content (output_buffer ?c)" "buf_bytes (output_buffer c') = buf_bytes (output_buffer ?c)"
    and idle: "content (output_buffer ?c) = [] \<longrightarrow> c' = ?c" by blast
  from HandleWrite_keeps [OF c'(1)] ok assms(1) have k: "write_shut c' = write_shut ?c"
    "keeps ?c (if content (output_buffer ?c) \<noteq> [] \<and> content (output_buffer c') = [] then [Task_write_complete] else []) c'"
    by (auto simp: conn_ok_def tr_inv_def Let_def)
  have "wire c' @ content (output_buffer c') @ r = wire ?c @ content (output_buffer ?c) @ r" for r using c'(4) by (metis append_assoc)
  moreover have "content (output_buffer c') = []" if "content (output_buffer ?c) = []" using idle that by simp
  ultimately have "tr_inv whole (s\<lparr>tr_conn := c'\<rparr>)"
    using assms(1) c' k by (auto simp: tr_inv_def Let_def keeps_def split: if_splits)
  then show ?thesis using c'(1) by simp
qed

lemma functor_ok:
  assumes "tr_inv whole s" and "\<And>ts. conn_tasks (tr_conn s) = Task_write_complete # ts \<Longrightarrow>
      \<exists>s'. on_write_complete h w (s\<lparr>tr_conn := (tr_conn s)\<lparr>conn_tasks := ts\<rparr>\<rparr>) = Inr s' \<and> P s'"
    and "\<And>s'. tr_inv whole s' \<Longrightarrow> P s'"
  shows "\<exists>s'. tr_step (update True) h s (Ev_functor w) = Inr s' \<and> P s'"
proof (cases "conn_tasks (tr_conn s)")
  case Nil
  then show ?thesis using assms(1,3) by simp
next
  case (Cons t ts)
  show ?thesis
  proof (cases "t = Task_write_complete")
    case True
    then show ?thesis using assms(2) [of ts] Cons by simp
  next
    case False
    moreover from this have "t \<in> range Task_high_watermark" using assms(1) Cons by (auto simp: tr_inv_def Let_def)
    ultimately have "tr_step (update True) h s (Ev_functor w) = Inr (s\<lparr>tr_conn := (tr_conn s)\<lparr>conn_tasks := ts\<rparr>\<rparr>)" using Cons by auto
    moreover have "tr_inv whole (s\<lparr>tr_conn := (tr_conn s)\<lparr>conn_tasks := ts\<rparr>\<rparr>)"
      using assms(1) Cons False by (auto simp: tr_inv_def Let_def)
    ultimately show ?thesis using assms(3) by blast
  qed
qed

lemma tr_step_ok:
  assumes "tr_inv whole s" and "kernel_ok (ev_kernel ev)" and "ev \<noteq> Ev_hangup" and "h = download2 (update True) w0 data p \<or> h = download3 (update True) w0 data p"
  shows "\<exists>s'. tr_step (update True) h s ev = Inr s' \<and> tr_inv whole s'"
proof (cases ev)
  case (Ev_writable w)
  then show ?thesis using writable_ok [OF assms(1)] by blast
next
  case (Ev_functor w)
  then show ?thesis using functor_ok [OF assms(1), of h w "tr_inv whole"] write_complete_ok [OF assms(1) _ _ assms(4), of w] assms(2) by auto
qed (use assms(3) in simp)

lemma tr_run_ok:
  assumes "tr_inv whole s" and "list_all (\<lambda>ev. kernel_ok (ev_kernel ev) \<and> ev \<noteq> Ev_hangup) evs" and "h = download2 (update True) w0 data p \<or> h = download3 (update True) w0 data p"
  shows "\<exists>s'. foldr_result (tr_step (update True) h) s evs = Inr s' \<and> tr_inv whole s'"
  using assms(1,2)
proof (induction evs arbitrary: s)
  case (Cons ev evs)
  from tr_step_ok [OF Cons.prems(1) _ _ assms(3), of ev] Cons.prems(2) obtain s1 where "tr_step (update True) h s ev = Inr s1" "tr_inv whole s1" by auto
  with Cons.IH [OF this(2)] Cons.prems(2) show ?case by simp
qed simp

lemma OnConnection_up_ok:
  assumes "conn_ok c" and "Connected c" and "\<not> write_shut c" and "content (output_buffer c) = []" and "has_write_complete c" and "conn_tasks c = []" and "wire c = []"
    and "kernel_ok w" and "length (buf_bytes (output_buffer c)) + length whole \<le> vec_max"
  shows "\<exists>s. OnConnection_up (update True) w p (Some whole) (new_transfer c) = Inr s \<and> tr_inv whole s"
proof -
  have c: "conn_ok (SetHighWatermarkCallback True m c)" "conn_state (SetHighWatermarkCallback True m c) = kConnected" "\<not> write_shut (SetHighWatermarkCallback True m c)" "output_buffer (SetHighWatermarkCallback True m c) = output_buffer c"
    "has_write_complete (SetHighWatermarkCallback True m c)" "conn_tasks (SetHighWatermarkCallback True m c) = []" "wire (SetHighWatermarkCallback True m c) = []" for m
    using assms(1-7) by (simp_all add: SetHighWatermarkCallback_def Connected_def) (simp_all add: conn_ok_def the_channel_def)
  let ?s = "(new_transfer c)\<lparr>tr_conn := SetHighWatermarkCallback True (kBufSize + 1) c, tr_context := Has_file,
    tr_file := \<lparr>file_rest = drop kBufSize whole, file_open = True\<rparr>\<rparr>"
  have "\<exists>s'. send_chunk (update True) w p (take kBufSize whole) ?s = Inr s' \<and> tr_inv whole s'"
    by (rule send_chunk_ok) (use c assms(4,8,9) in \<open>simp_all add: kBufSize_def\<close>)
  then show ?thesis by (simp add: OnConnection_up_def fopen_def fread_def new_transfer_def)
qed

text \<open>After the peer is gone, \<open>download3\<close> still has its file, and nothing more is sent.\<close>

definition tr_closed :: "string \<Rightarrow> 'p transfer \<Rightarrow> bool" where
  "tr_closed whole s \<longleftrightarrow> conn_state (tr_conn s) = kDisconnected \<and> ch_events (the_channel (tr_conn s)) = 0
     \<and> set (conn_tasks (tr_conn s)) \<subseteq> insert Task_write_complete (range Task_high_watermark)
     \<and> (Task_write_complete \<in> set (conn_tasks (tr_conn s)) \<longrightarrow> tr_context s = Has_file \<and> file_open (tr_file s))
     \<and> (\<exists>r. whole = wire (tr_conn s) @ r)"

lemma hangup_ok:
  assumes "tr_inv whole s"
  shows "\<exists>s'. tr_step (update True) (download3 (update True) w0 data p) s Ev_hangup = Inr s' \<and> (tr_inv whole s' \<or> tr_closed whole s')"
proof (cases "ch_events (the_channel (tr_conn s)) = 0")
  case False
  have "conn_ok (tr_conn s)" "conn_state (tr_conn s) \<in> {kConnected, kDisconnecting}" using assms by (auto simp: tr_inv_def Let_def)
  from HandleClose_conn_ok [OF this] obtain c' where c': "HandleClose (update True) silent_callbacks True (tr_conn s) = Inr c'" "conn_state c' = kDisconnected"
    "ch_events (the_channel c') = 0" "wire c' = wire (tr_conn s)" "conn_tasks c' = conn_tasks (tr_conn s)" by blast
  have "tr_closed whole (s\<lparr>tr_conn := c'\<rparr>)"
    using assms c' by (auto simp: tr_closed_def tr_inv_def Let_def count_list_0_iff split: if_splits)
  then show ?thesis using False c'(1,2) by (simp add: download3_def OnConnection_3_def Connected_def)
qed (use assms in simp)

lemma closed_step:
  assumes "tr_closed whole s"
  shows "\<exists>s'. tr_step (update True) (download3 (update True) w0 data p) s ev = Inr s' \<and> tr_closed whole s'"
proof (cases ev)
  case (Ev_writable w)
  have "HandleWrite (update True) w (tr_conn s) = Inr (tr_conn s)" using assms IsWriting_bit(3) by (simp add: HandleWrite_def tr_closed_def)
  then show ?thesis using assms Ev_writable by simp
next
  case (Ev_functor w)
  show ?thesis
  proof (cases "conn_tasks (tr_conn s)")
    case (Cons t ts)
    let ?s = "s\<lparr>tr_conn := (tr_conn s)\<lparr>conn_tasks := ts\<rparr>\<rparr>"
    have cl: "tr_closed whole ?s" using assms Cons by (auto simp: tr_closed_def the_channel_def)
    show ?thesis
    proof (cases "t = Task_write_complete")
      case True
      have f: "tr_context s = Has_file" "file_open (tr_file s)" "conn_state (tr_conn s) = kDisconnected" using assms Cons True by (auto simp: tr_closed_def)
      let ?t = "\<lambda>c. ?s\<lparr>tr_file := (tr_file s)\<lparr>file_rest := drop kBufSize (file_rest (tr_file s))\<rparr>, tr_conn := c\<rparr>"
      have "OnWriteComplete_3 (update True) w p ?s = Inr (?t (tr_conn ?s))"
        if "file_rest (tr_file s) = []" using f that by (simp add: OnWriteComplete_3_def fread_def Shutdown_def)
      moreover have "OnWriteComplete_3 (update True) w p ?s = Inr (?t ((tr_conn ?s)\<lparr>strings := (strings (tr_conn s))(p := None)\<rparr>))"
        if "file_rest (tr_file s) \<noteq> []"
        using f that by (simp add: OnWriteComplete_3_def fread_def send_chunk_def Send_data_def Send_string_def kBufSize_def)
      moreover have "tr_closed whole (?t (tr_conn ?s))" "tr_closed whole (?t ((tr_conn ?s)\<lparr>strings := st\<rparr>))" for st
        using cl by (auto simp: tr_closed_def the_channel_def)
      ultimately have "\<exists>s'. OnWriteComplete_3 (update True) w p ?s = Inr s' \<and> tr_closed whole s'" by (cases "file_rest (tr_file s) = []") auto
      then show ?thesis using Ev_functor Cons True by (simp add: download3_def)
    next
      case False
      then have "t \<in> range Task_high_watermark" using assms Cons by (auto simp: tr_closed_def)
      then show ?thesis using cl Ev_functor Cons False by auto
    qed
  qed (use assms Ev_functor in simp)
qed (use assms in \<open>simp add: tr_closed_def\<close>)

text \<open>
  After a failure of the socket in \<open>SendInLoop\<close> the chunk is dropped and nothing more happens until the connection is closed.
\<close>

definition tr_stuck :: "string \<Rightarrow> 'p transfer \<Rightarrow> bool" where
  "tr_stuck whole s \<longleftrightarrow> conn_ok (tr_conn s) \<and> conn_state (tr_conn s) = kConnected \<and> content (output_buffer (tr_conn s)) = []
     \<and> set (conn_tasks (tr_conn s)) \<subseteq> range Task_high_watermark \<and> (\<exists>r. whole = wire (tr_conn s) @ r)"

lemma stuck_step:
  assumes "tr_stuck whole s"
  shows "\<exists>s'. tr_step (update True) (download3 (update True) w0 data p) s ev = Inr s' \<and> (tr_stuck whole s' \<or> tr_closed whole s')"
proof (cases ev)
  case (Ev_writable w)
  have "HandleWrite (update True) w (tr_conn s) = Inr (tr_conn s)" using assms by (simp add: HandleWrite_def tr_stuck_def conn_ok_def)
  then show ?thesis using assms Ev_writable by simp
next
  case (Ev_functor w)
  show ?thesis
  proof (cases "conn_tasks (tr_conn s)")
    case (Cons t ts)
    then have "t \<in> range Task_high_watermark" using assms by (auto simp: tr_stuck_def)
    then have "tr_step (update True) (download3 (update True) w0 data p) s ev = Inr (s\<lparr>tr_conn := (tr_conn s)\<lparr>conn_tasks := ts\<rparr>\<rparr>)"
      using Ev_functor Cons by auto
    moreover have "tr_stuck whole (s\<lparr>tr_conn := (tr_conn s)\<lparr>conn_tasks := ts\<rparr>\<rparr>)" using assms Cons by (auto simp: tr_stuck_def)
    ultimately show ?thesis by blast
  qed (use assms Ev_functor in simp)
next
  case Ev_hangup
  show ?thesis
  proof (cases "ch_events (the_channel (tr_conn s)) = 0")
    case False
    have "conn_ok (tr_conn s)" "conn_state (tr_conn s) \<in> {kConnected, kDisconnecting}" using assms by (auto simp: tr_stuck_def)
    from HandleClose_conn_ok [OF this] obtain c' where c': "HandleClose (update True) silent_callbacks True (tr_conn s) = Inr c'" "conn_state c' = kDisconnected"
      "ch_events (the_channel c') = 0" "wire c' = wire (tr_conn s)" "conn_tasks c' = conn_tasks (tr_conn s)" by blast
    have "tr_closed whole (s\<lparr>tr_conn := c'\<rparr>)" using assms c' by (auto simp: tr_closed_def tr_stuck_def)
    then show ?thesis using False c'(1,2) Ev_hangup by (simp add: download3_def OnConnection_3_def Connected_def)
  qed (use assms Ev_hangup in simp)
qed

text \<open>Sending a chunk depends on what \<open>write\<close> does with this chunk only.\<close>

lemma send_chunk_cong: "w buf = w' buf \<Longrightarrow> send_chunk (update True) w p buf s = send_chunk (update True) w' p buf s"
  by (simp add: send_chunk_def Send_data_def Send_string_def SendInLoop_def send_direct_def)

lemma kernel_good_or_fault:
  assumes "kernel_any w"
  shows "(\<exists>w'. kernel_ok w' \<and> w' buf = w buf) \<or> (\<exists>e. w buf = Inl e \<and> (e = EPIPE \<or> e = ECONNRESET \<or> buf = []))"
proof (cases "w buf")
  case (Inr n)
  with assms have "n \<le> length buf" by (simp add: kernel_any_def)
  then have "kernel_ok (\<lambda>d. if d = buf then Inr n else Inr (length d))" by (auto simp: kernel_any_def kernel_ok_def write_ok_def)
  with Inr show ?thesis by (intro disjI1 exI [of _ "\<lambda>d. if d = buf then Inr n else Inr (length d)"]) simp
next
  case (Inl e)
  have "kernel_ok (\<lambda>d. if d = buf then Inl e else Inr (length d))" if "e \<noteq> EPIPE" "e \<noteq> ECONNRESET" "buf \<noteq> []"
    using that by (auto simp: kernel_ok_def write_ok_def)
  with Inl show ?thesis by fastforce
qed

lemma send_chunk_fault:
  assumes "conn_ok (tr_conn s)" and "conn_state (tr_conn s) = kConnected" and "content (output_buffer (tr_conn s)) = []"
    and "w buf = Inl e" and "e = EPIPE \<or> e = ECONNRESET \<or> buf = []"
    and "set (conn_tasks (tr_conn s)) \<subseteq> range Task_high_watermark" and "whole = wire (tr_conn s) @ r"
  shows "\<exists>s'. send_chunk (update True) w p buf s = Inr s' \<and> tr_stuck whole s'"
proof -
  have idle: "\<not> IsWriting (the_channel (tr_conn s)) \<and> ReadableBytes (output_buffer (tr_conn s)) = 0"
    using assms(1,3) content_Nil_iff [of "output_buffer (tr_conn s)"] by (simp add: conn_ok_def)
  have n: "EPIPE \<noteq> EWOULDBLOCK" "ECONNRESET \<noteq> EWOULDBLOCK" by (simp_all add: EPIPE_def ECONNRESET_def EWOULDBLOCK_def)
  let ?s = "s\<lparr>tr_conn := (tr_conn s)\<lparr>strings := (strings (tr_conn s))(p := None)\<rparr>\<rparr>"
  have "send_chunk (update True) w p buf s = Inr ?s"
    using assms(2,4,5) idle n by (auto simp: send_chunk_def Send_data_def Send_string_def SendInLoop_def send_direct_def the_channel_def)
  moreover have "tr_stuck whole ?s" using assms(1-3,6,7) by (simp add: tr_stuck_def)
  ultimately show ?thesis by blast
qed

lemma write_complete_any:
  assumes "tr_inv whole s" and "kernel_any w" and "conn_tasks (tr_conn s) = Task_write_complete # ts"
  shows "\<exists>s'. on_write_complete (download3 (update True) w0 data p) w (s\<lparr>tr_conn := (tr_conn s)\<lparr>conn_tasks := ts\<rparr>\<rparr>) = Inr s' \<and> (tr_inv whole s' \<or> tr_stuck whole s')"
proof -
  let ?s = "s\<lparr>tr_conn := (tr_conn s)\<lparr>conn_tasks := ts\<rparr>\<rparr>" and ?fp = "tr_file s" and ?h = "download3 (update True) w0 data p"
  let ?buf = "take kBufSize (file_rest ?fp)" and ?t = "?s\<lparr>tr_file := ?fp\<lparr>file_rest := drop kBufSize (file_rest ?fp)\<rparr>\<rparr>"
  have i: "conn_ok (tr_conn s)" "conn_state (tr_conn s) = kConnected" "content (output_buffer (tr_conn s)) = []"
    "set ts \<subseteq> insert Task_write_complete (range Task_high_watermark)" "count_list ts Task_write_complete = 0"
    "tr_context s = Has_file" "file_open ?fp" "wire (tr_conn s) @ file_rest ?fp = whole"
    using assms(1,3) by (auto simp: tr_inv_def Let_def split: if_splits)
  have hw: "set ts \<subseteq> range Task_high_watermark" using i(4,5) by (auto simp: count_list_0_iff)
  have run: "on_write_complete ?h v ?s = (if file_rest ?fp = [] then Inr (?t\<lparr>tr_conn := Shutdown True (tr_conn ?s)\<rparr>) else send_chunk (update True) v p ?buf ?t)" for v
    using i(6,7) by (auto simp: download3_def OnWriteComplete_3_def fread_def kBufSize_def)
  have good: "\<exists>s'. on_write_complete ?h v ?s = Inr s' \<and> tr_inv whole s'" if "kernel_ok v" for v
    using write_complete_ok [OF assms(1) that assms(3), of ?h w0 data p] by blast
  show ?thesis
  proof (cases "file_rest ?fp = []")
    case True
    have "kernel_ok (\<lambda>d. Inr (length d))" by (simp add: kernel_ok_def write_ok_def)
    from good [OF this] show ?thesis using run [of w] run [of "\<lambda>d. Inr (length d)"] True by auto
  next
    case False
    from kernel_good_or_fault [OF assms(2), of ?buf] consider v where "kernel_ok v" "v ?buf = w ?buf" | e where "w ?buf = Inl e" "e = EPIPE \<or> e = ECONNRESET \<or> ?buf = []" by blast
    then show ?thesis
    proof cases
      case 1
      from good [OF 1(1)] send_chunk_cong [of v ?buf w p ?t] 1(2) run False show ?thesis by auto
    next
      case 2
      have "\<exists>s'. send_chunk (update True) w p ?buf ?t = Inr s' \<and> tr_stuck whole s'"
        by (rule send_chunk_fault [where e = e and r = "file_rest ?fp"]) (use i hw 2 in simp_all)
      then show ?thesis using run False by auto
    qed
  qed
qed

lemma OnConnection_up_any:
  assumes "conn_ok c" and "Connected c" and "\<not> write_shut c" and "content (output_buffer c) = []" and "has_write_complete c" and "conn_tasks c = []" and "wire c = []"
    and "kernel_any w" and "length (buf_bytes (output_buffer c)) + length whole \<le> vec_max"
  shows "\<exists>s. OnConnection_up (update True) w p (Some whole) (new_transfer c) = Inr s \<and> (tr_inv whole s \<or> tr_stuck whole s)"
proof -
  let ?c = "SetHighWatermarkCallback True (kBufSize + 1) c" and ?buf = "take kBufSize whole"
  let ?s = "(new_transfer c)\<lparr>tr_conn := ?c, tr_context := Has_file, tr_file := \<lparr>file_rest = drop kBufSize whole, file_open = True\<rparr>\<rparr>"
  have run: "OnConnection_up (update True) v p (Some whole) (new_transfer c) = send_chunk (update True) v p ?buf ?s" for v
    by (simp add: OnConnection_up_def fopen_def fread_def new_transfer_def)
  from kernel_good_or_fault [OF assms(8), of ?buf] consider v where "kernel_ok v" "v ?buf = w ?buf" | e where "w ?buf = Inl e" "e = EPIPE \<or> e = ECONNRESET \<or> ?buf = []" by blast
  then show ?thesis
  proof cases
    case 1
    from OnConnection_up_ok [OF assms(1-7) 1(1) assms(9), of p] show ?thesis unfolding run send_chunk_cong [of v ?buf w, OF 1(2)] by blast
  next
    case 2
    have "\<exists>s'. send_chunk (update True) w p ?buf ?s = Inr s' \<and> tr_stuck whole s'"
      by (rule send_chunk_fault [where e = e and r = whole])
        (use assms(1,2,4,6,7) 2 in \<open>simp_all add: SetHighWatermarkCallback_def Connected_def conn_ok_def the_channel_def\<close>)
    then show ?thesis unfolding run by auto
  qed
qed

lemma download3_run_ok:
  assumes "tr_inv whole s \<or> tr_stuck whole s \<or> tr_closed whole s" and "list_all (\<lambda>ev. kernel_any (ev_kernel ev)) evs"
  shows "\<exists>s'. foldr_result (tr_step (update True) (download3 (update True) w0 data p)) s evs = Inr s' \<and> (tr_inv whole s' \<or> tr_stuck whole s' \<or> tr_closed whole s')"
  using assms
proof (induction evs arbitrary: s)
  case (Cons ev evs)
  let ?h = "download3 (update True) w0 data p" and ?P = "\<lambda>s. tr_inv whole s \<or> tr_stuck whole s \<or> tr_closed whole s"
  have "\<exists>s1. tr_step (update True) ?h s ev = Inr s1 \<and> ?P s1" if inv: "tr_inv whole s"
  proof (cases ev)
    case (Ev_writable w)
    then show ?thesis using writable_ok [OF inv] by blast
  next
    case (Ev_functor w)
    then have "kernel_any w" using Cons.prems(2) by simp
    then show ?thesis unfolding Ev_functor by (intro functor_ok [OF inv]) (use write_complete_any [OF inv] in blast)+
  next
    case Ev_hangup
    then show ?thesis using hangup_ok [OF inv] by blast
  qed
  then obtain s1 where "tr_step (update True) ?h s ev = Inr s1" "?P s1" using Cons.prems(1) stuck_step closed_step by metis
  with Cons.IH [OF this(2)] Cons.prems(2) show ?case by simp
qed simp

text \<open>
  In \<open>download2\<close> the functor of a chunk that the kernel took can be run after the file was closed: the functor of the chunk before it, run by
  \<open>DoPendingFunctors\<close>, sends the chunk and queues the functor, the next \<open>Poll\<close> reports that the peer is gone, and then the functor runs.
\<close>

lemma download2_closed_file:
  assumes "tr_inv whole s" and "conn_state (tr_conn s) = kConnected" and "conn_tasks (tr_conn s) = [Task_write_complete]" and "ch_events (the_channel (tr_conn s)) \<noteq> 0"
  shows "tr_iteration (update True) (download2 (update True) w0 data p) s ([Ev_hangup], w) = Inl Use_after_free"
proof -
  have "conn_ok (tr_conn s)" "conn_state (tr_conn s) \<in> {kConnected, kDisconnecting}" using assms by (auto simp: tr_inv_def Let_def)
  from HandleClose_conn_ok [OF this] obtain c' where c': "HandleClose (update True) silent_callbacks True (tr_conn s) = Inr c'" "conn_tasks c' = conn_tasks (tr_conn s)" "conn_state c' = kDisconnected" by blast
  have "tr_context s = Has_file" "file_open (tr_file s)" using assms(1,2) by (auto simp: tr_inv_def Let_def)
  then show ?thesis using c' assms(3,4) by (simp add: download2_def OnConnection_2_def Connected_def fclose_def onWriteComplete_2_def fread_def)
qed

lemma send_chunk_taken:
  assumes "conn_ok (tr_conn s)" and "conn_state (tr_conn s) = kConnected" and "content (output_buffer (tr_conn s)) = []" and "has_write_complete (tr_conn s)"
    and "w buf = Inr (length buf)" and "send_chunk (update True) w p buf s = Inr s'"
  shows "conn_tasks (tr_conn s') = conn_tasks (tr_conn s) @ [Task_write_complete] \<and> the_channel (tr_conn s') = the_channel (tr_conn s)
    \<and> conn_state (tr_conn s') = kConnected \<and> tr_file s' = tr_file s \<and> content (output_buffer (tr_conn s')) = []"
proof -
  have "\<not> IsWriting (the_channel (tr_conn s)) \<and> ReadableBytes (output_buffer (tr_conn s)) = 0"
    using assms(1,3) content_Nil_iff [of "output_buffer (tr_conn s)"] by (simp add: conn_ok_def)
  then show ?thesis using assms(2-6)
    by (auto simp: send_chunk_def Send_data_def Send_string_def SendInLoop_def send_direct_def queue_task_def the_channel_def)
qed

lemma download2_next_chunk:
  assumes "tr_inv whole s" and "conn_state (tr_conn s) = kConnected" and "conn_tasks (tr_conn s) = [Task_write_complete]" and "file_rest (tr_file s) \<noteq> []"
    and "w (take kBufSize (file_rest (tr_file s))) = Inr (length (take kBufSize (file_rest (tr_file s))))"
  shows "\<exists>s'. tr_iteration (update True) (download2 (update True) w0 data p) s ([], w) = Inr s' \<and> tr_inv whole s' \<and> conn_state (tr_conn s') = kConnected
    \<and> conn_tasks (tr_conn s') = [Task_write_complete] \<and> the_channel (tr_conn s') = the_channel (tr_conn s)"
proof -
  let ?s = "s\<lparr>tr_conn := (tr_conn s)\<lparr>conn_tasks := []\<rparr>\<rparr>" and ?fp = "tr_file s" and ?h = "download2 (update True) w0 data p"
  let ?buf = "take kBufSize (file_rest ?fp)" and ?t = "?s\<lparr>tr_file := ?fp\<lparr>file_rest := drop kBufSize (file_rest ?fp)\<rparr>\<rparr>"
  have i: "conn_ok (tr_conn s)" "content (output_buffer (tr_conn s)) = []" "has_write_complete (tr_conn s)" "tr_context s = Has_file" "file_open ?fp"
    using assms(1-3) by (auto simp: tr_inv_def Let_def split: if_splits)
  have run: "on_write_complete ?h v ?s = send_chunk (update True) v p ?buf ?t" for v
    using i(4,5) assms(4) by (auto simp: download2_def onWriteComplete_2_def fread_def kBufSize_def)
  let ?v = "\<lambda>d. Inr (length d) :: int + nat"
  have "kernel_ok ?v" by (simp add: kernel_ok_def write_ok_def)
  from write_complete_ok [OF assms(1) this assms(3), of ?h w0 data p] obtain s' where "send_chunk (update True) ?v p ?buf ?t = Inr s'" "tr_inv whole s'" unfolding run by blast
  moreover from this(1) have s': "send_chunk (update True) w p ?buf ?t = Inr s'" using send_chunk_cong [of w ?buf ?v p ?t] assms(5) by simp
  moreover have "conn_tasks (tr_conn s') = [Task_write_complete] \<and> the_channel (tr_conn s') = the_channel (tr_conn s) \<and> conn_state (tr_conn s') = kConnected"
    using send_chunk_taken [OF _ _ _ _ assms(5) s'] i(1-3) assms(2) by (simp add: the_channel_def)
  ultimately show ?thesis using run [of w] assms(3) by auto
qed

lemma OnConnection_1_ok:
  assumes "conn_ok c" and "Connected c" and "\<not> write_shut c" and "write_ok w" and "room (output_buffer c) (length whole)"
  shows "\<exists>c'. OnConnection_1 (update True) w p (Some whole) c = Inr c' \<and> wire c' @ content (output_buffer c') = wire c @ content (output_buffer c) @ whole
    \<and> conn_ok c' \<and> conn_state c' = kDisconnecting \<and> (write_shut c' \<longleftrightarrow> content (output_buffer c') = [])"
proof -
  let ?c = "(SetHighWatermarkCallback True (64 * 1024) c)\<lparr>strings := (strings c)(p \<mapsto> whole)\<rparr>"
  have c: "conn_ok ?c" "conn_state ?c = kConnected" "output_buffer ?c = output_buffer c" "wire ?c = wire c" "\<not> write_shut ?c"
    using assms(1-3) by (simp_all add: SetHighWatermarkCallback_def Connected_def) (simp_all add: conn_ok_def the_channel_def)
  from SendInLoop_ok [OF c(1) _ assms(4), of whole] assms(5) c obtain c1 where
    c1: "SendInLoop (update True) w whole ?c = Inr c1" "conn_ok c1" "conn_state c1 = kConnected" "wire c1 @ content (output_buffer c1) = wire c @ content (output_buffer c) @ whole" by auto
  have "\<not> write_shut c1" using SendInLoop_write_shut [OF c1(1)] c(5) by simp
  moreover have "OnConnection_1 (update True) w p (Some whole) c = Inr (let c = Shutdown True c1 in c\<lparr>strings := (strings c)(p := None)\<rparr>)"
    using assms(2) c(2) c1(1) by (simp add: OnConnection_1_def ReadFile_ok Send_string_def)
  ultimately show ?thesis using c1 by (auto simp: Let_def Shutdown_def SetState_def ShutdownInLoop_def conn_ok_def the_channel_def)
qed

end

section \<open>Properties\<close>

text \<open>A connection that was just established, with \<open>write_complete_callback_\<close> set.\<close>

definition just_up :: "'p tcp_connection \<Rightarrow> bool" where
  "just_up c \<longleftrightarrow> Connected c \<and> \<not> write_shut c \<and> content (output_buffer c) = [] \<and> wire c = [] \<and> has_write_complete c \<and> conn_tasks c = []
     \<and> ch_events (the_channel c) \<noteq> 0"


text \<open>
  Property C39. When the peer goes away in the middle, \<open>download3\<close> is safe and \<open>download2\<close> is not. For any sequence of writable events, functor runs and the loss of
  the connection, with a kernel whose \<open>write\<close> may fail in any way, a broken connection included, \<open>download3\<close> never fails, and what the kernel took is always a
  beginning of the file. In \<open>download2\<close>, with a file of more than one chunk, let the kernel take the first chunk in \<open>OnConnection\<close> and the second in the functor that
  follows it. If the next \<open>Poll\<close> of the loop reports that the peer is gone, then \<open>OnConnection\<close> closes the file, and the functor that the second chunk has queued, run
  later in the same iteration, reads from the closed file.
\<close>

theorem download_hangup:
  assumes "epoll.conn_ok c" and "just_up c" and "kernel_any w" and "length (buf_bytes (output_buffer c)) + length whole \<le> vec_max"
    and "list_all (\<lambda>ev. kernel_any (ev_kernel ev)) evs"
  shows "\<exists>s0. on_connection (download3 (Epoll_UpdateChannel True) w (Some whole) p) (new_transfer c) = Inr s0
    \<and> on_connection (download2 (Epoll_UpdateChannel True) w (Some whole) p) (new_transfer c) = Inr s0
    \<and> (\<exists>s r. foldr_result (tr_step (Epoll_UpdateChannel True) (download3 (Epoll_UpdateChannel True) w (Some whole) p)) s0 evs = Inr s \<and> whole = wire (tr_conn s) @ r)
    \<and> (kBufSize < length whole \<and> w (take kBufSize whole) = Inr kBufSize
        \<and> w1 (take kBufSize (drop kBufSize whole)) = Inr (length (take kBufSize (drop kBufSize whole))) \<longrightarrow>
        foldr_result (tr_iteration (Epoll_UpdateChannel True) (download2 (Epoll_UpdateChannel True) w (Some whole) p)) s0 [([], w1), ([Ev_hangup], w2)]
          = Inl Use_after_free)"
proof -
  have u: "Connected c" "\<not> write_shut c" "content (output_buffer c) = []" "has_write_complete c" "conn_tasks c = []" "wire c = []"
    using assms(2) by (simp_all add: just_up_def)
  from epoll.OnConnection_up_any [OF assms(1) u assms(3,4), of p] obtain s0 where s0: "OnConnection_up (Epoll_UpdateChannel True) w p (Some whole) (new_transfer c) = Inr s0"
    "epoll.tr_inv whole s0 \<or> epoll.tr_stuck whole s0" by blast
  then have "epoll.tr_inv whole s0 \<or> epoll.tr_stuck whole s0 \<or> epoll.tr_closed whole s0" by blast
  from epoll.download3_run_ok [OF this assms(5)] obtain s where
    s: "foldr_result (tr_step (Epoll_UpdateChannel True) (download3 (Epoll_UpdateChannel True) w (Some whole) p)) s0 evs = Inr s"
    "epoll.tr_inv whole s \<or> epoll.tr_stuck whole s \<or> epoll.tr_closed whole s" by blast
  have "\<exists>r. whole = wire (tr_conn s) @ r" using s(2) by (auto simp: epoll.tr_inv_def epoll.tr_stuck_def epoll.tr_closed_def Let_def)
  moreover have "foldr_result (tr_iteration (Epoll_UpdateChannel True) (download2 (Epoll_UpdateChannel True) w (Some whole) p)) s0 [([], w1), ([Ev_hangup], w2)] = Inl Use_after_free"
    if big: "kBufSize < length whole" and first: "w (take kBufSize whole) = Inr kBufSize"
      and second: "w1 (take kBufSize (drop kBufSize whole)) = Inr (length (take kBufSize (drop kBufSize whole)))"
  proof -
    let ?c = "SetHighWatermarkCallback True (kBufSize + 1) c"
    let ?t = "(new_transfer c)\<lparr>tr_conn := ?c, tr_context := Has_file, tr_file := \<lparr>file_rest = drop kBufSize whole, file_open = True\<rparr>\<rparr>"
    have "send_chunk (Epoll_UpdateChannel True) w p (take kBufSize whole) ?t = Inr s0"
      using s0(1) by (simp add: OnConnection_up_def fopen_def fread_def new_transfer_def)
    from epoll.send_chunk_taken [OF _ _ _ _ _ this] assms(1) u first big
    have t: "conn_tasks (tr_conn s0) = [Task_write_complete]" "the_channel (tr_conn s0) = the_channel c" "conn_state (tr_conn s0) = kConnected"
      "file_rest (tr_file s0) = drop kBufSize whole"
      by (simp_all add: SetHighWatermarkCallback_def Connected_def epoll.conn_ok_def the_channel_def)
    then have "epoll.tr_inv whole s0" using s0(2) by (auto simp: epoll.tr_stuck_def)
    from epoll.download2_next_chunk [OF this t(3,1), of w1 w "Some whole" p] t(4) big second obtain s1 where
      s1: "tr_iteration (Epoll_UpdateChannel True) (download2 (Epoll_UpdateChannel True) w (Some whole) p) s0 ([], w1) = Inr s1" "epoll.tr_inv whole s1"
      "conn_state (tr_conn s1) = kConnected" "conn_tasks (tr_conn s1) = [Task_write_complete]" "the_channel (tr_conn s1) = the_channel (tr_conn s0)" by auto
    have "ch_events (the_channel (tr_conn s1)) \<noteq> 0" using s1(5) t(2) assms(2) by (simp add: just_up_def)
    from epoll.download2_closed_file [OF s1(2-4) this] s1(1) show ?thesis by (simp del: tr_iteration.simps)
  qed
  moreover have "on_connection (download3 (Epoll_UpdateChannel True) w (Some whole) p) (new_transfer c) = Inr s0"
    "on_connection (download2 (Epoll_UpdateChannel True) w (Some whole) p) (new_transfer c) = Inr s0"
    using s0(1) u(1) by (simp_all add: download2_def download3_def OnConnection_2_def OnConnection_3_def new_transfer_def)
  ultimately show ?thesis using s(1) by blast
qed

definition example_up :: "epoll_poller tcp_connection" where
  "example_up = (example_conn [])\<lparr>has_write_complete := True\<rparr>"

lemma example_up_ok: "epoll.conn_ok example_up" "just_up example_up" "length (buf_bytes (output_buffer example_up)) + 10 \<le> vec_max"
proof -
  show "epoll.conn_ok example_up" using example_conn_ok [of "[]"] by (simp add: epoll.conn_ok_def example_up_def the_channel_def)
  show "just_up example_up"
    by (simp add: just_up_def example_up_def the_channel_def Connected_def) (simp add: example_conn_def TcpConnection_new_def Let_def)
  show "length (buf_bytes (output_buffer example_up)) + 10 \<le> vec_max" by (simp add: example_up_def buffer_of_def vec_max_def)
qed


theorem download_hangup_witness:
  "\<exists>s0. on_connection (download2 (Epoll_UpdateChannel True) (\<lambda>d. Inr (length d)) (Some (replicate 70000 CHR ''a'')) 9) (new_transfer example_up) = Inr s0
    \<and> foldr_result (tr_iteration (Epoll_UpdateChannel True) (download2 (Epoll_UpdateChannel True) (\<lambda>d. Inr (length d)) (Some (replicate 70000 CHR ''a'')) 9)) s0
        [([], \<lambda>d. Inr (length d)), ([Ev_hangup], \<lambda>d. Inr (length d))] = Inl Use_after_free"
proof -
  let ?w = "\<lambda>d. Inr (length d) :: int + nat"
  have "kernel_any ?w" by (simp add: kernel_any_def)
  then have any: "\<exists>s0. on_connection (download2 (Epoll_UpdateChannel True) ?w (Some whole) 9) (new_transfer example_up) = Inr s0
      \<and> foldr_result (tr_iteration (Epoll_UpdateChannel True) (download2 (Epoll_UpdateChannel True) ?w (Some whole) 9)) s0 [([], ?w), ([Ev_hangup], ?w)] = Inl Use_after_free"
    if "kBufSize < length whole" "length (buf_bytes (output_buffer example_up)) + length whole \<le> vec_max" for whole
    using download_hangup [OF example_up_ok(1,2), of ?w whole "[]" 9 ?w ?w] that by (auto simp: min_absorb2)
  show ?thesis by (rule any, unfold length_replicate) (simp_all add: kBufSize_def example_up_def buffer_of_def vec_max_def)
qed

end
