(* ===== verification/Simple_Servers.thy ===== *)
theory Simple_Servers
  imports Tcp_Connection Http_Context
begin

text \<open>
  \<open>examples/simple\<close>, \<open>examples/echo_server\<close> and \<open>examples/finger\<close>: small servers, each a connection callback and a message callback for the connections of
  \<open>Tcp_Connection\<close>. They run in the loop thread of the connection. A string that lives during a callback is at the free address \<open>p\<close>;
  \<open>write\<close> is the kernel's.
\<close>

section \<open>Callbacks\<close>

text \<open>\<open>conn->Send(s)\<close> for a string that is local to the callback.\<close>

definition send_local :: "'p poll_op \<Rightarrow> (string \<Rightarrow> int + nat) \<Rightarrow> ptr \<Rightarrow> string \<Rightarrow> 'p tcp_connection \<Rightarrow> 'p tcp_connection result" where
  "send_local update write p s c =
     bindr (Send_string update write True p (c\<lparr>strings := (strings c)(p \<mapsto> s)\<rparr>)) (\<lambda>c. Inr (c\<lparr>strings := (strings c)(p := None)\<rparr>))"

text \<open>What a \<open>TcpServer\<close> has before a callback is set.\<close>

definition DefaultConnectionCallback :: "'p tcp_connection \<Rightarrow> 'p tcp_connection result" where
  "DefaultConnectionCallback c = Inr c"

definition DefaultMessageCallback :: "timestamp \<Rightarrow> 'p tcp_connection \<Rightarrow> 'p tcp_connection result" where
  "DefaultMessageCallback t c = Inr (c\<lparr>input_buffer := RetrieveAll (input_buffer c)\<rparr>)"

subsection \<open>Echo\<close>

definition Echo_OnMessage :: "'p poll_op \<Rightarrow> (string \<Rightarrow> int + nat) \<Rightarrow> ptr \<Rightarrow> timestamp \<Rightarrow> 'p tcp_connection \<Rightarrow> 'p tcp_connection result" where
  "Echo_OnMessage update write p t c =
     bindr (RetrieveAllAsString (input_buffer c)) (\<lambda>(msg, buf). send_local update write p msg (c\<lparr>input_buffer := buf\<rparr>))"

subsection \<open>Discard, daytime, time\<close>

definition Discard_OnMessage :: "timestamp \<Rightarrow> 'p tcp_connection \<Rightarrow> 'p tcp_connection result" where
  "Discard_OnMessage t c = bindr (RetrieveAllAsString (input_buffer c)) (\<lambda>(msg, buf). Inr (c\<lparr>input_buffer := buf\<rparr>))"

definition Daytime_OnConnection :: "'p poll_op \<Rightarrow> (string \<Rightarrow> int + nat) \<Rightarrow> ptr \<Rightarrow> (int \<Rightarrow> tm) \<Rightarrow> timestamp \<Rightarrow> 'p tcp_connection \<Rightarrow> 'p tcp_connection result" where
  "Daytime_OnConnection update write p localtime now c =
     (if Connected c
      then bindr (send_local update write p (Timestamp_ToFormattedString localtime False now @ [CHR 0x0A]) c) (\<lambda>c. Inr (Shutdown True c))
      else Inr c)"

text \<open>\<open>now\<close> is what \<open>time\<close> returns; it is narrowed to 32 bits.\<close>

definition Time_OnConnection :: "'p poll_op \<Rightarrow> (string \<Rightarrow> int + nat) \<Rightarrow> ptr \<Rightarrow> int \<Rightarrow> 'p tcp_connection \<Rightarrow> 'p tcp_connection result" where
  "Time_OnConnection update write p now c =
     (if Connected c
      then (let be32 = HostToNetwork32 (word_of_int now)
            in bindr (Send_data update write True p (le_bytes 4 (unat be32)) c) (\<lambda>c. Inr (Shutdown True c)))
      else Inr c)"

subsection \<open>Character generator\<close>

record 'p chargen =
  cg_conn :: "'p tcp_connection"
  transferred :: int
  start_time :: timestamp

definition chargen_message :: string where
  "chargen_message =
     (let line = map char_of [33..<127 :: nat]; line = line @ line
      in concat (map (\<lambda>i. take 72 (drop i line) @ [CHR 0x0A]) [0..<127 - 33]))"

definition Chargen_send :: "'p poll_op \<Rightarrow> (string \<Rightarrow> int + nat) \<Rightarrow> ptr \<Rightarrow> 'p chargen \<Rightarrow> 'p chargen result" where
  "Chargen_send update write p s = bindr (send_local update write p chargen_message (cg_conn s)) (\<lambda>c. Inr (s\<lparr>cg_conn := c\<rparr>))"

text \<open>The option \<open>TCP_NODELAY\<close> that is set first is not part of the connection's state.\<close>

definition Chargen_OnConnection :: "'p poll_op \<Rightarrow> (string \<Rightarrow> int + nat) \<Rightarrow> ptr \<Rightarrow> 'p chargen \<Rightarrow> 'p chargen result" where
  "Chargen_OnConnection update write p s = (if Connected (cg_conn s) then Chargen_send update write p s else Inr s)"

definition Chargen_OnWriteComplete :: "'p poll_op \<Rightarrow> (string \<Rightarrow> int + nat) \<Rightarrow> ptr \<Rightarrow> 'p chargen \<Rightarrow> 'p chargen result" where
  "Chargen_OnWriteComplete update write p s = Chargen_send update write p (s\<lparr>transferred := transferred s + int (length chargen_message)\<rparr>)"

text \<open>\<open>PrintThroughput\<close>: the quotient of the bytes and the seconds since the last call, and a new start.\<close>

definition PrintThroughput :: "timestamp \<Rightarrow> 'p chargen \<Rightarrow> (int \<times> int) \<times> 'p chargen" where
  "PrintThroughput now s =
     ((transferred s, micro_seconds_since_epoch now - micro_seconds_since_epoch (start_time s)), s\<lparr>transferred := 0, start_time := now\<rparr>)"

subsection \<open>Finger\<close>

definition GetUser :: "(string \<rightharpoonup> string) \<Rightarrow> string \<Rightarrow> string" where
  "GetUser users user = (case users user of Some result \<Rightarrow> result | None \<Rightarrow> ''No such user'')"

definition Finger_OnMessage :: "'p poll_op \<Rightarrow> (string \<Rightarrow> int + nat) \<Rightarrow> ptr \<Rightarrow> (string \<rightharpoonup> string) \<Rightarrow> timestamp \<Rightarrow> 'p tcp_connection \<Rightarrow> 'p tcp_connection result" where
  "Finger_OnMessage update write p users t c =
     (case FindCRLF (input_buffer c) of
        None \<Rightarrow> Inr c
      | Some crlf \<Rightarrow>
          let user = line_to crlf (input_buffer c)
          in bindr (send_local update write p (GetUser users user @ kCRLF) c) (\<lambda>c.
             Inr (Shutdown True (c\<lparr>input_buffer := RetrieveUntil (crlf + 2) (input_buffer c)\<rparr>))))"

section \<open>Echo over a connection\<close>

definition echo_callbacks :: "'p poll_op \<Rightarrow> (string \<Rightarrow> int + nat) \<Rightarrow> ptr \<Rightarrow> 'p user_callbacks" where
  "echo_callbacks update write p = \<lparr>connection_callback = Inr, message_callback = Echo_OnMessage update write p, conn_close_callback = Inr\<rparr>"

text \<open>The socket has data, which the kernel delivers in full, or can take some.\<close>

datatype echo_event = Echo_readable string timestamp "string \<Rightarrow> int + nat" | Echo_writable "string \<Rightarrow> int + nat"

fun echo_step :: "'p poll_op \<Rightarrow> ptr \<Rightarrow> 'p tcp_connection \<Rightarrow> echo_event \<Rightarrow> 'p tcp_connection result" where
  "echo_step update p c (Echo_readable ds t w) = HandleRead update (echo_callbacks update w p) True (\<lambda>_. Inr ds) t c"
| "echo_step update p c (Echo_writable w) = HandleWrite update w c"

fun echo_data :: "echo_event \<Rightarrow> string" where
  "echo_data (Echo_readable ds t w) = ds"
| "echo_data (Echo_writable w) = []"

fun echo_ok :: "echo_event \<Rightarrow> bool" where
  "echo_ok (Echo_readable ds t w) \<longleftrightarrow> 0 < length ds \<and> length ds \<le> extrabuf_size \<and> write_ok w"
| "echo_ok (Echo_writable w) \<longleftrightarrow> write_ok w"

section \<open>Lemmas\<close>

lemma RetrieveAllAsString_all:
  assumes "buffer_inv b"
  shows "\<exists>b'. RetrieveAllAsString b = Inr (content b, b') \<and> content b' = [] \<and> buffer_inv b' \<and> buf_bytes b' = buf_bytes b"
proof -
  from RetrieveAllAsString_ok [OF assms] obtain b' where b': "RetrieveAllAsString b = Inr (content b, b')" "content b' = []" by blast
  then have "b' = Retrieve (ReadableBytes b) b" by (auto simp: RetrieveAllAsString_def RetrieveAsString_def split: if_splits)
  with b' assms show ?thesis by (simp add: Retrieve_inv)
qed

lemma HandleWrite_input:
  assumes "HandleWrite update w c = Inr c'"
  shows "input_buffer c' = input_buffer c"
proof -
  obtain n e where w: "WriteFd w (output_buffer c) = (n, e)" by (cases "WriteFd w (output_buffer c)")
  define c1 where "c1 = c\<lparr>wire := wire c @ take (nat n) (content (output_buffer c)), output_buffer := Retrieve (nat n) (output_buffer c)\<rparr>"
  have c1: "input_buffer c1 = input_buffer c" by (simp add: c1_def)
  have "c' = c \<or> c' = c1 \<or> bindr (on_channel (DisableWriting update) c1) (\<lambda>c. let c = (if has_write_complete c then queue_task Task_write_complete c else c)
         in Inr (if conn_state c = kDisconnecting then ShutdownInLoop c else c)) = Inr c'"
    using assms by (auto simp: HandleWrite_def w Let_def c1_def [symmetric] split: if_splits)
  moreover have "input_buffer c' = input_buffer c" if "on_channel (DisableWriting update) c1 = Inr c2"
    "Inr c' = (let c = (if has_write_complete c2 then queue_task Task_write_complete c2 else c2) in (Inr (if conn_state c = kDisconnecting then ShutdownInLoop c else c) :: 'a tcp_connection result))" for c2
    using that on_channel_frame [OF that(1)] c1 by (auto simp: Let_def queue_task_def ShutdownInLoop_def split: if_splits)
  ultimately show ?thesis using c1 by (cases "on_channel (DisableWriting update) c1") auto
qed

context poller
begin

lemma conn_ok_other [simp]:
  "conn_ok (c\<lparr>input_buffer := b\<rparr>) = conn_ok c" "conn_ok (c\<lparr>events_seen := es\<rparr>) = conn_ok c" "conn_ok (c\<lparr>strings := st\<rparr>) = conn_ok c"
  by (simp_all add: conn_ok_def the_channel_def)

lemma send_local_ok:
  assumes "conn_ok c" and "Connected c" and "write_ok w" and "room (output_buffer c) (length s)"
  shows "\<exists>c'. send_local (update True) w p s c = Inr c' \<and> conn_ok c' \<and> Connected c' \<and> wire c' @ content (output_buffer c') = wire c @ content (output_buffer c) @ s
    \<and> input_buffer c' = input_buffer c \<and> write_shut c' = write_shut c
    \<and> length (buf_bytes (output_buffer c')) \<le> length (buf_bytes (output_buffer c)) + length s"
proof -
  let ?c = "c\<lparr>strings := (strings c)(p \<mapsto> s)\<rparr>"
  from SendInLoop_ok [of ?c w s] assms obtain c1 where c1: "SendInLoop (update True) w s ?c = Inr c1" "conn_ok c1" "conn_state c1 = kConnected"
    "wire c1 @ content (output_buffer c1) = wire c @ content (output_buffer c) @ s"
    "length (buf_bytes (output_buffer c1)) \<le> length (buf_bytes (output_buffer c)) + length s" by (auto simp: Connected_def)
  moreover from SendInLoop_frame [OF c1(1)] have "input_buffer c1 = input_buffer c" "write_shut c1 = write_shut c" by auto
  ultimately show ?thesis using assms(2) by (auto simp: send_local_def Send_string_def Connected_def)
qed

lemma send_and_shutdown:
  assumes "conn_ok c" and "Connected c" and "\<not> write_shut c" and "write_ok w" and "room (output_buffer c) (length s)"
  shows "\<exists>c1. send_local (update True) w p s c = Inr c1 \<and> input_buffer c1 = input_buffer c
    \<and> (\<forall>b. let c' = Shutdown True (c1\<lparr>input_buffer := b\<rparr>) in wire c' @ content (output_buffer c') = wire c @ content (output_buffer c) @ s
        \<and> conn_state c' = kDisconnecting \<and> (write_shut c' \<longleftrightarrow> content (output_buffer c') = []) \<and> input_buffer c' = b)"
proof -
  from send_local_ok [OF assms(1,2,4,5)] obtain c1 where "send_local (update True) w p s c = Inr c1" "conn_ok c1" "Connected c1"
    "wire c1 @ content (output_buffer c1) = wire c @ content (output_buffer c) @ s" "input_buffer c1 = input_buffer c" "write_shut c1 = write_shut c" by blast
  then show ?thesis using assms(3) by (auto simp: Let_def Shutdown_def SetState_def ShutdownInLoop_def Connected_def conn_ok_def the_channel_def)
qed

text \<open>A read: everything received is sent back and nothing stays in the input buffer.\<close>

definition echo_inv :: "nat \<Rightarrow> 'p tcp_connection \<Rightarrow> bool" where
  "echo_inv n c \<longleftrightarrow> conn_ok c \<and> Connected c \<and> buffer_inv (input_buffer c) \<and> content (input_buffer c) = []
     \<and> length (buf_bytes (input_buffer c)) + n \<le> vec_max \<and> length (buf_bytes (output_buffer c)) + n \<le> vec_max"

lemma echo_read:
  assumes "echo_inv (length ds + n) c" and "0 < length ds" and "length ds \<le> extrabuf_size" and "write_ok w"
  shows "\<exists>c'. HandleRead (update True) (echo_callbacks (update True) w p) True (\<lambda>_. Inr ds) t c = Inr c' \<and> echo_inv n c'
    \<and> wire c' @ content (output_buffer c') = wire c @ content (output_buffer c) @ ds"
proof -
  have len: "length ds < 2 ^ 31" using assms(3) by (simp add: extrabuf_size_def)
  have i: "conn_ok c" "Connected c" "buffer_inv (input_buffer c)" "content (input_buffer c) = []"
    and r: "room (input_buffer c) (length ds)" "room (output_buffer c) (length ds)" using assms(1) len by (auto simp: echo_inv_def room_def)
  have "length ds \<le> WritableBytes (input_buffer c) + (if WritableBytes (input_buffer c) < extrabuf_size then extrabuf_size else 0)" using assms(3) by auto
  from ReadFd_data [OF i(3) _ this r(1), of "\<lambda>_. Inr ds"] obtain b where b: "ReadFd (\<lambda>_. Inr ds) (input_buffer c) = Inr (b, int (length ds), None)" "buffer_inv b"
    "content b = ds" "length (buf_bytes b) \<le> length (buf_bytes (input_buffer c)) + length ds" using i(4) by auto
  let ?c = "saw Message_received (c\<lparr>input_buffer := b\<rparr>)"
  from RetrieveAllAsString_all [OF b(2)] b(3) obtain b' where b': "RetrieveAllAsString b = Inr (ds, b')" "content b' = []" "buffer_inv b'" "buf_bytes b' = buf_bytes b" by auto
  have "conn_ok (?c\<lparr>input_buffer := b'\<rparr>)" "Connected (?c\<lparr>input_buffer := b'\<rparr>)" "room (output_buffer (?c\<lparr>input_buffer := b'\<rparr>)) (length ds)"
    using i(1,2) r(2) by (simp_all add: saw_def Connected_def)
  from send_local_ok [OF this(1,2) assms(4) this(3), of p] obtain c' where c': "send_local (update True) w p ds (?c\<lparr>input_buffer := b'\<rparr>) = Inr c'" "conn_ok c'" "Connected c'"
    "wire c' @ content (output_buffer c') = wire c @ content (output_buffer c) @ ds" "input_buffer c' = b'"
    "length (buf_bytes (output_buffer c')) \<le> length (buf_bytes (output_buffer c)) + length ds" by (auto simp: saw_def)
  have "HandleRead (update True) (echo_callbacks (update True) w p) True (\<lambda>_. Inr ds) t c = Inr c'"
    using assms(2) b(1) b'(1) c'(1) by (simp add: HandleRead_def echo_callbacks_def Echo_OnMessage_def saw_def)
  moreover have "echo_inv n c'" using c' b' b(4) assms(1) by (simp add: echo_inv_def)
  ultimately show ?thesis using c'(4) by blast
qed

lemma echo_run:
  assumes "echo_inv (length (concat (map echo_data evs))) c" and "list_all echo_ok evs"
  shows "\<exists>c'. foldr_result (echo_step (update True) p) c evs = Inr c' \<and> echo_inv 0 c'
    \<and> wire c' @ content (output_buffer c') = wire c @ content (output_buffer c) @ concat (map echo_data evs)"
  using assms
proof (induction evs arbitrary: c)
  case (Cons ev evs)
  let ?n = "length (concat (map echo_data evs))"
  have "\<exists>c1. echo_step (update True) p c ev = Inr c1 \<and> echo_inv ?n c1 \<and> wire c1 @ content (output_buffer c1) = wire c @ content (output_buffer c) @ echo_data ev"
  proof (cases ev)
    case (Echo_readable ds t w)
    then show ?thesis using echo_read [of ds ?n c w p t] Cons.prems by simp
  next
    case (Echo_writable w)
    have ok: "conn_ok c" "write_ok w" using Cons.prems Echo_writable by (simp_all add: echo_inv_def)
    from HandleWrite_ok [OF this] obtain c1 where c1: "HandleWrite (update True) w c = Inr c1" "conn_ok c1" "conn_state c1 = conn_state c"
      "wire c1 @ content (output_buffer c1) = wire c @ content (output_buffer c)" "buf_bytes (output_buffer c1) = buf_bytes (output_buffer c)" by blast
    have "input_buffer c1 = input_buffer c" using HandleWrite_input [OF c1(1)] .
    then show ?thesis using c1 Cons.prems(1) Echo_writable by (simp add: echo_inv_def Connected_def)
  qed
  then obtain c1 where c1: "echo_step (update True) p c ev = Inr c1" "echo_inv ?n c1" "wire c1 @ content (output_buffer c1) = wire c @ content (output_buffer c) @ echo_data ev" by blast
  from Cons.IH [OF c1(2)] Cons.prems(2) obtain c' where "foldr_result (echo_step (update True) p) c1 evs = Inr c'" "echo_inv 0 c'"
    "wire c' @ content (output_buffer c') = wire c1 @ content (output_buffer c1) @ concat (map echo_data evs)" by auto
  then show ?case using c1 by (auto simp: append_assoc [symmetric] simp del: append_assoc)
qed simp

end

text \<open>The lines of the character generator.\<close>

lemma length_concat_same: "(\<And>x. x \<in> set xs \<Longrightarrow> length (f x) = n) \<Longrightarrow> length (concat (map f xs)) = length xs * n"
  by (induction xs) simp_all

lemma length_chargen_message: "length chargen_message = 94 * 73"
proof -
  have "length (concat (map (\<lambda>i. take 72 (drop i (map char_of [33..<127 :: nat] @ map char_of [33..<127])) @ [CHR 0x0A]) [0..<127 - 33])) = length [0..<127 - 33 :: nat] * 73"
    by (rule length_concat_same) auto
  then show ?thesis unfolding chargen_message_def Let_def by (rule trans) simp
qed

section \<open>Properties\<close>

text \<open>
  Property C18. The echo server returns what it receives. On an established connection of the epoll poller, for every sequence of reads of at most 64 KiB and
  writable events, with a kernel that takes any part of what it is offered: no operation fails, and what was taken
  and what waits in the output buffer is exactly everything received, in order; nothing stays in the input buffer.
\<close>

theorem echo_returns_stream:
  assumes "epoll.conn_ok c" and "Connected c" and "buffer_inv (input_buffer c)" and "content (input_buffer c) = []" and "list_all echo_ok evs"
    and "length (buf_bytes (input_buffer c)) + length (concat (map echo_data evs)) \<le> vec_max"
    and "length (buf_bytes (output_buffer c)) + length (concat (map echo_data evs)) \<le> vec_max"
  shows "\<exists>c'. foldr_result (echo_step (Epoll_UpdateChannel True) p) c evs = Inr c' \<and> Connected c' \<and> content (input_buffer c') = []
    \<and> wire c' @ content (output_buffer c') = wire c @ content (output_buffer c) @ concat (map echo_data evs)"
proof -
  have "epoll.echo_inv (length (concat (map echo_data evs))) c" using assms by (simp add: epoll.echo_inv_def)
  from epoll.echo_run [OF this assms(5)] show ?thesis by (auto simp: epoll.echo_inv_def)
qed

lemma example_input [simp]: "input_buffer (example_conn out) = default_buffer"
  by (simp add: example_conn_def TcpConnection_new_def Let_def)

theorem echo_returns_stream_witness:
  "\<exists>c'. foldr_result (echo_step (Epoll_UpdateChannel True) 9) (example_conn [])
      [Echo_readable ''hello'' (Timestamp 1) (\<lambda>d. Inr (min 2 (length d))), Echo_readable ''world'' (Timestamp 2) (\<lambda>d. Inl 11), Echo_writable (\<lambda>d. Inr (length d))] = Inr c'
    \<and> wire c' @ content (output_buffer c') = ''helloworld''"
proof -
  let ?evs = "[Echo_readable ''hello'' (Timestamp 1) (\<lambda>d. Inr (min 2 (length d))), Echo_readable ''world'' (Timestamp 2) (\<lambda>d. Inl 11), Echo_writable (\<lambda>d. Inr (length d))]"
  have "list_all echo_ok ?evs" by (simp add: write_ok_def EPIPE_def ECONNRESET_def extrabuf_size_def)
  moreover have "length (buf_bytes (buffer_of [])) + 10 \<le> vec_max" by (simp add: buffer_of_def vec_max_def)
  ultimately show ?thesis
    using echo_returns_stream [OF example_conn_ok [of "[]"], of ?evs 9]
    by (auto simp: Connected_def default_buffer_inv default_buffer_sizes vec_max_def)
qed

text \<open>
  The one-shot services answer once and close. On an established connection: the time server sends the four bytes of the
  time in network order; the daytime server sends the formatted time and a newline; the finger server, once the input holds a line, sends the entry of that user or
  \<open>No such user\<close> and takes the line off the input. Each of them then shuts down, at once if everything was taken and after the rest of the output otherwise. The text
  of the character generator has 94 lines of 72 characters.
\<close>

theorem simple_services:
  assumes "epoll.conn_ok c" and "Connected c" and "\<not> write_shut c" and "content (output_buffer c) = []" and "wire c = []" and "write_ok w"
    and "length (buf_bytes (output_buffer c)) + length (GetUser users user) + 100 \<le> vec_max" and "length (GetUser users user) < 2 ^ 30"
    and "buffer_inv (input_buffer c)" and "content (input_buffer c) = user @ kCRLF @ rest" and "CR \<notin> set user"
  shows "(\<exists>c'. Time_OnConnection (Epoll_UpdateChannel True) w p now c = Inr c' \<and> wire c' @ content (output_buffer c') = be_bytes 4 (unat (word_of_int now :: 32 word))
        \<and> conn_state c' = kDisconnecting \<and> (write_shut c' \<longleftrightarrow> content (output_buffer c') = []))
    \<and> (\<exists>c'. Daytime_OnConnection (Epoll_UpdateChannel True) w p localtime ts c = Inr c'
        \<and> wire c' @ content (output_buffer c') = Timestamp_ToFormattedString localtime False ts @ [CHR 0x0A]
        \<and> conn_state c' = kDisconnecting \<and> (write_shut c' \<longleftrightarrow> content (output_buffer c') = []))
    \<and> (\<exists>c'. Finger_OnMessage (Epoll_UpdateChannel True) w p users t c = Inr c' \<and> wire c' @ content (output_buffer c') = GetUser users user @ kCRLF
        \<and> content (input_buffer c') = rest \<and> conn_state c' = kDisconnecting \<and> (write_shut c' \<longleftrightarrow> content (output_buffer c') = []))
    \<and> length chargen_message = 94 * 73"
proof -
  have answer: "\<exists>c1. send_local (Epoll_UpdateChannel True) w p s c = Inr c1 \<and> input_buffer c1 = input_buffer c
    \<and> (\<forall>b. let c' = Shutdown True (c1\<lparr>input_buffer := b\<rparr>) in wire c' @ content (output_buffer c') = s
        \<and> conn_state c' = kDisconnecting \<and> (write_shut c' \<longleftrightarrow> content (output_buffer c') = []) \<and> input_buffer c' = b)"
    if "length s \<le> length (GetUser users user) + 100" for s
    using epoll.send_and_shutdown [OF assms(1-3,6), of s p] that assms(4,5,7,8) by (simp add: room_def)
  have same: "c1\<lparr>input_buffer := input_buffer c1\<rparr> = c1" for c1 :: "epoll_poller tcp_connection" by (cases c1) simp
  have once: "\<exists>c1. send_local (Epoll_UpdateChannel True) w p s c = Inr c1 \<and> wire (Shutdown True c1) @ content (output_buffer (Shutdown True c1)) = s
      \<and> conn_state (Shutdown True c1) = kDisconnecting \<and> (write_shut (Shutdown True c1) \<longleftrightarrow> content (output_buffer (Shutdown True c1)) = [])"
    if "length s \<le> length (GetUser users user) + 100" for s
  proof -
    from answer [OF that] obtain c1 where c1: "send_local (Epoll_UpdateChannel True) w p s c = Inr c1"
      "\<And>b. let c' = Shutdown True (c1\<lparr>input_buffer := b\<rparr>) in wire c' @ content (output_buffer c') = s
        \<and> conn_state c' = kDisconnecting \<and> (write_shut c' \<longleftrightarrow> content (output_buffer c') = []) \<and> input_buffer c' = b" by blast
    from c1(2) [of "input_buffer c1"] c1(1) show ?thesis unfolding same Let_def by blast
  qed
  have time: "\<exists>c'. Time_OnConnection (Epoll_UpdateChannel True) w p now c = Inr c' \<and> wire c' @ content (output_buffer c') = be_bytes 4 (unat (word_of_int now :: 32 word))
      \<and> conn_state c' = kDisconnecting \<and> (write_shut c' \<longleftrightarrow> content (output_buffer c') = [])"
  proof -
    let ?s = "le_bytes 4 (unat (HostToNetwork32 (word_of_int now)))"
    have "?s = be_bytes 4 (unat (word_of_int now :: 32 word))" by (simp add: unat_HostToNetwork le_bytes_byte_swap)
    moreover have "length ?s \<le> length (GetUser users user) + 100" unfolding length_le_bytes by simp
    note once [OF this]
    moreover have "Time_OnConnection (Epoll_UpdateChannel True) w p now c = bindr (send_local (Epoll_UpdateChannel True) w p ?s c) (\<lambda>c. Inr (Shutdown True c))"
      unfolding Time_OnConnection_def Send_data_def send_local_def Let_def using assms(2) by (rule if_P)
    ultimately show ?thesis by force
  qed
  have daytime: "\<exists>c'. Daytime_OnConnection (Epoll_UpdateChannel True) w p localtime ts c = Inr c'
      \<and> wire c' @ content (output_buffer c') = Timestamp_ToFormattedString localtime False ts @ [CHR 0x0A]
      \<and> conn_state c' = kDisconnecting \<and> (write_shut c' \<longleftrightarrow> content (output_buffer c') = [])"
  proof -
    let ?s = "Timestamp_ToFormattedString localtime False ts @ [CHR 0x0A]"
    have "length ?s \<le> 64" by (simp add: Timestamp_ToFormattedString_def snprintf_buf_def Let_def)
    then have "length ?s \<le> length (GetUser users user) + 100" by simp
    note once [OF this]
    moreover have "Daytime_OnConnection (Epoll_UpdateChannel True) w p localtime ts c = bindr (send_local (Epoll_UpdateChannel True) w p ?s c) (\<lambda>c. Inr (Shutdown True c))"
      unfolding Daytime_OnConnection_def using assms(2) by (rule if_P)
    ultimately show ?thesis by force
  qed
  have finger: "\<exists>c'. Finger_OnMessage (Epoll_UpdateChannel True) w p users t c = Inr c' \<and> wire c' @ content (output_buffer c') = GetUser users user @ kCRLF
      \<and> content (input_buffer c') = rest \<and> conn_state c' = kDisconnecting \<and> (write_shut c' \<longleftrightarrow> content (output_buffer c') = [])"
  proof -
    let ?s = "GetUser users user @ kCRLF" and ?b = "RetrieveUntil (reader_index (input_buffer c) + length user + 2) (input_buffer c)"
    have "std_search kCRLF (content (input_buffer c)) = Some (length user)" using std_search_kCRLF [OF assms(11)] assms(10) by simp
    note line = FindCRLF_content [OF assms(9) this]
    have "length ?s \<le> length (GetUser users user) + 100" by (simp add: kCRLF_def)
    from answer [OF this] obtain c1 where "send_local (Epoll_UpdateChannel True) w p ?s c = Inr c1" "input_buffer c1 = input_buffer c"
      "let c' = Shutdown True (c1\<lparr>input_buffer := ?b\<rparr>) in wire c' @ content (output_buffer c') = ?s
        \<and> conn_state c' = kDisconnecting \<and> (write_shut c' \<longleftrightarrow> content (output_buffer c') = []) \<and> input_buffer c' = ?b" by blast
    then show ?thesis using line assms(10) by (simp add: Finger_OnMessage_def Let_def)
  qed
  show ?thesis by (rule conjI [OF time conjI [OF daytime conjI [OF finger length_chargen_message]]])
qed

theorem simple_services_witness:
  "\<exists>c'. Finger_OnMessage (Epoll_UpdateChannel True) (\<lambda>d. Inr (length d)) 9 [''ryan'' \<mapsto> ''Happy and well''] (Timestamp 1) ((example_conn [])\<lparr>input_buffer := buffer_of (''ryan'' @ kCRLF)\<rparr>) = Inr c'
    \<and> wire c' @ content (output_buffer c') = ''Happy and well'' @ kCRLF"
proof -
  let ?c = "(example_conn [])\<lparr>input_buffer := buffer_of (''ryan'' @ kCRLF)\<rparr>" and ?u = "[''ryan'' \<mapsto> ''Happy and well'']"
  have c: "epoll.conn_ok ?c" using example_conn_ok [of "[]"] by (simp add: epoll.conn_ok_def the_channel_def)
  have b: "buffer_inv (input_buffer ?c)" using buffer_inv_buffer_of [of "''ryan'' @ kCRLF"] by simp
  have "Connected ?c" "\<not> write_shut ?c" "content (output_buffer ?c) = []" "wire ?c = []" "content (input_buffer ?c) = ''ryan'' @ kCRLF @ []" "CR \<notin> set ''ryan''"
    "length (buf_bytes (output_buffer ?c)) + length (GetUser ?u ''ryan'') + 100 \<le> vec_max" "length (GetUser ?u ''ryan'') < 2 ^ 30" "write_ok (\<lambda>d. Inr (length d))"
    by (simp_all add: Connected_def CR_def GetUser_def buffer_of_def vec_max_def write_ok_def content_def slice_def)
  from simple_services [OF c this(1-4) this(9,7,8) b this(5,6), of 9 0 undefined undefined "Timestamp 1"] show ?thesis by (auto simp: GetUser_def)
qed

end
