(* ===== verification/Printers.thy ===== *)
theory Printers
  imports Net_Prelude "HOL-Library.Multiset"
begin

text \<open>
  \<open>examples/timer/timer3\<close> to \<open>timer6\<close>: functions that print a counter, set a timer for their next call and quit their loop in the end. In \<open>timer3\<close> and \<open>timer4\<close> one loop does
  so alone; in \<open>timer5\<close> and \<open>timer6\<close> two loops share the counter under a mutex, and \<open>timer6\<close> prints outside of it. The loops and their timers are those
  of \<open>Event_Loop\<close> and \<open>Timer_Queue\<close>; here a timer that is set is one that may fire.
\<close>

section \<open>One loop\<close>

record printer =
  pr_count :: int
  pr_printed :: "int list"
  pr_armed :: bool          \<comment> \<open>a call is due after one second\<close>
  pr_quit :: bool

definition Printer_new :: printer where
  "Printer_new = \<lparr>pr_count = 0, pr_printed = [], pr_armed = True, pr_quit = False\<rparr>"

definition Print :: "printer \<Rightarrow> printer" where
  "Print s =
     (if pr_count s < 5 then s\<lparr>pr_printed := pr_printed s @ [pr_count s], pr_count := pr_count s + 1, pr_armed := True\<rparr>
      else s\<lparr>pr_quit := True\<rparr>)"

text \<open>The loop calls \<open>Print\<close> when the timer fires, until \<open>Quit\<close>; a loop with no timer set would wait forever.\<close>

partial_function (option) run_printer :: "printer \<Rightarrow> printer option" where
  "run_printer s = (if pr_quit s then Some s else if pr_armed s then run_printer (Print (s\<lparr>pr_armed := False\<rparr>)) else None)"

section \<open>Two loops\<close>

text \<open>Where a loop is: it waits for its timer, it is behind the critical section and has to print a number or to quit, or it has quit.\<close>

datatype loop_at = Waiting | Printing int | Quitting | Quit_called

record printers =
  ps_count :: int
  ps_printed :: "(bool \<times> int) list"     \<comment> \<open>\<open>False\<close> is timer 1, \<open>True\<close> timer 2\<close>
  ps_at :: "bool \<Rightarrow> loop_at"

definition Printers_new :: printers where
  "Printers_new = \<lparr>ps_count = 0, ps_printed = [], ps_at = (\<lambda>_. Waiting)\<rparr>"

text \<open>\<open>timer5\<close>: all of \<open>Print1\<close> and \<open>Print2\<close> is in the critical section.\<close>

definition Print_locked :: "bool \<Rightarrow> printers \<Rightarrow> printers" where
  "Print_locked i s =
     (if ps_count s < 10 then s\<lparr>ps_printed := ps_printed s @ [(i, ps_count s)], ps_count := ps_count s + 1, ps_at := (ps_at s)(i := Waiting)\<rparr>
      else s\<lparr>ps_at := (ps_at s)(i := Quit_called)\<rparr>)"

inductive step5 :: "printers \<Rightarrow> printers \<Rightarrow> bool" where
  Fire5: "ps_at s i = Waiting \<Longrightarrow> step5 s (Print_locked i s)"

text \<open>\<open>timer6\<close>: the critical section takes a number, and the rest of the function uses it.\<close>

definition take_number :: "bool \<Rightarrow> printers \<Rightarrow> printers" where
  "take_number i s =
     (if ps_count s < 10 then s\<lparr>ps_count := ps_count s + 1, ps_at := (ps_at s)(i := Printing (ps_count s))\<rparr>
      else s\<lparr>ps_at := (ps_at s)(i := Quitting)\<rparr>)"

definition after_lock :: "bool \<Rightarrow> printers \<Rightarrow> printers" where
  "after_lock i s =
     (case ps_at s i of
        Quitting \<Rightarrow> s\<lparr>ps_at := (ps_at s)(i := Quit_called)\<rparr>
      | Printing n \<Rightarrow> s\<lparr>ps_printed := ps_printed s @ [(i, n)], ps_at := (ps_at s)(i := Waiting)\<rparr>
      | _ \<Rightarrow> s)"

inductive step6 :: "printers \<Rightarrow> printers \<Rightarrow> bool" where
  Fire6: "ps_at s i = Waiting \<Longrightarrow> step6 s (take_number i s)"
| Rest6: "ps_at s i = Quitting \<or> ps_at s i = Printing n \<Longrightarrow> step6 s (after_lock i s)"

inductive reach5 :: "printers \<Rightarrow> bool" where
  Init5: "reach5 Printers_new"
| Step5: "reach5 s \<Longrightarrow> step5 s s' \<Longrightarrow> reach5 s'"

inductive reach6 :: "printers \<Rightarrow> bool" where
  Init6: "reach6 Printers_new"
| Step6: "reach6 s \<Longrightarrow> step6 s s' \<Longrightarrow> reach6 s'"

section \<open>Lemmas\<close>

text \<open>The numbers taken and not yet printed.\<close>

definition in_flight :: "printers \<Rightarrow> int multiset" where
  "in_flight s = (\<Sum>i\<in>#{#False, True#}. case ps_at s i of Printing n \<Rightarrow> {#n#} | _ \<Rightarrow> {#})"

definition inv6 :: "printers \<Rightarrow> bool" where
  "inv6 s \<longleftrightarrow> 0 \<le> ps_count s \<and> ps_count s \<le> 10 \<and> mset (map snd (ps_printed s)) + in_flight s = mset [0..ps_count s - 1]
     \<and> (\<forall>i. ps_at s i \<in> {Quitting, Quit_called} \<longrightarrow> ps_count s = 10)"

lemma upto_extend: "0 \<le> (n :: int) \<Longrightarrow> [0..n] = [0..n - 1] @ [n]"
  by (rule upto_rec2) simp

lemma inv6_step:
  assumes "step6 s s'" and "inv6 s"
  shows "inv6 s'"
  using assms(1)
proof cases
  case (Fire6 i)
  then show ?thesis using assms(2) upto_extend [of "ps_count s"]
    by (cases i) (auto simp: inv6_def take_number_def in_flight_def split: loop_at.splits)
next
  case (Rest6 i n)
  then show ?thesis using assms(2)
    by (cases i) (auto simp: inv6_def after_lock_def in_flight_def add_ac split: loop_at.splits)
qed

lemma inv6_reach: "reach6 s \<Longrightarrow> inv6 s"
proof (induction rule: reach6.induct)
  case Init6
  then show ?case by (simp add: inv6_def Printers_new_def in_flight_def)
qed (rule inv6_step)

definition inv5 :: "printers \<Rightarrow> bool" where
  "inv5 s \<longleftrightarrow> 0 \<le> ps_count s \<and> ps_count s \<le> 10 \<and> map snd (ps_printed s) = [0..ps_count s - 1] \<and> (\<forall>i. ps_at s i = Waiting \<or> ps_at s i = Quit_called \<and> ps_count s = 10)"

lemma inv5_step:
  assumes "step5 s s'" and "inv5 s"
  shows "inv5 s'"
  using assms(1)
proof cases
  case (Fire5 i)
  show ?thesis
  proof (cases "ps_count s < 10")
    case True
    then have "ps_at s j = Waiting" for j using assms(2) unfolding inv5_def by (metis less_irrefl)
    then show ?thesis using Fire5 True assms(2) upto_extend [of "ps_count s"] by (simp add: inv5_def Print_locked_def)
  next
    case False
    then show ?thesis using Fire5 assms(2) by (auto simp: inv5_def Print_locked_def)
  qed
qed

lemma inv5_reach: "reach5 s \<Longrightarrow> inv5 s"
proof (induction rule: reach5.induct)
  case Init5
  then show ?case by (simp add: inv5_def Printers_new_def)
qed (rule inv5_step)

text \<open>Every step brings both programs closer to their end.\<close>

fun rank :: "loop_at \<Rightarrow> nat" where
  "rank (Printing n) = 3"
| "rank Waiting = 2"
| "rank Quitting = 1"
| "rank Quit_called = 0"

definition todo :: "printers \<Rightarrow> nat" where
  "todo s = 3 * nat (10 - ps_count s) + rank (ps_at s False) + rank (ps_at s True)"

lemma step5_todo: "step5 s s' \<Longrightarrow> todo s' < todo s"
proof (induction rule: step5.induct)
  case (Fire5 s i)
  then show ?case by (cases i) (auto simp: todo_def Print_locked_def)
qed

lemma step6_todo: "step6 s s' \<Longrightarrow> todo s' < todo s"
proof (induction rule: step6.induct)
  case (Fire6 s i)
  then show ?case by (cases i) (auto simp: todo_def take_number_def)
next
  case (Rest6 s i n)
  then show ?case by (cases i) (auto simp: todo_def after_lock_def)
qed

lemma wf_runs: "wfP (\<lambda>s' s. step5 s s')" "wfP (\<lambda>s' s. step6 s s')"
proof -
  have "wfP (\<lambda>s' s. todo s' < todo s)" by (rule wfp_if_convertible_to_nat [of _ todo]) simp
  then show "wfP (\<lambda>s' s. step5 s s')" "wfP (\<lambda>s' s. step6 s s')"
    by (rule wfp_subset, use step5_todo step6_todo in blast)+
qed

lemma stuck5:
  assumes "inv5 s" and "\<forall>s'. \<not> step5 s s'"
  shows "ps_at s i = Quit_called" "ps_count s = 10"
proof -
  have "ps_at s i \<noteq> Waiting" for i using assms(2) Fire5 by blast
  then show "ps_at s i = Quit_called" "ps_count s = 10" using assms(1) unfolding inv5_def by blast+
qed

lemma stuck6: "\<forall>s'. \<not> step6 s s' \<Longrightarrow> ps_at s i = Quit_called"
  using Fire6 [of s i] Rest6 [of s i] by (cases "ps_at s i") auto

lemma run_printer_result: "run_printer Printer_new = Some \<lparr>pr_count = 5, pr_printed = [0, 1, 2, 3, 4], pr_armed = False, pr_quit = True\<rparr>"
  by (simp add: Printer_new_def run_printer.simps Print_def)

section \<open>Properties\<close>

text \<open>
  Property C40. The printers print every number once and end. The single printer prints 0 to 4 and then its loop ends. With two loops and a shared counter, in every
  interleaving: when everything is done under the mutex, the numbers printed so far are an initial part of 0 to 9, in order; when only the
  counter is protected, they are distinct numbers of that range, in any order. Every run is finite, and when no step is left, both loops have quit and every number from 0 to 9 was printed exactly once.
\<close>

theorem printers_print_once:
  assumes "reach5 s" and "reach6 t"
  shows "map snd (ps_printed s) = [0..ps_count s - 1] \<and> ps_count s \<le> 10
    \<and> ((\<forall>s'. \<not> step5 s s') \<longrightarrow> map snd (ps_printed s) = [0..9] \<and> (\<forall>i. ps_at s i = Quit_called))
    \<and> distinct (map snd (ps_printed t)) \<and> set (map snd (ps_printed t)) \<subseteq> {0..9}
    \<and> ((\<forall>t'. \<not> step6 t t') \<longrightarrow> mset (map snd (ps_printed t)) = mset [0..9] \<and> (\<forall>i. ps_at t i = Quit_called))
    \<and> wfP (\<lambda>s' s. step5 s s') \<and> wfP (\<lambda>t' t. step6 t t')
    \<and> run_printer Printer_new = Some \<lparr>pr_count = 5, pr_printed = [0, 1, 2, 3, 4], pr_armed = False, pr_quit = True\<rparr>"
proof -
  note i5 = inv5_reach [OF assms(1)] and i6 = inv6_reach [OF assms(2)]
  have "map snd (ps_printed s) = [0..9]" if "\<forall>s'. \<not> step5 s s'" using i5 stuck5 [OF i5 that] by (simp add: inv5_def)
  moreover have sub: "mset (map snd (ps_printed t)) \<subseteq># mset [0..ps_count t - 1]" using i6 unfolding inv6_def by (metis mset_subset_eq_add_left)
  have "distinct (map snd (ps_printed t))"
  proof -
    have "count (mset (map snd (ps_printed t))) x \<le> 1" for x
      using mset_subset_eq_count [OF sub, of x] distinct_count_atmost_1 [of "[0..ps_count t - 1]"] by (auto split: if_splits)
    then show ?thesis by (metis distinct_count_atmost_1 le_neq_implies_less less_one not_in_iff count_greater_zero_iff set_mset_mset)
  qed
  moreover have "set (map snd (ps_printed t)) \<subseteq> {0..9}" using set_mset_mono [OF sub] i6 by (auto simp: inv6_def)
  moreover have "mset (map snd (ps_printed t)) = mset [0..9]" if "\<forall>t'. \<not> step6 t t'"
    using i6 stuck6 [OF that] by (auto simp: inv6_def in_flight_def)
  ultimately show ?thesis using i5 stuck5 [OF i5] stuck6 wf_runs run_printer_result by (simp add: inv5_def)
qed

theorem printers_print_once_witness:
  "\<exists>t. reach6 t \<and> ps_printed t = [(True, 1), (False, 0)] \<and> distinct (map snd (ps_printed t)) \<and> set (map snd (ps_printed t)) \<subseteq> {0..9}"
proof -
  let ?t1 = "take_number True (take_number False Printers_new)" and ?t2 = "after_lock False (after_lock True (take_number True (take_number False Printers_new)))"
  have "reach6 (take_number False Printers_new)" by (rule Step6 [OF Init6 Fire6]) (simp add: Printers_new_def)
  then have "reach6 ?t1" by (rule Step6 [OF _ Fire6]) (simp add: Printers_new_def take_number_def)
  then have "reach6 (after_lock True ?t1)" by (rule Step6 [OF _ Rest6 [where n = 1]]) (simp add: Printers_new_def take_number_def)
  then have t2: "reach6 ?t2" by (rule Step6 [OF _ Rest6 [where n = 0]]) (simp add: Printers_new_def take_number_def after_lock_def)
  moreover have "ps_printed ?t2 = [(True, 1), (False, 0)]" by (simp add: Printers_new_def take_number_def after_lock_def)
  ultimately show ?thesis using printers_print_once [OF Init5 t2] by blast
qed

end
