(* ===== verification/Weak_Callback.thy ===== *)
theory Weak_Callback
  imports Tcp_Connection
begin

text \<open>
  \<open>base/weak_callback.h\<close>, a callback that does not keep its object alive, with its use in \<open>TcpConnection::ForceCloseWithDelay\<close>, and \<open>base/current_thread.{h,cc}\<close>,
  the cached thread id. The objects that are alive are a map from addresses; \<open>gettid\<close> and \<open>getpid\<close> are the kernel's answers.
\<close>

section \<open>WeakCallback\<close>

record 'o weak_callback =
  wc_object :: ptr
  wc_function :: "'o \<Rightarrow> 'o"

definition MakeWeakCallback :: "ptr \<Rightarrow> ('o \<Rightarrow> 'o) \<Rightarrow> 'o weak_callback" where
  "MakeWeakCallback object function = \<lparr>wc_object = object, wc_function = function\<rparr>"

definition WeakCallback_call :: "'o weak_callback \<Rightarrow> (ptr \<rightharpoonup> 'o) \<Rightarrow> ptr \<rightharpoonup> 'o" where
  "WeakCallback_call cb heap =
     (case heap (wc_object cb) of None \<Rightarrow> heap | Some obj \<Rightarrow> heap(wc_object cb \<mapsto> wc_function cb obj))"

section \<open>Closing after a delay\<close>

text \<open>What \<open>ForceCloseWithDelay\<close> gives to \<open>RunAfter\<close>: the timers that are set, each with its delay and its callback.\<close>

definition delayed_close :: "ptr \<Rightarrow> rat \<Rightarrow> 'p tcp_connection \<Rightarrow> (rat \<times> 'p tcp_connection weak_callback) list \<times> 'p tcp_connection" where
  "delayed_close self seconds c =
     (if conn_state c = kConnected \<or> conn_state c = kDisconnecting
      then ([(seconds, MakeWeakCallback self ForceClose)], SetState kDisconnecting c) else ([], c))"

text \<open>The connection at the address is closed by the timer if it still exists, and a timer of a destroyed connection does nothing.\<close>

lemma delayed_close_fires:
  assumes "delayed_close self seconds c = ([(d, cb)], c')" and "heap self = Some c'"
  shows "\<exists>c''. WeakCallback_call cb heap = heap(self \<mapsto> c'') \<and> conn_tasks c'' = conn_tasks c @ [Task_force_close] \<and> conn_state c'' = kDisconnecting"
    "WeakCallback_call cb (heap(self := None)) = heap(self := None)"
  using assms by (auto simp: delayed_close_def MakeWeakCallback_def WeakCallback_call_def ForceClose_def SetState_def split: if_splits)

section \<open>Thread ids\<close>

definition CacheTid :: "int \<Rightarrow> int \<Rightarrow> int" where
  "CacheTid gettid t_cached_tid = (if t_cached_tid = 0 then gettid else t_cached_tid)"

text \<open>The id and the cache after the call.\<close>

definition Tid :: "int \<Rightarrow> int \<Rightarrow> int \<times> int" where
  "Tid gettid t_cached_tid = (let t_cached_tid = (if t_cached_tid = 0 then CacheTid gettid t_cached_tid else t_cached_tid) in (t_cached_tid, t_cached_tid))"

definition IsMainThread :: "int \<Rightarrow> int \<Rightarrow> int \<Rightarrow> bool \<times> int" where
  "IsMainThread gettid getpid t_cached_tid = (let (tid, t_cached_tid) = Tid gettid t_cached_tid in (tid = getpid, t_cached_tid))"

lemma Tid_is_gettid:
  assumes "t_cached_tid = 0 \<or> t_cached_tid = gettid"
  shows "Tid gettid t_cached_tid = (gettid, gettid)" "IsMainThread gettid getpid t_cached_tid = (gettid = getpid, gettid)"
  using assms by (auto simp: Tid_def CacheTid_def IsMainThread_def)

end
