(* ===== verification/Spec2Isabelle.thy ===== *)
theory Spec2Isabelle
  imports Short_Url Logging Log_File Async_Logging Memory_Pool Mysql_Conn_Pool Mysql_Conn Idle_Connection Sudoku_Server File_Transfer Simple_Servers
    Printers Weak_Callback
begin

text \<open>
  A verification development for RyanNetworkLibrary, a multi-threaded reactor library in C++ (\<open>src/ryan_network\<close>): an event loop per
  thread, timers, TCP connections and a server on top of it, an HTTP server, an asynchronous logger, a memory pool and a pool of MySQL
  connections.

  \<^bold>\<open>How the parts work together.\<close> An \<open>EventLoop\<close> waits in its \<open>Poller\<close> (epoll or poll) for the \<open>Channel\<close>s that
  watch descriptors, calls their handlers, and then runs the functors other threads queued; an \<open>eventfd\<close> wakes it. The
  \<open>TimerQueue\<close> is one of its channels. A \<open>TcpServer\<close> accepts connections through its \<open>Acceptor\<close> in the main loop and deals
  them out to the loops of an \<open>EventLoopThreadPool\<close>; a \<open>TcpConnection\<close> moves bytes between its socket and its two
  \<open>Buffer\<close>s. \<open>HttpServer\<close> parses requests from the input buffer with an \<open>HttpContext\<close> and sends an \<open>HttpResponse\<close>. Log
  statements format into a \<open>LogStream\<close>; \<open>AsyncLogging\<close> collects their output and writes it through a \<open>LogFile\<close>.

  \<^bold>\<open>Theories.\<close>
  \<^item> \<open>Net_Prelude\<close>: results and errors, machine integers, the list functions behind the C++ algorithms, decimal text.
  \<^item> \<open>Endian\<close>, \<open>Buffer\<close> (\<open>net/endian.h\<close>, \<open>buffer/buffer.{h,cc}\<close>): byte order and the growing byte buffer. Runs of the buffer
    refine a byte queue; integers written are read back; \<open>ReadFd\<close> appends what was received; the narrowing of lengths to \<open>int\<close>.
  \<^item> \<open>Timestamp\<close> (\<open>base/timestamp.{h,cc}\<close>), \<open>Timer_Queue\<close> (\<open>timer/\<close>): time as a linear order; the sorted timer set, its handler and the
    kernel timer. The locale \<open>timer_callbacks\<close> is what the queue assumes of the callbacks; it is interpreted on callbacks that
    add timers.
  \<^item> \<open>Http_Request\<close>, \<open>Http_Context\<close>, \<open>Http_Response\<close>, \<open>Http_Server\<close> (\<open>http/\<close>): requests, the parser, responses, the message handler.
  \<^item> \<open>Channel\<close>, \<open>Poller\<close> (\<open>net/channel\<close>, \<open>net/poller\<close>, \<open>net/epoll_poller\<close>, \<open>net/poll_poller\<close>): channels in a store, both pollers with
    their assertions. The locale \<open>poller\<close> is the contract the connections rely on, interpreted on both.
  \<^item> \<open>Event_Loop\<close>, \<open>Event_Loop_Threads\<close>, \<open>Thread_Pool\<close> (\<open>net/event_loop\<close>, \<open>net/event_loop_thread\<close>, \<open>net/event_loop_thread_pool\<close>, \<open>base/thread\<close>,
    \<open>base/count_down_latch\<close>, \<open>base/thread_pool\<close>): the operations as functions and the threads as step relations, with
    spurious wake-ups; ordering, bounds and the absence of lost wake-ups.
  \<^item> \<open>Tcp_Connection\<close>, \<open>Tcp_Server\<close> (\<open>tcp_connection/\<close>, \<open>net/acceptor\<close>, \<open>net/socket\<close>, \<open>net/inet_address\<close>): every handler of a connection and the
    registry of the server. The lemmas on connections are proved in the context of the locale \<open>poller\<close> and used for both pollers.
  \<^item> \<open>Log_Stream\<close>, \<open>Logging\<close>, \<open>Log_File\<close>, \<open>Async_Logging\<close> (\<open>buffer/fixed_buffer.h\<close>, \<open>logger/\<close>): formatting, statements, rolling files and double
    buffering. The locale \<open>line_sink\<close> is the contract of the fixed buffer: a line goes in whole or not at all.
  \<^item> \<open>Memory_Pool\<close> (\<open>memory_pool/\<close>): live regions never overlap. \<open>Mysql_Conn_Pool\<close> (\<open>mysql/mysql_conn_pool\<close>): the accounts of the pool.
    \<open>Mysql_Conn\<close> (\<open>mysql/mysql_conn\<close>): one connection over the client library, whose result sets are live or freed.
  \<^item> \<open>Idle_Connection\<close> (\<open>examples/idleconnection\<close>): the timing wheel and the sorted list that close idle connections.
  \<^item> \<open>Dancing_Links\<close>, \<open>Sudoku\<close>, \<open>Sudoku_Correct\<close> (\<open>examples/sudoku/sudoku.cc\<close>): the solver. The locale \<open>dancing_links\<close> is a sparse matrix
    of rows and columns; in it \<open>uncover\<close> restores what \<open>cover\<close> changed and the search decides exact covers. It is interpreted on the matrix that the
    constructor builds for a board, and exact covers of that matrix are the completions of the board.
  \<^item> \<open>Sudoku_Server\<close> (\<open>examples/sudoku/server_*.cc\<close>): the five servers around the solver. Their handlers share one loop over the request lines;
    streams of requests are served whatever the chunks they arrive in.
  \<^item> \<open>Short_Url\<close> (\<open>http/http_server\<close>, \<open>examples/shorturl\<close>): the HTTP server object and a service on it, from the start of its servers to the bytes of its answers.
  \<^item> \<open>File_Transfer\<close>, \<open>Simple_Servers\<close> (\<open>examples/filetransfer\<close>, \<open>examples/simple\<close>, \<open>examples/echo_server\<close>, \<open>examples/finger\<close>): callbacks run over the
    model of a connection. Their lemmas are proved in the context of the locale \<open>poller\<close>: a file arrives whole, an echo returns the stream.
  \<^item> \<open>Printers\<close> (\<open>examples/timer\<close>): loops that share a counter. \<open>Weak_Callback\<close> (\<open>base/weak_callback.h\<close>, \<open>base/current_thread\<close>): callbacks that do not
    keep their object alive, and the cached thread id.
  \<^item> this theory: the path of a log statement through \<open>Logging\<close> and \<open>Async_Logging\<close>.

  \<^bold>\<open>Conventions.\<close> A class is a \<open>record\<close>, an enumeration a \<open>datatype\<close>; an operation takes the object as its last argument and returns
  it changed. Ways to fail (assertions, which the builds keep, accesses outside an object, null pointers, use after free, \<open>LOG_FATAL\<close>) are
  values of \<open>cpp_error\<close> in the type \<open>result\<close>. Code the operations share but cannot be read here (system calls, the clock,
  \<open>localtime\<close>, callbacks of the user, iteration order of hash maps, values of uninitialised memory) is an argument. \<open>size_t\<close> is a natural
  number with its wrap-around written out, \<open>int\<close> an integer, and words are used where the code works on bits or relies on the width.
  Code that runs in several threads is a function per critical section and a step relation that interleaves them.

  \<^bold>\<open>Bounds and loops.\<close> There is no fuel: a loop is a total function, or a partial function into \<open>option\<close> where it may run forever (the request
  parser, the append loop of \<open>FileUtil\<close>, the event loop), and then it is stated when it returns. The bounds in hypotheses are those of the
  machine: lengths below \<open>2 ^ 31\<close> where the code narrows to \<open>int\<close>, fewer than \<open>2 ^ 31\<close> connections, page addresses below \<open>2 ^ 64\<close>.

  \<^bold>\<open>Not modelled.\<close> The vendored JSON header, whose results are arguments of the connection pool; \<open>callback.h\<close> and \<open>noncopyable.h\<close>, which declare types; the
  \<open>main\<close> functions of the examples, except that of the short url service: they construct a server and start its loop; what the handlers log; the tests.
\<close>

section \<open>From a log statement to the logging thread\<close>

lemma statement_output_length:
  assumes "log_statement fmt g env file line func m items ti = Inr (ti', Output l # es)" and "length (env_junk env) = kSmallBuffer"
  shows "length l = kSmallBuffer"
proof -
  have en: "macro_enabled g m" using assms(1) by (auto simp: log_statement_def split: if_splits)
  from assms(1) obtain b where
    b: "foldr_result (put_item fmt) (FixedBuffer_new (env_junk env)) (statement_items env ti file line func m items) = Inr b"
      "Output l # es = logger_effects (macro_level m) b"
    unfolding log_statement_items [OF en] by auto
  have "length (fb_data b) = kSmallBuffer" using stream_run_length [OF b(1)] assms(2) by (simp add: FixedBuffer_new_def)
  then show ?thesis using b(2) by (simp add: logger_effects_def Length_def int_of_size_eq kSmallBuffer_def)
qed

lemma example_statement:
  "\<exists>env ti' l. log_statement (\<lambda>v :: unit. '''') INFO env ''a.cc'' 1 ''f'' LOG_INFO [] thread_info_init = Inr (ti', [Output l]) \<and> length (env_junk env) = kSmallBuffer"
proof -
  define env where "env = \<lparr>env_now = Timestamp 0, env_localtime = (\<lambda>_. \<lparr>tm_year = 70, tm_mon = 0, tm_mday = 1, tm_hour = 0, tm_min = 0, tm_sec = 0\<rparr>),
     env_errno = 0, env_strerror = (\<lambda>_. ''''), env_junk = replicate kSmallBuffer CHR ''?''\<rparr>"
  have e: "env_ok env thread_info_init" by (simp add: env_ok_def tm_ok_def thread_info_init_def env_def)
  have "fb_ok (FixedBuffer_new (env_junk env))" by (simp add: env_def fb_ok_def FixedBuffer_new_def kSmallBuffer_def)
  moreover have "item_ok (\<lambda>v :: unit. '''') x \<and> \<not> is_double x" if "x \<in> set (statement_items env thread_info_init ''a.cc'' 1 ''f'' LOG_INFO [])" for x
    by (rule statement_items_ok [OF e _ _ that]) simp_all
  ultimately obtain b where
    "foldr_result (put_item (\<lambda>v :: unit. '''')) (FixedBuffer_new (env_junk env)) (statement_items env thread_info_init ''a.cc'' 1 ''f'' LOG_INFO []) = Inr b"
    using stream_run by blast
  moreover have "macro_enabled INFO LOG_INFO" by simp
  note log_statement_items [OF this, of "\<lambda>v :: unit. ''''" env "''a.cc''" 1 "''f''" "[]" thread_info_init]
  ultimately have "log_statement (\<lambda>v :: unit. '''') INFO env ''a.cc'' 1 ''f'' LOG_INFO [] thread_info_init
      = Inr (fst (time_fields env thread_info_init), [Output (take (nat (Length b)) (fb_data b))])"
    by (simp only: bindr.simps logger_effects_def macro_level.simps log_level.distinct if_False)
  moreover have "length (env_junk env) = kSmallBuffer" by (simp add: env_def)
  ultimately show ?thesis by blast
qed

text \<open>
  Property C14. Log statements keep their order all the way to the logging thread. If the lines given to \<open>AsyncLogging::Append\<close> are
  the outputs of log statements, then in every reachable state the buffers written, being written, waiting and current together
  hold all of them, whole and in order: the output of a statement always fits a buffer, whatever is logged.
\<close>

theorem logged_statements_in_order:
  assumes "async_reach kLargeBuffer c"
    and "\<And>l. l \<in> set (cfg_lines c) \<Longrightarrow> \<exists>env g file line func m items ti ti' es.
      log_statement fmt g env file line func m items ti = Inr (ti', Output l # es) \<and> length (env_junk env) = kSmallBuffer"
  shows "concat (map fb_content (cfg_written c @ map the (buffersToWrite (cfg_thread c) @ al_buffers (cfg_shared c) @ [current_buffer (cfg_shared c)])))
    = concat (cfg_lines c)"
proof -
  have "length l < kLargeBuffer" if "l \<in> set (cfg_lines c)" for l
  proof -
    have "length l = kSmallBuffer" using assms(2) [OF that] statement_output_length by blast
    then show ?thesis by (simp add: kSmallBuffer_def kLargeBuffer_def)
  qed
  then have "filter (\<lambda>l. length l < kLargeBuffer) (cfg_lines c) = cfg_lines c" by simp
  moreover have "async_inv kLargeBuffer c" by (rule async_inv_reach [OF assms(1)]) (simp add: kLargeBuffer_def)
  ultimately show ?thesis by (simp add: async_inv_def pending_def)
qed

theorem logged_statements_in_order_witness:
  "\<exists>c l. async_reach kLargeBuffer c \<and> length l = kSmallBuffer \<and> cfg_lines c = [l]
    \<and> concat (map fb_content (cfg_written c @ map the (buffersToWrite (cfg_thread c) @ al_buffers (cfg_shared c) @ [current_buffer (cfg_shared c)]))) = l"
proof -
  from example_statement obtain env ti' l where
    l: "log_statement (\<lambda>v :: unit. '''') INFO env ''a.cc'' 1 ''f'' LOG_INFO [] thread_info_init = Inr (ti', [Output l])" "length (env_junk env) = kSmallBuffer"
    by blast
  then have "length l = kSmallBuffer" by (rule statement_output_length)
  moreover from this stop_run [of l kLargeBuffer] obtain c where c: "async_reach kLargeBuffer c" "cfg_lines c = [l]"
    by (auto simp: kSmallBuffer_def kLargeBuffer_def)
  moreover have "concat (map fb_content (cfg_written c @ map the (buffersToWrite (cfg_thread c) @ al_buffers (cfg_shared c) @ [current_buffer (cfg_shared c)])))
      = concat (cfg_lines c)"
    by (rule logged_statements_in_order [OF c(1)]) (use l c(2) in fastforce)
  ultimately show ?thesis by auto
qed

end
